(* ===== verification/Prelude.thy ===== *)
theory Prelude
  imports Main "HOL-Library.Word"
begin

text \<open>
  Shared vocabulary of the development: the Rust machine integers as fixed-width words, the
  arithmetic flavours the sources use (wrapping, saturating, checked), byte encodings of
  integers in both byte orders, and the generic list and word facts the component theories
  rest on. Plain \<open>+\<close>, \<open>-\<close> and \<open>*\<close> on words wrap, which is what the release profile of
  \<^verbatim>\<open>src/Cargo.toml\<close> (no \<^verbatim>\<open>overflow-checks\<close>) makes of the sources' unchecked operators.
\<close>

unbundle bit_operations_syntax

named_theorems codec_simps \<open>round-trip equations of the byte codecs\<close>
named_theorems eval_simps \<open>definitions unfolded when a witness is evaluated\<close>

type_synonym u8 = "8 word"
type_synonym u16 = "16 word"
type_synonym u32 = "32 word"
type_synonym u64 = "64 word"
type_synonym bytes = "u8 list"

text \<open>
  An operation that panics is \<open>Panicked\<close>; one that may run for ever has the type
  \<open>'a outcome option\<close>, where \<open>None\<close> stands for not returning.
\<close>

datatype 'a outcome = Panicked | Done 'a

subsection \<open>Arithmetic of the Rust integer types\<close>

definition sat_add :: "'a::len word \<Rightarrow> 'a word \<Rightarrow> 'a word" where
  "sat_add a b = (if unat a + unat b < 2 ^ LENGTH('a) then a + b else - 1)"

definition sat_sub :: "'a::len word \<Rightarrow> 'a word \<Rightarrow> 'a word" where
  "sat_sub a b = (if b \<le> a then a - b else 0)"

definition sat_mul :: "'a::len word \<Rightarrow> 'a word \<Rightarrow> 'a word" where
  "sat_mul a b = (if unat a * unat b < 2 ^ LENGTH('a) then a * b else - 1)"

definition checked_mul :: "'a::len word \<Rightarrow> 'a word \<Rightarrow> 'a word option" where
  "checked_mul a b = (if unat a * unat b < 2 ^ LENGTH('a) then Some (a * b) else None)"

text \<open>
  A 64-bit shift by an amount that is not below 64 uses the amount's low six bits, as the
  release profile compiles it.
\<close>

definition shl64 :: "u64 \<Rightarrow> u32 \<Rightarrow> u64" where
  "shl64 v n = push_bit (unat n mod 64) v"

definition shr64 :: "u64 \<Rightarrow> u32 \<Rightarrow> u64" where
  "shr64 v n = drop_bit (unat n mod 64) v"

text \<open>\<^verbatim>\<open>i64\<close> values are integers of the range; plain operators wrap, the saturating ones clamp.\<close>

definition i64_wrap :: "int \<Rightarrow> int" where
  "i64_wrap x = (x + 2 ^ 63) mod 2 ^ 64 - 2 ^ 63"

definition i64_sat_add :: "int \<Rightarrow> int \<Rightarrow> int" where
  "i64_sat_add a b = max (- (2 ^ 63)) (min (2 ^ 63 - 1) (a + b))"

lemma unat_minus_1: "unat (- 1 :: 'a::len word) = 2 ^ LENGTH('a) - 1"
  by (simp add: unsigned_minus_1_eq_mask mask_eq_exp_minus_1)

lemma unat_sat_add: "unat (sat_add a b) = min (unat a + unat b) (2 ^ LENGTH('a) - 1)"
  for a b :: "'a::len word"
proof (cases "unat a + unat b < 2 ^ LENGTH('a)")
  case True
  then have "min (unat a + unat b) (2 ^ LENGTH('a) - 1) = unat a + unat b"
    by (intro min_absorb1) linarith
  with True show ?thesis by (simp add: sat_add_def unat_word_ariths)
next
  case False
  have "min (unat a + unat b) (2 ^ LENGTH('a) - 1) = 2 ^ LENGTH('a) - 1"
    using False by (intro min_absorb2) linarith
  with False show ?thesis by (simp add: sat_add_def unat_minus_1)
qed

lemma unat_sat_sub: "unat (sat_sub a b) = unat a - unat b"
  by (auto simp: sat_sub_def unat_sub word_le_nat_alt)

lemma unat_sat_mul: "unat (sat_mul a b) = min (unat a * unat b) (2 ^ LENGTH('a) - 1)"
  for a b :: "'a::len word"
proof (cases "unat a * unat b < 2 ^ LENGTH('a)")
  case True
  then have "min (unat a * unat b) (2 ^ LENGTH('a) - 1) = unat a * unat b"
    by (intro min_absorb1) linarith
  with True show ?thesis by (simp add: sat_mul_def unat_word_ariths)
next
  case False
  have "min (unat a * unat b) (2 ^ LENGTH('a) - 1) = 2 ^ LENGTH('a) - 1"
    using False by (intro min_absorb2) linarith
  with False show ?thesis by (simp add: sat_mul_def unat_minus_1)
qed

lemma unat_add_no_wrap:
  "unat a + unat b < 2 ^ LENGTH('a) \<Longrightarrow> unat (a + b) = unat a + unat b" for a b :: "'a::len word"
  by (simp add: unat_word_ariths)

lemma unat_mult_no_wrap:
  "unat a * unat b < 2 ^ LENGTH('a) \<Longrightarrow> unat (a * b) = unat a * unat b" for a b :: "'a::len word"
  by (simp add: unat_word_ariths)

lemma unat_of_nat_lt: "n < 2 ^ LENGTH('a) \<Longrightarrow> unat (of_nat n :: 'a::len word) = n"
  by (simp add: unat_of_nat take_bit_nat_eq_self)

lemma unat_ucast_up: "LENGTH('a) \<le> LENGTH('b) \<Longrightarrow> unat (ucast (x :: 'a::len word) :: 'b::len word) = unat x"
  by (simp add: unsigned_ucast_eq take_bit_nat_eq_self order_less_le_trans [OF unsigned_less])

lemma word_Suc_unat: "s < b \<Longrightarrow> unat (s + 1) = Suc (unat s)" for s b :: "'a::len word"
proof -
  assume "s < b"
  then have "unat s < unat b" by (simp add: word_less_nat_alt)
  moreover have "unat b < 2 ^ LENGTH('a)" by (rule unsigned_less)
  ultimately have "unat s + 1 < 2 ^ LENGTH('a)" by linarith
  then show ?thesis using unat_add_no_wrap [of s 1] by simp
qed

lemma word_window_iff: "d - e - 1 < d \<longleftrightarrow> e < d" for d e :: "'a::len word"
proof -
  have "d - e - 1 < d \<longleftrightarrow> d - (e + 1) < d" by (simp add: algebra_simps)
  also have "\<dots> \<longleftrightarrow> e < d"
  proof (cases "e + 1 = 0")
    case True
    then have "e = - 1" by (simp add: eq_neg_iff_add_eq_0)
    with True show ?thesis by simp
  next
    case False
    then have s: "unat (e + 1) = Suc (unat e)" by (simp add: unatSuc add.commute)
    have "unat (e+1) < 2 ^ LENGTH('a)" "unat d < 2 ^ LENGTH('a)" by (rule unsigned_less)+
    then show ?thesis
      by (auto simp: word_less_nat_alt unat_sub_if' word_le_nat_alt s)
  qed
  finally show ?thesis .
qed

lemma in_window_iff: "(\<exists>k < unat (b - a). e = a + of_nat k) \<longleftrightarrow> e - a < b - a" for a b e :: "'a::len word"
proof
  assume "\<exists>k < unat (b - a). e = a + of_nat k"
  then obtain k where k: "k < unat (b - a)" "e = a + of_nat k" by auto
  moreover have "unat (b - a) < 2 ^ LENGTH('a)" by (rule unsigned_less)
  ultimately show "e - a < b - a" by (simp add: word_less_nat_alt unat_of_nat_lt order_less_trans)
next
  assume "e - a < b - a"
  then have "unat (e - a) < unat (b - a)" "e = a + of_nat (unat (e - a))"
    by (simp_all add: word_less_nat_alt)
  then show "\<exists>k < unat (b - a). e = a + of_nat k" by blast
qed

lemma distinct_word_length:
  "set xs \<subseteq> {..<n} \<Longrightarrow> distinct xs \<Longrightarrow> length xs \<le> unat n" for n :: "'a::len word"
proof -
  assume s: "set xs \<subseteq> {..<n}" and d: "distinct xs"
  have "unat ` set xs \<subseteq> {..<unat n}" using s by (auto simp: word_less_nat_alt)
  then have "card (unat ` set xs) \<le> unat n" using card_mono [of "{..<unat n}"] by fastforce
  moreover have "card (unat ` set xs) = length xs"
    using d distinct_card [of xs] by (subst card_image) (auto simp: inj_on_def word_unat_eq_iff)
  ultimately show ?thesis by simp
qed

subsection \<open>Integers as bytes\<close>

text \<open>
  \<^verbatim>\<open>to_le_bytes\<close> and \<^verbatim>\<open>from_le_bytes\<close>: byte \<open>i\<close> of the encoding holds bits \<open>8 * i\<close> up to
  \<open>8 * i + 7\<close>. The big-endian pair is the same with the bytes reversed.
\<close>

definition le_bytes :: "'a::len word \<Rightarrow> bytes" where
  "le_bytes w = map (\<lambda>i. ucast (drop_bit (8 * i) w)) [0..<LENGTH('a) div 8]"

fun of_le_bytes :: "bytes \<Rightarrow> 'a::len word" where
  "of_le_bytes [] = 0"
| "of_le_bytes (b # bs) = ucast b OR push_bit 8 (of_le_bytes bs)"

definition be_bytes :: "'a::len word \<Rightarrow> bytes" where
  "be_bytes w = rev (le_bytes w)"

definition of_be_bytes :: "bytes \<Rightarrow> 'a::len word" where
  "of_be_bytes bs = of_le_bytes (rev bs)"

lemma length_le_bytes [simp]: "length (le_bytes (w :: 'a::len word)) = LENGTH('a) div 8"
  by (simp add: le_bytes_def)

lemma bit_of_le_bytes:
  "bit (of_le_bytes bs :: 'a::len word) n \<longleftrightarrow>
     n < LENGTH('a) \<and> n div 8 < length bs \<and> bit (bs ! (n div 8)) (n mod 8)"
proof (induction bs arbitrary: n)
  case Nil
  then show ?case by simp
next
  case (Cons b bs)
  show ?case
  proof (cases "n < 8")
    case True
    then show ?thesis by (auto simp: bit_simps)
  next
    case False
    then obtain m where "n = m + 8" by (metis add.commute le_add_diff_inverse not_less)
    moreover have "(m + 8) div 8 = Suc (m div 8)" by simp
    ultimately show ?thesis
      by (auto simp: bit_simps Cons.IH dest: bit_imp_le_length)
  qed
qed

lemma of_le_bytes_le_bytes [codec_simps]:
  "8 dvd LENGTH('a) \<Longrightarrow> of_le_bytes (le_bytes w) = (w :: 'a::len word)"
  by (rule bit_eqI) (auto simp: bit_of_le_bytes le_bytes_def bit_simps less_mult_imp_div_less
        mult.commute dest: bit_imp_le_length)

lemma le_bytes_of_le_bytes [codec_simps]:
  "8 * length bs = LENGTH('a) \<Longrightarrow> le_bytes (of_le_bytes bs :: 'a::len word) = bs"
proof (rule nth_equalityI)
  fix i
  assume len: "8 * length bs = LENGTH('a)" and "i < length (le_bytes (of_le_bytes bs :: 'a word))"
  then have i: "i < length bs" "i < LENGTH('a) div 8" by auto
  have "bit (ucast (drop_bit (8 * i) (of_le_bytes bs :: 'a word)) :: u8) n = bit (bs ! i) n" for n
  proof (cases "n < 8")
    case True
    then have "(8 * i + n) div 8 = i" "(8 * i + n) mod 8 = n" "8 * i + n < LENGTH('a)"
      using i len by auto
    with True i show ?thesis by (simp add: bit_simps bit_of_le_bytes)
  qed (auto simp: bit_simps dest: bit_imp_le_length)
  then show "le_bytes (of_le_bytes bs :: 'a word) ! i = bs ! i"
    using i by (simp add: le_bytes_def bit_eq_iff)
qed simp

text \<open>
  A fixed-width codec: every value encodes to \<open>width\<close> bytes, decoding inverts encoding, and
  every string of that width is the encoding of its decoding. All integer layouts of guest
  memory and of network headers are instances.
\<close>

locale byte_codec =
  fixes enc :: "'v \<Rightarrow> bytes" and dec :: "bytes \<Rightarrow> 'v" and width :: nat
  assumes length_enc: "length (enc v) = width"
    and dec_enc: "dec (enc v) = v"
    and enc_dec: "length bs = width \<Longrightarrow> enc (dec bs) = bs"
begin

lemma enc_inject: "enc v = enc w \<longleftrightarrow> v = w"
  using dec_enc by metis

lemma dec_inject: "length bs = width \<Longrightarrow> length cs = width \<Longrightarrow> dec bs = dec cs \<longleftrightarrow> bs = cs"
  using enc_dec by metis

end

interpretation le16: byte_codec "le_bytes :: u16 \<Rightarrow> bytes" of_le_bytes 2
  by unfold_locales (simp_all add: codec_simps)

interpretation le32: byte_codec "le_bytes :: u32 \<Rightarrow> bytes" of_le_bytes 4
  by unfold_locales (simp_all add: codec_simps)

interpretation le64: byte_codec "le_bytes :: u64 \<Rightarrow> bytes" of_le_bytes 8
  by unfold_locales (simp_all add: codec_simps)

interpretation be16: byte_codec "be_bytes :: u16 \<Rightarrow> bytes" of_be_bytes 2
  by unfold_locales (simp_all add: codec_simps be_bytes_def of_be_bytes_def)

interpretation be32: byte_codec "be_bytes :: u32 \<Rightarrow> bytes" of_be_bytes 4
  by unfold_locales (simp_all add: codec_simps be_bytes_def of_be_bytes_def)

subsection \<open>Overwriting a slice of a list\<close>

text \<open>\<open>overwrite off xs ys\<close> is \<open>ys\<close> with the elements from \<open>off\<close> on replaced by \<open>xs\<close>.\<close>

definition overwrite :: "nat \<Rightarrow> 'a list \<Rightarrow> 'a list \<Rightarrow> 'a list" where
  "overwrite off xs ys = take off ys @ xs @ drop (off + length xs) ys"

lemma length_overwrite [simp]: "off + length xs \<le> length ys \<Longrightarrow> length (overwrite off xs ys) = length ys"
  by (simp add: overwrite_def)

lemma slice_overwrite_same:
  "off + length xs \<le> length ys \<Longrightarrow> take (length xs) (drop off (overwrite off xs ys)) = xs"
  by (simp add: overwrite_def)

lemma nth_overwrite:
  assumes "off + length xs \<le> length ys" "i < length ys"
  shows "overwrite off xs ys ! i = (if off \<le> i \<and> i < off + length xs then xs ! (i - off) else ys ! i)"
proof (cases "i < off")
  case True
  with assms show ?thesis by (simp add: overwrite_def nth_append)
next
  case False
  then obtain k where k: "i = off + k" using le_Suc_ex not_less by blast
  have len: "length (take off ys) = off" using assms(1) by simp
  have "overwrite off xs ys ! i = (xs @ drop (off + length xs) ys) ! k"
    unfolding overwrite_def k using nth_append_length_plus [of "take off ys"] by (simp only: len)
  also have "\<dots> = (if k < length xs then xs ! k else ys ! (off + k))"
    using assms k by (auto simp only: nth_append nth_drop add.assoc le_add_diff_inverse not_less split: if_split)
  finally show ?thesis using k by simp
qed

lemma slice_overwrite_disjoint:
  assumes "off + length xs \<le> length ys" "p + n \<le> off \<or> off + length xs \<le> p"
  shows "take n (drop p (overwrite off xs ys)) = take n (drop p ys)"
proof (rule nth_equalityI)
  show "length (take n (drop p (overwrite off xs ys))) = length (take n (drop p ys))"
    using assms(1) by simp
next
  fix i
  assume "i < length (take n (drop p (overwrite off xs ys)))"
  then have "i < n" "i < length ys - p" using assms(1) by simp_all
  then have i: "i < n" "p + i < length ys" by linarith+
  then have "overwrite off xs ys ! (p + i) = ys ! (p + i)"
    using assms by (subst nth_overwrite) auto
  with i assms(1) show "take n (drop p (overwrite off xs ys)) ! i = take n (drop p ys) ! i"
    by simp
qed

lemma overwrite_append:
  assumes "off + length xs + length ys \<le> length zs"
  shows "overwrite (off + length xs) ys (overwrite off xs zs) = overwrite off (xs @ ys) zs"
proof -
  have len: "length (take off zs) = off" using assms by simp
  have "take (off + length xs) (overwrite off xs zs) = take off zs @ xs"
    using len by (simp add: overwrite_def)
  moreover have "drop (off + length xs + length ys) (overwrite off xs zs) = drop (off + length xs + length ys) zs"
    using len by (simp add: overwrite_def add.commute add.left_commute)
  ultimately show ?thesis by (simp add: overwrite_def add.assoc)
qed

lemma overwrite_Nil [simp]: "overwrite off [] zs = zs"
  by (simp add: overwrite_def)

lemma slice_eqI:
  assumes "p + n \<le> length xs" "p + n \<le> length ys" "\<And>i. p \<le> i \<Longrightarrow> i < p + n \<Longrightarrow> xs ! i = ys ! i"
  shows "take n (drop p xs) = take n (drop p ys)"
  using assms by (intro nth_equalityI) auto

lemma slice_append: "r \<le> n \<Longrightarrow> take r (drop p xs) @ take (n - r) (drop (p + r) xs) = take n (drop p xs)"
  using take_add [of r "n - r" "drop p xs"] by (simp add: add.commute)

end
