(* ===== verification/Guest_Memory.thy ===== *)
theory Guest_Memory
  imports Prelude
begin

text \<open>
  The host view of guest-physical memory (\<^verbatim>\<open>src/hypervisor/src/hvf/virtio/mod.rs\<close>): a list of
  registered regions, each a base address and the bytes behind its host pointer, searched in
  registration order. The pointer arithmetic of \<^verbatim>\<open>with_ptr\<close> becomes a region index and an
  offset into that region's bytes; the instruction-cache hook \<^verbatim>\<open>on_device_write\<close> changes no
  memory and is left out. The locale \<open>byte_ram\<close> states what the device models rely on, and
  is interpreted on the model.
\<close>

subsection \<open>Regions and the bounds check\<close>

record region =
  r_gpa :: u64
  r_bytes :: bytes

type_synonym guest_memory = "region list"

record guest_mem_error =
  e_gpa :: u64
  e_len :: nat

definition gm_new :: guest_memory where
  "gm_new = []"

definition register :: "guest_memory \<Rightarrow> u64 \<Rightarrow> bytes \<Rightarrow> guest_memory" where
  "register m gpa bs = m @ [\<lparr>r_gpa = gpa, r_bytes = bs\<rparr>]"

text \<open>
  The condition of the search loop. A buffer length is a \<^verbatim>\<open>usize\<close>, so
  \<^verbatim>\<open>gpa.saturating_add(len as u64)\<close> is the sum cut off at \<open>2 ^ 64 - 1\<close>; the region's end is the
  unchecked \<^verbatim>\<open>r.gpa + r.size as u64\<close>.
\<close>

definition region_holds :: "region \<Rightarrow> u64 \<Rightarrow> nat \<Rightarrow> bool" where
  "region_holds r gpa len \<longleftrightarrow>
     r_gpa r \<le> gpa \<and>
     min (unat gpa + len) (2 ^ 64 - 1) \<le> unat (r_gpa r + of_nat (length (r_bytes r)))"

fun with_ptr :: "guest_memory \<Rightarrow> u64 \<Rightarrow> nat \<Rightarrow> guest_mem_error + (nat \<times> nat)" where
  "with_ptr [] gpa len = Inl \<lparr>e_gpa = gpa, e_len = len\<rparr>"
| "with_ptr (r # rs) gpa len =
     (if region_holds r gpa len then Inr (0, unat (gpa - r_gpa r))
      else (case with_ptr rs gpa len of
              Inl e \<Rightarrow> Inl e
            | Inr (i, off) \<Rightarrow> Inr (Suc i, off)))"

definition gm_read :: "guest_memory \<Rightarrow> u64 \<Rightarrow> nat \<Rightarrow> guest_mem_error + bytes" where
  "gm_read m gpa n =
     (case with_ptr m gpa n of
        Inl e \<Rightarrow> Inl e
      | Inr (i, off) \<Rightarrow> Inr (take n (drop off (r_bytes (m ! i)))))"

definition gm_write :: "guest_memory \<Rightarrow> u64 \<Rightarrow> bytes \<Rightarrow> guest_mem_error + guest_memory" where
  "gm_write m gpa buf =
     (case with_ptr m gpa (length buf) of
        Inl e \<Rightarrow> Inl e
      | Inr (i, off) \<Rightarrow>
          Inr (m[i := (m ! i)\<lparr>r_bytes := overwrite off buf (r_bytes (m ! i))\<rparr>]))"

text \<open>
  \<^verbatim>\<open>with_slice\<close> hands the callback the bytes; \<^verbatim>\<open>with_slice_mut\<close> hands it the bytes to fill
  and keeps what it left there. The callback returns its result with the filled buffer.
\<close>

definition with_slice :: "guest_memory \<Rightarrow> u64 \<Rightarrow> nat \<Rightarrow> (bytes \<Rightarrow> 'r) \<Rightarrow> guest_mem_error + 'r" where
  "with_slice m gpa len f =
     (case gm_read m gpa len of Inl e \<Rightarrow> Inl e | Inr bs \<Rightarrow> Inr (f bs))"

definition with_slice_mut ::
  "guest_memory \<Rightarrow> u64 \<Rightarrow> nat \<Rightarrow> (bytes \<Rightarrow> 'r \<times> bytes) \<Rightarrow> guest_mem_error + ('r \<times> guest_memory)" where
  "with_slice_mut m gpa len f =
     (case with_ptr m gpa len of
        Inl e \<Rightarrow> Inl e
      | Inr (i, off) \<Rightarrow>
          (let (r, buf) = f (take len (drop off (r_bytes (m ! i))))
           in Inr (r, m[i := (m ! i)\<lparr>r_bytes := overwrite off buf (r_bytes (m ! i))\<rparr>])))"

definition read_u16 :: "guest_memory \<Rightarrow> u64 \<Rightarrow> guest_mem_error + u16" where
  "read_u16 m gpa = (case gm_read m gpa 2 of Inl e \<Rightarrow> Inl e | Inr bs \<Rightarrow> Inr (of_le_bytes bs))"

definition read_u32 :: "guest_memory \<Rightarrow> u64 \<Rightarrow> guest_mem_error + u32" where
  "read_u32 m gpa = (case gm_read m gpa 4 of Inl e \<Rightarrow> Inl e | Inr bs \<Rightarrow> Inr (of_le_bytes bs))"

definition read_u64 :: "guest_memory \<Rightarrow> u64 \<Rightarrow> guest_mem_error + u64" where
  "read_u64 m gpa = (case gm_read m gpa 8 of Inl e \<Rightarrow> Inl e | Inr bs \<Rightarrow> Inr (of_le_bytes bs))"

definition write_u16 :: "guest_memory \<Rightarrow> u64 \<Rightarrow> u16 \<Rightarrow> guest_mem_error + guest_memory" where
  "write_u16 m gpa v = gm_write m gpa (le_bytes v)"

definition write_u32 :: "guest_memory \<Rightarrow> u64 \<Rightarrow> u32 \<Rightarrow> guest_mem_error + guest_memory" where
  "write_u32 m gpa v = gm_write m gpa (le_bytes v)"

definition write_u64 :: "guest_memory \<Rightarrow> u64 \<Rightarrow> u64 \<Rightarrow> guest_mem_error + guest_memory" where
  "write_u64 m gpa v = gm_write m gpa (le_bytes v)"

lemmas gm_eval [eval_simps] = gm_read_def gm_write_def region_holds_def overwrite_def
  read_u16_def read_u32_def read_u64_def write_u16_def write_u32_def write_u64_def

subsection \<open>The bounds check keeps every access inside its region\<close>

text \<open>
  The invariant the rehydration layer maintains: a region ends below the last address, so the
  unchecked end does not wrap and the saturated sum cannot hide an overflow.
\<close>

definition gm_ok :: "guest_memory \<Rightarrow> bool" where
  "gm_ok m \<longleftrightarrow> (\<forall>r \<in> set m. unat (r_gpa r) + length (r_bytes r) < 2 ^ 64 - 1)"

lemma region_holds_iff:
  assumes "unat (r_gpa r) + length (r_bytes r) < 2 ^ 64 - 1"
  shows "region_holds r gpa len \<longleftrightarrow>
    unat (r_gpa r) \<le> unat gpa \<and> unat gpa + len \<le> unat (r_gpa r) + length (r_bytes r)"
proof -
  have "unat (of_nat (length (r_bytes r)) :: u64) = length (r_bytes r)"
    using assms by (simp add: unat_of_nat_lt)
  with assms have "unat (r_gpa r + of_nat (length (r_bytes r))) = unat (r_gpa r) + length (r_bytes r)"
    by (simp add: unat_add_no_wrap)
  with assms show ?thesis by (auto simp: region_holds_def word_le_nat_alt min_def)
qed

lemma with_ptr_InrD:
  assumes "gm_ok m" "with_ptr m gpa len = Inr (i, off)"
  shows "i < length m \<and> unat gpa = unat (r_gpa (m ! i)) + off \<and>
    off + len \<le> length (r_bytes (m ! i))"
  using assms
proof (induction m arbitrary: i)
  case (Cons r m)
  then show ?case
    by (auto simp: gm_ok_def region_holds_iff unat_sub word_le_nat_alt split: if_splits sum.splits)
qed simp

lemma with_ptr_same_bounds:
  "map r_gpa m = map r_gpa m' \<Longrightarrow> map (length \<circ> r_bytes) m = map (length \<circ> r_bytes) m' \<Longrightarrow>
     with_ptr m gpa len = with_ptr m' gpa len"
proof (induction m m' rule: list_induct2')
  case (4 r m r' m')
  then have "region_holds r gpa len = region_holds r' gpa len" "r_gpa r = r_gpa r'"
    "with_ptr m gpa len = with_ptr m' gpa len"
    by (simp_all add: region_holds_def)
  then show ?case by simp
qed simp_all

lemma map_update_eq: "i < length xs \<Longrightarrow> f x = f (xs ! i) \<Longrightarrow> map f (xs[i := x]) = map f xs"
  by (simp add: map_update list_update_same_conv)

lemma with_ptr_update:
  assumes "i < length m" "length bs = length (r_bytes (m ! i))"
  shows "with_ptr (m[i := (m ! i)\<lparr>r_bytes := bs\<rparr>]) gpa len = with_ptr m gpa len"
  using assms by (intro with_ptr_same_bounds) (simp_all add: map_update_eq)

lemma gm_ok_update:
  assumes "gm_ok m" "i < length m" "length bs = length (r_bytes (m ! i))"
  shows "gm_ok (m[i := (m ! i)\<lparr>r_bytes := bs\<rparr>])"
proof -
  have "unat (r_gpa (m ! i)) + length (r_bytes (m ! i)) < 2 ^ 64 - 1"
    using assms(1,2) nth_mem unfolding gm_ok_def by blast
  moreover have "set (m[i := (m ! i)\<lparr>r_bytes := bs\<rparr>]) \<subseteq> insert ((m ! i)\<lparr>r_bytes := bs\<rparr>) (set m)"
    by (rule set_update_subset_insert)
  ultimately show ?thesis using assms unfolding gm_ok_def by fastforce
qed

subsection \<open>The memory contract the device models use\<close>

definition disjoint_ranges :: "u64 \<Rightarrow> nat \<Rightarrow> u64 \<Rightarrow> nat \<Rightarrow> bool" where
  "disjoint_ranges a n b k \<longleftrightarrow> unat a + n \<le> unat b \<or> unat b + k \<le> unat a"

lemma disjoint_ranges_sym: "disjoint_ranges a n b k \<longleftrightarrow> disjoint_ranges b k a n"
  by (auto simp: disjoint_ranges_def)

text \<open>
  A byte-addressed store: a read returns exactly the bytes asked for, a range that can be read
  can be written, a read sees the last write of the same range and nothing of a write to a
  range apart from it, and whether a range is backed never changes.
\<close>

locale byte_ram =
  fixes rd :: "'m \<Rightarrow> u64 \<Rightarrow> nat \<Rightarrow> 'e + bytes"
    and wr :: "'m \<Rightarrow> u64 \<Rightarrow> bytes \<Rightarrow> 'e + 'm"
    and ok :: "'m \<Rightarrow> bool"
  assumes rd_length: "ok m \<Longrightarrow> rd m a n = Inr bs \<Longrightarrow> length bs = n"
    and wr_backed: "ok m \<Longrightarrow> (\<exists>m'. wr m a bs = Inr m') \<longleftrightarrow> (\<exists>cs. rd m a (length bs) = Inr cs)"
    and wr_ok: "ok m \<Longrightarrow> wr m a bs = Inr m' \<Longrightarrow> ok m'"
    and rd_wr_same: "ok m \<Longrightarrow> wr m a bs = Inr m' \<Longrightarrow> rd m' a (length bs) = Inr bs"
    and rd_wr_disjoint: "ok m \<Longrightarrow> wr m a bs = Inr m' \<Longrightarrow> disjoint_ranges a (length bs) b n \<Longrightarrow>
      rd m' b n = rd m b n"
    and rd_wr_error: "ok m \<Longrightarrow> wr m a bs = Inr m' \<Longrightarrow> rd m' b n = Inl e \<longleftrightarrow> rd m b n = Inl e"
begin

lemma rd_wr_backed:
  assumes "ok m" "wr m a bs = Inr m'"
  shows "(\<exists>cs. rd m' b n = Inr cs) \<longleftrightarrow> (\<exists>cs. rd m b n = Inr cs)"
  using rd_wr_error [OF assms, of b n] by (cases "rd m b n"; cases "rd m' b n") auto

end

text \<open>
  Typed access: a codec laid over a store gives load and store operations with the laws of a
  register of that width.
\<close>

locale typed_ram = byte_ram rd wr ok + byte_codec enc dec width
  for rd :: "'m \<Rightarrow> u64 \<Rightarrow> nat \<Rightarrow> 'e + bytes"
    and wr :: "'m \<Rightarrow> u64 \<Rightarrow> bytes \<Rightarrow> 'e + 'm"
    and ok :: "'m \<Rightarrow> bool"
    and enc :: "'v \<Rightarrow> bytes" and dec :: "bytes \<Rightarrow> 'v" and width :: nat +
  fixes get :: "'m \<Rightarrow> u64 \<Rightarrow> 'e + 'v"
    and put :: "'m \<Rightarrow> u64 \<Rightarrow> 'v \<Rightarrow> 'e + 'm"
  assumes get_rd: "get m a = (case rd m a width of Inl e \<Rightarrow> Inl e | Inr bs \<Rightarrow> Inr (dec bs))"
    and put_wr: "put m a v = wr m a (enc v)"
begin

lemma put_ok: "ok m \<Longrightarrow> put m a v = Inr m' \<Longrightarrow> ok m'"
  by (simp add: put_wr wr_ok)

lemma get_put_same: "ok m \<Longrightarrow> put m a v = Inr m' \<Longrightarrow> get m' a = Inr v"
  using rd_wr_same [of m a "enc v" m'] by (simp add: put_wr get_rd length_enc dec_enc)

lemma get_wr_disjoint:
  "ok m \<Longrightarrow> wr m a bs = Inr m' \<Longrightarrow> disjoint_ranges a (length bs) b width \<Longrightarrow> get m' b = get m b"
  by (simp add: get_rd rd_wr_disjoint)

lemma rd_put_disjoint:
  "ok m \<Longrightarrow> put m a v = Inr m' \<Longrightarrow> disjoint_ranges a width b n \<Longrightarrow> rd m' b n = rd m b n"
  using rd_wr_disjoint [of m a "enc v" m' b n] by (simp add: put_wr length_enc)

lemma get_wr_backed:
  assumes "ok m" "wr m a bs = Inr m'"
  shows "(\<exists>v. get m' b = Inr v) \<longleftrightarrow> (\<exists>v. get m b = Inr v)"
  using rd_wr_backed [OF assms, of b width]
  by (cases "rd m b width"; cases "rd m' b width") (auto simp: get_rd)

lemma put_if_get: "ok m \<Longrightarrow> get m a = Inr v \<Longrightarrow> \<exists>m'. put m a w = Inr m'"
  using wr_backed [of m a "enc w"] by (auto simp: put_wr get_rd length_enc split: sum.splits)

lemma put_if_rd: "ok m \<Longrightarrow> rd m a width = Inr bs \<Longrightarrow> \<exists>m'. put m a v = Inr m'"
  using wr_backed [of m a "enc v"] by (simp add: put_wr length_enc)

lemma rd_put_backed:
  "ok m \<Longrightarrow> put m a v = Inr m' \<Longrightarrow> (\<exists>cs. rd m' b n = Inr cs) \<longleftrightarrow> (\<exists>cs. rd m b n = Inr cs)"
  by (simp add: put_wr rd_wr_backed)

lemma get_if_put: "ok m \<Longrightarrow> put m a w = Inr m' \<Longrightarrow> \<exists>v. get m a = Inr v"
  using wr_backed [of m a "enc w"] by (auto simp: put_wr get_rd length_enc)

end

lemma gm_write_InrE:
  assumes "gm_ok m" "gm_write m a bs = Inr m'"
  obtains i off where "with_ptr m a (length bs) = Inr (i, off)" "i < length m"
    "unat a = unat (r_gpa (m ! i)) + off" "off + length bs \<le> length (r_bytes (m ! i))"
    "m' = m[i := (m ! i)\<lparr>r_bytes := overwrite off bs (r_bytes (m ! i))\<rparr>]"
proof -
  from assms(2) obtain i off where w: "with_ptr m a (length bs) = Inr (i, off)"
    and m': "m' = m[i := (m ! i)\<lparr>r_bytes := overwrite off bs (r_bytes (m ! i))\<rparr>]"
    by (auto simp: gm_write_def split: sum.splits)
  with with_ptr_InrD [OF assms(1) w] show ?thesis by (intro that) auto
qed

lemma gm_write_with_ptr:
  assumes "gm_ok m" "gm_write m a bs = Inr m'"
  shows "with_ptr m' b n = with_ptr m b n"
  using assms
proof (rule gm_write_InrE)
  fix i off
  assume "i < length m" "off + length bs \<le> length (r_bytes (m ! i))"
    and m': "m' = m[i := (m ! i)\<lparr>r_bytes := overwrite off bs (r_bytes (m ! i))\<rparr>]"
  then show ?thesis unfolding m' by (intro with_ptr_update) simp_all
qed

lemma gm_write_ok:
  assumes "gm_ok m" "gm_write m a bs = Inr m'"
  shows "gm_ok m'"
  using assms by (rule gm_write_InrE) (simp only: gm_ok_update [OF assms(1)] length_overwrite)

lemma gm_read_length:
  assumes "gm_ok m" "gm_read m a n = Inr bs"
  shows "length bs = n"
proof -
  from assms(2) obtain i off where w: "with_ptr m a n = Inr (i, off)"
    and "bs = take n (drop off (r_bytes (m ! i)))"
    by (auto simp: gm_read_def split: sum.splits)
  moreover have "n \<le> length (r_bytes (m ! i)) - off"
    using with_ptr_InrD [OF assms(1) w] by linarith
  ultimately show ?thesis by simp
qed

lemma gm_read_write_same:
  assumes "gm_ok m" "gm_write m a bs = Inr m'"
  shows "gm_read m' a (length bs) = Inr bs"
  using assms
proof (rule gm_write_InrE)
  fix i off
  assume "with_ptr m a (length bs) = Inr (i, off)" "i < length m"
    "off + length bs \<le> length (r_bytes (m ! i))"
    and m': "m' = m[i := (m ! i)\<lparr>r_bytes := overwrite off bs (r_bytes (m ! i))\<rparr>]"
  then show ?thesis
    unfolding gm_read_def gm_write_with_ptr [OF assms] by (simp add: m' slice_overwrite_same)
qed

lemma gm_read_write_disjoint:
  assumes ok: "gm_ok m" and w: "gm_write m a bs = Inr m'" and d: "disjoint_ranges a (length bs) b n"
  shows "gm_read m' b n = gm_read m b n"
proof (cases "with_ptr m b n")
  case (Inr p)
  obtain j o' where p: "p = (j, o')" by force
  note b = with_ptr_InrD [OF ok Inr [unfolded p]]
  from ok w show ?thesis
  proof (rule gm_write_InrE)
    fix i off
    assume i: "i < length m" "unat a = unat (r_gpa (m ! i)) + off"
      "off + length bs \<le> length (r_bytes (m ! i))"
      and m': "m' = m[i := (m ! i)\<lparr>r_bytes := overwrite off bs (r_bytes (m ! i))\<rparr>]"
    have "take n (drop o' (r_bytes (m' ! j))) = take n (drop o' (r_bytes (m ! j)))"
    proof (cases "j = i")
      case True
      with b d i have "o' + n \<le> off \<or> off + length bs \<le> o'" by (auto simp: disjoint_ranges_def)
      with i(3) have "take n (drop o' (overwrite off bs (r_bytes (m ! i)))) = take n (drop o' (r_bytes (m ! i)))"
        by (rule slice_overwrite_disjoint)
      with True i(1) show ?thesis by (simp add: m')
    qed (simp add: m')
    with Inr p show ?thesis by (simp add: gm_read_def gm_write_with_ptr [OF ok w])
  qed
qed (simp add: gm_read_def gm_write_with_ptr [OF ok w])

lemma sub_ptr_region:
  assumes "gm_ok m" "with_ptr m a n = Inr p" "unat a \<le> unat b" "unat b + k \<le> unat a + n"
  shows "\<exists>p. with_ptr m b k = Inr p"
  using assms
proof (induction m arbitrary: p)
  case (Cons r m)
  then have "gm_ok m" and r: "unat (r_gpa r) + length (r_bytes r) < 2 ^ 64 - 1" by (auto simp: gm_ok_def)
  with Cons show ?case by (fastforce simp: region_holds_iff [OF r] split: if_splits sum.splits)
qed simp

lemma gm_read_sub:
  assumes "gm_ok m" "gm_read m a n = Inr bs" "unat a \<le> unat b" "unat b + k \<le> unat a + n"
  shows "\<exists>cs. gm_read m b k = Inr cs"
proof -
  from assms(2) obtain p where "with_ptr m a n = Inr p" by (auto simp: gm_read_def split: sum.splits)
  with sub_ptr_region [OF assms(1)] assms(3,4) obtain p' where "with_ptr m b k = Inr p'" by blast
  then show ?thesis by (auto simp: gm_read_def split: prod.splits)
qed



interpretation ram: byte_ram gm_read gm_write gm_ok
proof (unfold_locales, goal_cases)
  case (1 m a n bs)
  then show ?case by (rule gm_read_length)
next
  case (2 m a bs)
  then show ?case by (auto simp: gm_read_def gm_write_def split: sum.splits)
next
  case (3 m a bs m')
  then show ?case by (rule gm_write_ok)
next
  case (4 m a bs m')
  then show ?case by (rule gm_read_write_same)
next
  case (5 m a bs m' b n)
  then show ?case by (rule gm_read_write_disjoint)
next
  case (6 m a bs m' b n e)
  then show ?case unfolding gm_read_def gm_write_with_ptr [OF 6] by (simp split: sum.splits prod.splits)
qed

interpretation ram16: typed_ram gm_read gm_write gm_ok "le_bytes :: u16 \<Rightarrow> bytes" of_le_bytes 2
  read_u16 write_u16
  by unfold_locales (simp_all add: read_u16_def write_u16_def)

interpretation ram32: typed_ram gm_read gm_write gm_ok "le_bytes :: u32 \<Rightarrow> bytes" of_le_bytes 4
  read_u32 write_u32
  by unfold_locales (simp_all add: read_u32_def write_u32_def)

interpretation ram64: typed_ram gm_read gm_write gm_ok "le_bytes :: u64 \<Rightarrow> bytes" of_le_bytes 8
  read_u64 write_u64
  by unfold_locales (simp_all add: read_u64_def write_u64_def)


subsection \<open>In-place access\<close>

lemma with_slice_mut_write:
  assumes "gm_read m a n = Inr bs" "f bs = (r, buf)" "length buf = n" "gm_write m a buf = Inr m'"
  shows "with_slice_mut m a n f = Inr (r, m')"
  using assms by (auto simp: with_slice_mut_def gm_read_def gm_write_def split: sum.splits)

lemma with_slice_mut_read:
  assumes "gm_ok m" "gm_read m a n = Inr bs" "f bs = (r, buf)" "length buf = n"
  obtains m' where "with_slice_mut m a n f = Inr (r, m')" "gm_write m a buf = Inr m'"
proof -
  have "\<exists>m'. gm_write m a buf = Inr m'" using ram.wr_backed [OF assms(1), of a buf] assms(2,4) by simp
  then obtain m' where "gm_write m a buf = Inr m'" ..
  with with_slice_mut_write [where f = f, OF assms(2-4) this] show ?thesis by (intro that)
qed

subsection \<open>Properties\<close>

lemma with_ptr_iff:
  assumes "gm_ok m"
  shows "(\<exists>p. with_ptr m gpa len = Inr p) \<longleftrightarrow>
    (\<exists>r \<in> set m. unat (r_gpa r) \<le> unat gpa \<and> unat gpa + len \<le> unat (r_gpa r) + length (r_bytes r))"
  using assms
proof (induction m)
  case (Cons r m)
  then have "gm_ok m" and r: "unat (r_gpa r) + length (r_bytes r) < 2 ^ 64 - 1" by (auto simp: gm_ok_def)
  with Cons show ?case by (auto simp: region_holds_iff [OF r] split: sum.splits)
qed simp

text \<open>
  C3. The bounds check is exact: an access is granted precisely when one registered region
  contains the whole range, and the pointer it is granted, a region and an offset, denotes the
  requested address with the whole length inside that region's bytes.
\<close>

theorem with_ptr_exact:
  assumes "gm_ok m"
  shows "((\<exists>p. with_ptr m gpa len = Inr p) \<longleftrightarrow>
      (\<exists>r \<in> set m. unat (r_gpa r) \<le> unat gpa \<and> unat gpa + len \<le> unat (r_gpa r) + length (r_bytes r))) \<and>
    (\<forall>i off. with_ptr m gpa len = Inr (i, off) \<longrightarrow>
      i < length m \<and> unat gpa = unat (r_gpa (m ! i)) + off \<and> off + len \<le> length (r_bytes (m ! i)))"
  using with_ptr_iff [OF assms] with_ptr_InrD [OF assms] by blast

theorem with_ptr_exact_witness:
  "with_ptr [\<lparr>r_gpa = 0x1000, r_bytes = replicate 8 0\<rparr>, \<lparr>r_gpa = 0x4000, r_bytes = replicate 4 7\<rparr>] 0x4001 3
     = Inr (1, 1) \<and>
   unat (0x4001 :: u64) = unat (0x4000 :: u64) + 1 \<and> 1 + 3 \<le> length (replicate 4 (7 :: u8))"
proof -
  let ?m = "[\<lparr>r_gpa = 0x1000, r_bytes = replicate 8 0\<rparr>, \<lparr>r_gpa = 0x4000, r_bytes = replicate 4 7\<rparr>]"
  have "gm_ok ?m" by (simp add: gm_ok_def)
  moreover have "with_ptr ?m 0x4001 3 = Inr (1, 1)" by (simp add: region_holds_def)
  ultimately show ?thesis using with_ptr_exact [of ?m "0x4001" 3] by auto
qed

text \<open>
  A store of guest memory behaves like memory: after a granted write the same range reads
  back the bytes written, every range apart from it reads exactly as before, errors included,
  and the regions stay well formed.
\<close>

theorem gm_write_read_back:
  assumes "gm_ok m" "gm_write m a bs = Inr m'"
  shows "gm_read m' a (length bs) = Inr bs \<and> gm_ok m' \<and>
    (\<forall>b n. disjoint_ranges a (length bs) b n \<longrightarrow> gm_read m' b n = gm_read m b n)"
  using ram.rd_wr_same [OF assms] ram.wr_ok [OF assms] ram.rd_wr_disjoint [OF assms] by blast

theorem gm_write_read_back_witness:
  "\<exists>m'. gm_write [\<lparr>r_gpa = 0x1000, r_bytes = [0, 0, 0, 0, 0, 0, 0, 0]\<rparr>] 0x1002 [1, 2] = Inr m' \<and>
     gm_read m' 0x1002 2 = Inr [1, 2] \<and> gm_read m' 0x1004 4 = Inr [0, 0, 0, 0]"
proof -
  let ?m = "[\<lparr>r_gpa = 0x1000, r_bytes = [0, 0, 0, 0, 0, 0, 0, 0]\<rparr>]"
  have ok: "gm_ok ?m" by (simp add: gm_ok_def)
  have "\<exists>m'. gm_write ?m 0x1002 [1, 2] = Inr m'" by (simp add: eval_simps)
  then obtain m' where m': "gm_write ?m 0x1002 [1, 2] = Inr m'" ..
  have "gm_read ?m 0x1004 4 = Inr [0, 0, 0, 0]" by (simp add: eval_simps)
  moreover have "gm_read m' 0x1004 4 = gm_read ?m 0x1004 4"
    using gm_write_read_back [OF ok m'] by (simp add: disjoint_ranges_def)
  moreover have "gm_read m' 0x1002 (length [1 :: u8, 2]) = Inr [1, 2]"
    using gm_write_read_back [OF ok m'] by blast
  ultimately show ?thesis using m' by (simp add: numeral_2_eq_2)
qed

end
