(* ===== verification/Virtqueue.thy ===== *)
theory Virtqueue
  imports Guest_Memory
begin

text \<open>
  The split-virtqueue engine (\<^verbatim>\<open>src/hypervisor/src/hvf/virtio/queue.rs\<close>): popping available
  descriptor chains, publishing used elements, and the two notification-suppression schemes,
  over the guest memory of \<open>Guest_Memory\<close>. A guest-memory error is the value \<open>MemFault\<close>, the
  remainder by a zero queue size is \<open>Panic\<close>. The descriptor walks are loops that the guest's
  data drives, so they are partial functions: \<open>None\<close> is a walk that never returns.
\<close>

subsection \<open>Data\<close>

datatype fault = MemFault guest_mem_error | Panic

record segment =
  seg_gpa :: u64
  seg_len :: u32
  seg_write :: bool

record desc_chain =
  head :: u16
  segments :: "segment list"

definition readable :: "desc_chain \<Rightarrow> segment list" where
  "readable c = filter (\<lambda>s. \<not> seg_write s) (segments c)"

definition writable :: "desc_chain \<Rightarrow> segment list" where
  "writable c = filter seg_write (segments c)"

definition writable_len :: "desc_chain \<Rightarrow> u32" where
  "writable_len c = sum_list (map seg_len (writable c))"

record queue =
  q_size :: u16
  q_desc :: u64
  q_avail :: u64
  q_used :: u64
  event_idx :: bool
  indirect :: bool
  next_avail :: u16
  next_used :: u16

definition queue_default :: queue where
  "queue_default = \<lparr>q_size = 0, q_desc = 0, q_avail = 0, q_used = 0,
     event_idx = False, indirect = False, next_avail = 0, next_used = 0\<rparr>"

definition VIRTQ_DESC_F_NEXT :: u16 where
  "VIRTQ_DESC_F_NEXT = 0x1"

definition VIRTQ_DESC_F_WRITE :: u16 where
  "VIRTQ_DESC_F_WRITE = 0x2"

definition VIRTQ_DESC_F_INDIRECT :: u16 where
  "VIRTQ_DESC_F_INDIRECT = 0x4"

definition DESC_SIZE :: u64 where
  "DESC_SIZE = 16"

lemmas desc_flags [eval_simps] =
  VIRTQ_DESC_F_NEXT_def VIRTQ_DESC_F_WRITE_def VIRTQ_DESC_F_INDIRECT_def DESC_SIZE_def

subsection \<open>Reading the rings\<close>

definition max_chain :: "queue \<Rightarrow> u32" where
  "max_chain q = ucast (q_size q)"

definition max_indirect :: "queue \<Rightarrow> u16" where
  "max_indirect q = max (sat_mul (q_size q) 4) 256"

definition avail_idx :: "queue \<Rightarrow> guest_memory \<Rightarrow> guest_mem_error + u16" where
  "avail_idx q m = read_u16 m (q_avail q + 2)"

definition avail_ring :: "queue \<Rightarrow> guest_memory \<Rightarrow> u16 \<Rightarrow> fault + u16" where
  "avail_ring q m i =
     (if q_size q = 0 then Inl Panic
      else (case read_u16 m (q_avail q + (4 + 2 * ucast (i mod q_size q))) of
              Inl e \<Rightarrow> Inl (MemFault e)
            | Inr v \<Rightarrow> Inr v))"

definition read_desc ::
  "guest_memory \<Rightarrow> u64 \<Rightarrow> u16 \<Rightarrow> guest_mem_error + (u64 \<times> u32 \<times> u16 \<times> u16)" where
  "read_desc m table index =
     (let base = table + DESC_SIZE * ucast index
      in case read_u64 m base of Inl e \<Rightarrow> Inl e | Inr addr \<Rightarrow>
        (case read_u32 m (base + 8) of Inl e \<Rightarrow> Inl e | Inr len \<Rightarrow>
          (case read_u16 m (base + 12) of Inl e \<Rightarrow> Inl e | Inr flags \<Rightarrow>
            (case read_u16 m (base + 14) of Inl e \<Rightarrow> Inl e | Inr nxt \<Rightarrow>
              Inr (addr, len, flags, nxt)))))"

definition seg_of :: "u64 \<Rightarrow> u32 \<Rightarrow> u16 \<Rightarrow> segment" where
  "seg_of addr len flags =
     \<lparr>seg_gpa = addr, seg_len = len, seg_write = (flags AND VIRTQ_DESC_F_WRITE \<noteq> 0)\<rparr>"

subsection \<open>Walking descriptor chains\<close>

partial_function (option) expand_loop ::
  "guest_memory \<Rightarrow> queue \<Rightarrow> u64 \<Rightarrow> u16 \<Rightarrow> u16 \<Rightarrow> u16 \<Rightarrow> segment list \<Rightarrow> (fault + segment list) option"
where
  "expand_loop m q table cnt index steps segs =
     (if cnt \<le> index \<or> max_indirect q < steps then Some (Inr segs)
      else (case read_desc m table index of
              Inl e \<Rightarrow> Some (Inl (MemFault e))
            | Inr (addr, dlen, flags, nxt) \<Rightarrow>
                (if flags AND VIRTQ_DESC_F_NEXT = 0
                 then Some (Inr (segs @ [seg_of addr dlen flags]))
                 else expand_loop m q table cnt nxt (steps + 1) (segs @ [seg_of addr dlen flags]))))"

definition expand_indirect ::
  "guest_memory \<Rightarrow> queue \<Rightarrow> u64 \<Rightarrow> u32 \<Rightarrow> segment list \<Rightarrow> (fault + segment list) option" where
  "expand_indirect m q table len segs =
     expand_loop m q table (ucast ((ucast len :: u64) div DESC_SIZE)) 0 0 segs"

definition desc_segs ::
  "guest_memory \<Rightarrow> queue \<Rightarrow> u64 \<Rightarrow> u32 \<Rightarrow> u16 \<Rightarrow> segment list \<Rightarrow> (fault + segment list) option"
where
  "desc_segs m q addr len flags segs =
     (if flags AND VIRTQ_DESC_F_INDIRECT \<noteq> 0 then expand_indirect m q addr len segs
      else Some (Inr (segs @ [seg_of addr len flags])))"

partial_function (option) collect_loop ::
  "guest_memory \<Rightarrow> queue \<Rightarrow> u16 \<Rightarrow> u32 \<Rightarrow> segment list \<Rightarrow> (fault + segment list) option"
where
  "collect_loop m q index steps segs =
     (if q_size q \<le> index \<or> max_chain q < steps then Some (Inr segs)
      else (case read_desc m (q_desc q) index of
              Inl e \<Rightarrow> Some (Inl (MemFault e))
            | Inr (addr, len, flags, nxt) \<Rightarrow>
                (case desc_segs m q addr len flags segs of
                   None \<Rightarrow> None
                 | Some (Inl e) \<Rightarrow> Some (Inl e)
                 | Some (Inr segs') \<Rightarrow>
                     (if flags AND VIRTQ_DESC_F_NEXT = 0 then Some (Inr segs')
                      else collect_loop m q nxt (steps + 1) segs'))))"

definition collect_chain :: "guest_memory \<Rightarrow> queue \<Rightarrow> u16 \<Rightarrow> (fault + segment list) option" where
  "collect_chain m q hd_idx = collect_loop m q hd_idx 0 []"

definition pop :: "queue \<Rightarrow> guest_memory \<Rightarrow> (fault + (desc_chain \<times> queue) option) option" where
  "pop q m =
     (case avail_idx q m of
        Inl e \<Rightarrow> Some (Inl (MemFault e))
      | Inr idx \<Rightarrow>
          (if next_avail q = idx then Some (Inr None)
           else (case avail_ring q m (next_avail q) of
                   Inl e \<Rightarrow> Some (Inl e)
                 | Inr hd_idx \<Rightarrow>
                     (case collect_chain m q hd_idx of
                        None \<Rightarrow> None
                      | Some (Inl e) \<Rightarrow> Some (Inl e)
                      | Some (Inr segs) \<Rightarrow>
                          Some (Inr (Some (\<lparr>head = hd_idx, segments = segs\<rparr>,
                                           q\<lparr>next_avail := next_avail q + 1\<rparr>)))))))"

subsection \<open>Publishing completions and notification suppression\<close>

text \<open>
  The three stores are in source order; an error leaves the stores made so far, and the
  cursor is already advanced when the index store fails.
\<close>

definition add_used ::
  "queue \<Rightarrow> guest_memory \<Rightarrow> u16 \<Rightarrow> u32 \<Rightarrow> (fault + unit) \<times> queue \<times> guest_memory" where
  "add_used q m hd_idx len =
     (if q_size q = 0 then (Inl Panic, q, m)
      else
        let elem = q_used q + 4 + 8 * ucast (next_used q mod q_size q)
        in case write_u32 m elem (ucast hd_idx) of
             Inl e \<Rightarrow> (Inl (MemFault e), q, m)
           | Inr m1 \<Rightarrow>
               (case write_u32 m1 (elem + 4) len of
                  Inl e \<Rightarrow> (Inl (MemFault e), q, m1)
                | Inr m2 \<Rightarrow>
                    let q' = q\<lparr>next_used := next_used q + 1\<rparr>
                    in case write_u16 m2 (q_used q + 2) (next_used q') of
                         Inl e \<Rightarrow> (Inl (MemFault e), q', m2)
                       | Inr m3 \<Rightarrow> (Inr (), q', m3)))"

definition needs_interrupt ::
  "queue \<Rightarrow> guest_memory \<Rightarrow> u16 \<Rightarrow> u16 \<Rightarrow> guest_mem_error + bool" where
  "needs_interrupt q m old_used new_used =
     (if event_idx q
      then (case read_u16 m (q_avail q + 4 + 2 * ucast (q_size q)) of
              Inl e \<Rightarrow> Inl e
            | Inr used_event \<Rightarrow> Inr (new_used - used_event - 1 < new_used - old_used))
      else (case read_u16 m (q_avail q) of
              Inl e \<Rightarrow> Inl e
            | Inr flags \<Rightarrow> Inr (flags AND 1 = 0)))"

definition arm_notification :: "queue \<Rightarrow> guest_memory \<Rightarrow> guest_mem_error + guest_memory" where
  "arm_notification q m =
     (if event_idx q
      then write_u16 m (q_used q + 4 + 8 * ucast (q_size q)) (next_avail q)
      else (case read_u16 m (q_used q) of
              Inl e \<Rightarrow> Inl e
            | Inr flags \<Rightarrow> write_u16 m (q_used q) (flags AND NOT 1)))"

definition has_pending :: "queue \<Rightarrow> guest_memory \<Rightarrow> guest_mem_error + bool" where
  "has_pending q m =
     (case avail_idx q m of Inl e \<Rightarrow> Inl e | Inr idx \<Rightarrow> Inr (next_avail q \<noteq> idx))"

definition restore :: "queue \<Rightarrow> guest_memory \<Rightarrow> guest_mem_error + queue" where
  "restore q m =
     (case read_u16 m (q_used q + 2) of
        Inl e \<Rightarrow> Inl e
      | Inr v \<Rightarrow> Inr (q\<lparr>next_used := v, next_avail := v\<rparr>))"

definition avail_idx_value :: "queue \<Rightarrow> guest_memory \<Rightarrow> guest_mem_error + u16" where
  "avail_idx_value q m = avail_idx q m"

definition used_idx_value :: "queue \<Rightarrow> guest_memory \<Rightarrow> guest_mem_error + u16" where
  "used_idx_value q m = read_u16 m (q_used q + 2)"

definition vring_need_event :: "u16 \<Rightarrow> u16 \<Rightarrow> u16 \<Rightarrow> bool" where
  "vring_need_event event new old \<longleftrightarrow> new - event - 1 < new - old"

lemma vring_need_event_iff: "vring_need_event event new old \<longleftrightarrow> event - old < new - old"
proof -
  have "new - event - 1 = (new - old) - (event - old) - 1" by (simp add: algebra_simps)
  then show ?thesis unfolding vring_need_event_def by (simp only: word_window_iff)
qed

definition ind_left :: "queue \<Rightarrow> u16 \<Rightarrow> nat" where
  "ind_left q steps = Suc (unat (max_indirect q)) - unat steps"

lemma expand_loop_returns:
  assumes "max_indirect q < - 1"
  shows "\<exists>r. expand_loop m q table cnt index steps segs = Some r \<and>
    (\<forall>segs'. r = Inr segs' \<longrightarrow> length segs' \<le> length segs + ind_left q steps)"
proof (induction "ind_left q steps" arbitrary: index steps segs rule: less_induct)
  case less
  show ?case
  proof (cases "cnt \<le> index \<or> max_indirect q < steps")
    case True
    then show ?thesis by (subst expand_loop.simps) simp
  next
    case False
    then have le: "steps \<le> max_indirect q" by (simp add: not_less)
    then have "steps < - 1" using assms by (rule order_le_less_trans)
    then have s: "unat (steps + 1) = Suc (unat steps)" by (rule word_Suc_unat)
    from le have "unat steps \<le> unat (max_indirect q)" by (simp add: word_le_nat_alt)
    with s have dec: "ind_left q steps = Suc (ind_left q (steps + 1))" by (simp add: ind_left_def)
    then have "ind_left q (steps + 1) < ind_left q steps" by simp
    note ih = less [OF this]
    show ?thesis
    proof (cases "read_desc m table index")
      case (Inl e)
      with False show ?thesis by (subst expand_loop.simps) simp
    next
      case (Inr d)
      obtain addr dlen flags nxt where d: "d = (addr, dlen, flags, nxt)" by (cases d)
      from ih [of nxt "segs @ [seg_of addr dlen flags]"] show ?thesis
        using False Inr d dec by (subst expand_loop.simps) auto
    qed
  qed
qed

lemma max_indirect_lt: "unat (q_size q) < 16384 \<Longrightarrow> max_indirect q < - 1"
  by (auto simp: max_indirect_def word_less_nat_alt unat_sat_mul max_def unat_minus_1)

definition seg_bound :: "queue \<Rightarrow> nat" where
  "seg_bound q = Suc (unat (max_indirect q))"


lemma desc_segs_returns:
  assumes "max_indirect q < - 1"
  shows "\<exists>r. desc_segs m q addr len flags segs = Some r \<and>
    (\<forall>segs'. r = Inr segs' \<longrightarrow> length segs' \<le> length segs + seg_bound q)"
  using expand_loop_returns [OF assms, of m addr "ucast ((ucast len :: u64) div DESC_SIZE)" 0 0 segs]
  by (auto simp: desc_segs_def expand_indirect_def seg_bound_def ind_left_def)

lemma collect_loop_next:
  assumes "index < q_size q" "steps \<le> max_chain q"
    "read_desc m (q_desc q) index = Inr (addr, len, flags, nxt)"
    "desc_segs m q addr len flags segs = Some (Inr segs')"
  shows "collect_loop m q index steps segs =
    (if flags AND VIRTQ_DESC_F_NEXT = 0 then Some (Inr segs') else collect_loop m q nxt (steps + 1) segs')"
proof -
  have "\<not> (q_size q \<le> index \<or> max_chain q < steps)" using assms(1,2) by (simp add: not_le not_less)
  with assms(3,4) show ?thesis by (subst collect_loop.simps) simp
qed

lemma collect_loop_returns:
  assumes "max_indirect q < - 1"
  shows "\<exists>r. collect_loop m q index steps segs = Some r \<and>
    (\<forall>segs'. r = Inr segs' \<longrightarrow>
       length segs' \<le> length segs + (Suc (unat (q_size q)) - unat steps) * seg_bound q)"
proof (induction "Suc (unat (q_size q)) - unat steps" arbitrary: index steps segs rule: less_induct)
  case less
  show ?case
  proof (cases "q_size q \<le> index \<or> max_chain q < steps")
    case True
    then show ?thesis by (subst collect_loop.simps) simp
  next
    case False
    then have i: "index < q_size q" "steps \<le> max_chain q" by (simp_all add: not_le not_less)
    have mc: "unat (max_chain q) = unat (q_size q)" by (simp add: max_chain_def unat_ucast_up)
    have "unat (q_size q) < 2 ^ 16" using unsigned_less [of "q_size q"] by simp
    with i mc have le: "unat steps \<le> unat (q_size q)" "steps < - 1"
      by (auto simp: word_less_nat_alt word_le_nat_alt unat_minus_1)
    then have s: "unat (steps + 1) = Suc (unat steps)" by (intro word_Suc_unat)
    let ?n = "Suc (unat (q_size q)) - unat (steps + 1)"
    from le s have dec: "Suc (unat (q_size q)) - unat steps = Suc ?n" by simp
    then have "?n < Suc (unat (q_size q)) - unat steps" by simp
    note ih = less [OF this]
    show ?thesis
    proof (cases "read_desc m (q_desc q) index")
      case (Inl e)
      with False show ?thesis by (subst collect_loop.simps) simp
    next
      case rd: (Inr d)
      obtain addr len flags nxt where d: "d = (addr, len, flags, nxt)" by (cases d)
      from desc_segs_returns [OF assms] obtain r where r: "desc_segs m q addr len flags segs = Some r"
        "\<And>segs'. r = Inr segs' \<Longrightarrow> length segs' \<le> length segs + seg_bound q" by blast
      show ?thesis
      proof (cases r)
        case (Inl e)
        with False rd d r(1) show ?thesis by (subst collect_loop.simps) simp
      next
        case (Inr segs1)
        note step = collect_loop_next [OF i rd [unfolded d] r(1) [unfolded Inr]]
        have "length segs1 \<le> length segs + seg_bound q" using r(2) Inr by simp
        then have b: "length segs1 + ?n * seg_bound q \<le> length segs + Suc ?n * seg_bound q" by simp
        show ?thesis
          using ih [of nxt segs1] b unfolding step dec by (fastforce simp del: mult_Suc intro: order_trans)
      qed
    qed
  qed
qed

text \<open>divergence\<close>

lemma expand_loop_selflink_None:
  assumes "max_indirect q = - 1" "0 < cnt" "read_desc m table 0 = Inr (addr, dlen, flags, 0)"
    "flags AND VIRTQ_DESC_F_NEXT \<noteq> 0"
  shows "expand_loop m q table cnt 0 steps segs = None"
proof (rule ccontr)
  assume "expand_loop m q table cnt 0 steps segs \<noteq> None"
  then obtain y where y: "expand_loop m q table cnt 0 steps segs = Some y" by blast
  let ?P = "\<lambda>m (q::queue) table (cnt::u16) (index::u16) (steps::u16) (segs::segment list) (y::fault + segment list).
    max_indirect q = - 1 \<and> 0 < cnt \<and> read_desc m table 0 = Inr (addr, dlen, flags, 0) \<longrightarrow> index \<noteq> 0"
  have "?P m q table cnt 0 steps segs y"
  proof (rule expand_loop.raw_induct [where P = ?P, OF _ y], intro impI notI, elim conjE, goal_cases)
    case (1 loop m q table cnt index steps segs y)
    then have "\<not> (cnt \<le> index \<or> max_indirect q < steps)" by (simp add: not_le not_less)
    with 1 assms(4) have "loop m q table cnt 0 (steps + 1) (segs @ [seg_of addr dlen flags]) = Some y"
      by simp
    from 1(1) [OF this] 1 show False by simp
  qed
  with assms show False by blast
qed

subsection \<open>path\<close>

fun table_path :: "guest_memory \<Rightarrow> u64 \<Rightarrow> u16 \<Rightarrow> u16 list \<Rightarrow> segment list option" where
  "table_path m table cnt [] = None"
| "table_path m table cnt (i # is) =
     (if cnt \<le> i then None
      else (case read_desc m table i of
              Inl e \<Rightarrow> None
            | Inr (addr, len, flags, nxt) \<Rightarrow>
                (if flags AND VIRTQ_DESC_F_NEXT = 0
                 then (if is = [] then Some [seg_of addr len flags] else None)
                 else (case is of
                         [] \<Rightarrow> None
                       | j # js \<Rightarrow> if j = nxt then map_option ((#) (seg_of addr len flags)) (table_path m table cnt is)
                                 else None))))"

lemma expand_loop_path:
  assumes "table_path m table cnt (i # is) = Some segs"
    "unat steps + length is \<le> unat (max_indirect q)"
  shows "expand_loop m q table cnt i steps acc = Some (Inr (acc @ segs))"
  using assms
proof (induction "is" arbitrary: i steps acc segs)
  case Nil
  then have "\<not> (cnt \<le> i \<or> max_indirect q < steps)"
    by (auto simp: word_less_nat_alt split: if_splits)
  with Nil show ?case
    by (subst expand_loop.simps) (auto split: if_splits sum.splits)
next
  case (Cons j js)
  from Cons.prems(2) have st: "unat steps < unat (max_indirect q)" by simp
  then have g: "\<not> (cnt \<le> i \<or> max_indirect q < steps)"
    using Cons.prems(1) by (auto simp: word_less_nat_alt split: if_splits)
  from Cons.prems(1) obtain addr len flags segs1 where
    r: "read_desc m table i = Inr (addr, len, flags, j)" "flags AND VIRTQ_DESC_F_NEXT \<noteq> 0"
    "table_path m table cnt (j # js) = Some segs1" "segs = seg_of addr len flags # segs1"
    by (auto split: if_splits sum.splits simp del: table_path.simps(2) simp: table_path.simps(2) [of m table cnt i "j # js"])
  have "unat (steps + 1) = Suc (unat steps)" using st by (intro word_Suc_unat) (simp add: word_less_nat_alt)
  with Cons.prems(2) have "unat (steps + 1) + length js \<le> unat (max_indirect q)" by simp
  from Cons.IH [OF r(3) this, of "acc @ [seg_of addr len flags]"] g r show ?case
    by (subst expand_loop.simps) simp
qed

text \<open>
  A driver's chain as the list of table indices it links, each with the indices linked in its
  indirect table (empty for a plain descriptor), together with the buffers it describes.
\<close>

definition desc_path :: "guest_memory \<Rightarrow> u64 \<Rightarrow> u32 \<Rightarrow> u16 \<Rightarrow> u16 list \<Rightarrow> segment list option" where
  "desc_path m addr len flags ind =
     (if flags AND VIRTQ_DESC_F_INDIRECT = 0 then Some [seg_of addr len flags]
      else if ind \<noteq> [] \<and> hd ind = 0
      then table_path m addr (ucast ((ucast len :: u64) div DESC_SIZE)) ind
      else None)"

fun chain_path :: "guest_memory \<Rightarrow> queue \<Rightarrow> (u16 \<times> u16 list) list \<Rightarrow> segment list option" where
  "chain_path m q [] = None"
| "chain_path m q ((i, ind) # is) =
     (if q_size q \<le> i then None
      else (case read_desc m (q_desc q) i of
              Inl e \<Rightarrow> None
            | Inr (addr, len, flags, nxt) \<Rightarrow>
                (case desc_path m addr len flags ind of
                   None \<Rightarrow> None
                 | Some segs \<Rightarrow>
                     (if flags AND VIRTQ_DESC_F_NEXT = 0 then (if is = [] then Some segs else None)
                      else if is \<noteq> [] \<and> fst (hd is) = nxt
                      then map_option ((@) segs) (chain_path m q is) else None))))"

definition ind_short :: "queue \<Rightarrow> (u16 \<times> u16 list) list \<Rightarrow> bool" where
  "ind_short q path \<longleftrightarrow> (\<forall>(i, ind) \<in> set path. length ind \<le> unat (max_indirect q))"

lemma chain_path_ConsE:
  assumes "chain_path m q ((i, ind) # is) = Some segs"
  obtains addr len flags nxt segs0 where "i < q_size q"
    "read_desc m (q_desc q) i = Inr (addr, len, flags, nxt)" "desc_path m addr len flags ind = Some segs0"
    "flags AND VIRTQ_DESC_F_NEXT = 0" "is = []" "segs = segs0"
  | addr len flags segs0 j ind' js segs1 where "i < q_size q"
    "read_desc m (q_desc q) i = Inr (addr, len, flags, j)" "desc_path m addr len flags ind = Some segs0"
    "flags AND VIRTQ_DESC_F_NEXT \<noteq> 0" "is = (j, ind') # js" "chain_path m q is = Some segs1"
    "segs = segs0 @ segs1"
proof (cases "is")
  case Nil
  with assms show ?thesis using that(1)
    by (simp add: not_le split: if_split_asm sum.split_asm option.split_asm prod.split_asm)
next
  case (Cons p js)
  with assms show ?thesis using that(2) [where j = "fst p" and ind' = "snd p" and js = js]
    by (auto simp add: not_le simp del: chain_path.simps
        simp: chain_path.simps(2) [of m q i ind "p # js"]
        split: if_split_asm sum.split_asm option.split_asm prod.split_asm)
qed

lemma desc_segs_path:
  assumes "desc_path m addr len flags ind = Some segs" "length ind \<le> unat (max_indirect q)"
  shows "desc_segs m q addr len flags acc = Some (Inr (acc @ segs))"
proof (cases "flags AND VIRTQ_DESC_F_INDIRECT = 0")
  case False
  with assms(1) obtain "is" where i: "ind = 0 # is" by (cases ind) (auto simp: desc_path_def split: if_splits)
  with assms(2) have "unat (0::u16) + length is \<le> unat (max_indirect q)" by simp
  with False assms(1) i show ?thesis
    by (simp add: desc_segs_def desc_path_def expand_indirect_def expand_loop_path del: table_path.simps)
qed (use assms in \<open>simp add: desc_segs_def desc_path_def\<close>)

lemma unat_max_chain: "unat (max_chain q) = unat (q_size q)"
  by (simp add: max_chain_def unat_ucast_up)

lemma collect_loop_path:
  assumes "chain_path m q ((i, ind) # is) = Some segs" "ind_short q ((i, ind) # is)"
    "unat steps + length is \<le> unat (q_size q)"
  shows "collect_loop m q i steps acc = Some (Inr (acc @ segs))"
  using assms
proof (induction "is" arbitrary: i ind steps acc segs)
  case Nil
  have st: "steps \<le> max_chain q" and l: "length ind \<le> unat (max_indirect q)"
    using Nil(2,3) by (simp_all add: word_le_nat_alt unat_max_chain ind_short_def)
  from Nil(1) show ?case
    by (rule chain_path_ConsE) (simp_all add: collect_loop_next [OF _ st _ desc_segs_path [OF _ l]])
next
  case (Cons p js)
  have st: "steps < max_chain q" "steps \<le> max_chain q" and l: "length ind \<le> unat (max_indirect q)"
    and s: "ind_short q (p # js)"
    using Cons.prems(2,3) by (simp_all add: word_le_nat_alt word_less_nat_alt unat_max_chain ind_short_def)
  have n: "unat (steps + 1) + length js \<le> unat (q_size q)"
    using Cons.prems(3) word_Suc_unat [OF st(1)] by simp
  from Cons.prems(1) show ?case
  proof (rule chain_path_ConsE)
    fix addr len flags segs0 j ind' js' segs1
    assume a: "i < q_size q" "read_desc m (q_desc q) i = Inr (addr, len, flags, j)"
      "desc_path m addr len flags ind = Some segs0" "flags AND VIRTQ_DESC_F_NEXT \<noteq> 0"
      "p # js = (j, ind') # js'" "chain_path m q (p # js) = Some segs1" "segs = segs0 @ segs1"
    then have "collect_loop m q j (steps + 1) (acc @ segs0) = Some (Inr ((acc @ segs0) @ segs1))"
      using s n by (intro Cons.IH) simp_all
    with collect_loop_next [OF a(1) st(2) a(2) desc_segs_path [OF a(3) l]] a(4,7) show ?thesis by simp
  qed simp
qed

lemma chain_path_bound: "chain_path m q path = Some segs \<Longrightarrow> set (map fst path) \<subseteq> {..<q_size q}"
proof (induction path arbitrary: segs)
  case (Cons p "is")
  obtain i ind where p: "p = (i, ind)" by (cases p)
  from Cons.prems [unfolded p] show ?case
    by (rule chain_path_ConsE) (use Cons.IH p in auto)
qed simp

lemma pop_chain:
  assumes "avail_idx q m = Inr idx" "idx \<noteq> next_avail q"
    "avail_ring q m (next_avail q) = Inr (fst (hd path))"
    "chain_path m q path = Some segs" "distinct (map fst path)" "ind_short q path"
  shows "pop q m = Some (Inr (Some (\<lparr>head = fst (hd path), segments = segs\<rparr>,
    q\<lparr>next_avail := next_avail q + 1\<rparr>)))"
proof -
  obtain i ind "is" where p: "path = (i, ind) # is" using assms(4) by (cases path) auto
  have "length (map fst path) \<le> unat (q_size q)"
    using distinct_word_length [OF chain_path_bound [OF assms(4)] assms(5)] .
  then have "collect_chain m q i = Some (Inr segs)"
    using collect_loop_path [of m q i ind "is" segs 0 "[]"] assms(4,6) p by (simp add: collect_chain_def)
  with assms(1-3) p show ?thesis by (simp add: pop_def)
qed

subsection \<open>The used ring\<close>

definition used_ring_fits :: "queue \<Rightarrow> bool" where
  "used_ring_fits q \<longleftrightarrow> q_size q \<noteq> 0 \<and> unat (q_used q) + 4 + 8 * unat (q_size q) < 2 ^ 64"

definition used_slot :: "queue \<Rightarrow> u16 \<Rightarrow> u64" where
  "used_slot q i = q_used q + 4 + 8 * ucast (i mod q_size q)"

definition used_elem :: "queue \<Rightarrow> guest_memory \<Rightarrow> u16 \<Rightarrow> (guest_mem_error + u32) \<times> (guest_mem_error + u32)" where
  "used_elem q m i = (read_u32 m (used_slot q i), read_u32 m (used_slot q i + 4))"

lemma unat_used_slot:
  assumes "used_ring_fits q"
  shows "unat (used_slot q i) = unat (q_used q) + 4 + 8 * (unat i mod unat (q_size q))"
    and "unat (used_slot q i + 4) = unat (q_used q) + 8 + 8 * (unat i mod unat (q_size q))"
    and "unat (q_used q + 2) = unat (q_used q) + 2"
    and "unat i mod unat (q_size q) < unat (q_size q)"
proof -
  have fits: "q_size q \<noteq> 0" "unat (q_used q) + 4 + 8 * unat (q_size q) < 2 ^ 64"
    using assms by (simp_all add: used_ring_fits_def)
  show lt: "unat i mod unat (q_size q) < unat (q_size q)"
    using fits(1) by (intro mod_less_divisor) (simp add: unat_gt_0)
  let ?k = "ucast (i mod q_size q) :: u64"
  have k: "unat ?k = unat i mod unat (q_size q)" by (simp add: unat_ucast_up unat_mod)
  have k8: "unat (8 * ?k) = 8 * (unat i mod unat (q_size q))"
    using unat_mult_no_wrap [of 8 ?k] k lt fits(2) by simp
  have u4: "unat (q_used q + 4) = unat (q_used q) + 4"
    using unat_add_no_wrap [of "q_used q" 4] fits(2) by simp
  show s: "unat (used_slot q i) = unat (q_used q) + 4 + 8 * (unat i mod unat (q_size q))"
    unfolding used_slot_def using unat_add_no_wrap [of "q_used q + 4" "8 * ?k"] u4 k8 lt fits(2) by simp
  show "unat (used_slot q i + 4) = unat (q_used q) + 8 + 8 * (unat i mod unat (q_size q))"
    using unat_add_no_wrap [of "used_slot q i" 4] s lt fits(2) by simp
  show "unat (q_used q + 2) = unat (q_used q) + 2"
    using unat_add_no_wrap [of "q_used q" 2] fits(2) by simp
qed

lemma add_used_InrE:
  assumes "add_used q m hd_idx len = (Inr (), q', m')"
  obtains m1 m2 where "write_u32 m (used_slot q (next_used q)) (ucast hd_idx) = Inr m1"
    "write_u32 m1 (used_slot q (next_used q) + 4) len = Inr m2"
    "write_u16 m2 (q_used q + 2) (next_used q + 1) = Inr m'"
    "q' = q\<lparr>next_used := next_used q + 1\<rparr>" "q_size q \<noteq> 0"
  using assms by (auto simp: add_used_def used_slot_def Let_def split: if_splits sum.splits)

lemma used_slot_cursor [simp]: "used_slot (q\<lparr>next_used := n\<rparr>) = used_slot q"
  by (simp add: used_slot_def fun_eq_iff)

lemma used_elem_cursor [simp]: "used_elem (q\<lparr>next_used := n\<rparr>) = used_elem q"
  by (simp add: used_elem_def fun_eq_iff)

lemma add_used_frame:
  assumes ok: "gm_ok m" and fits: "used_ring_fits q"
    and a: "add_used q m hd_idx len = (Inr (), q', m')"
    and d: "disjoint_ranges (used_slot q (next_used q)) 8 b n" "disjoint_ranges (q_used q + 2) 2 b n"
  shows "gm_read m' b n = gm_read m b n"
  using a
proof (rule add_used_InrE)
  fix m1 m2
  assume w: "write_u32 m (used_slot q (next_used q)) (ucast hd_idx) = Inr m1"
    "write_u32 m1 (used_slot q (next_used q) + 4) len = Inr m2"
    "write_u16 m2 (q_used q + 2) (next_used q + 1) = Inr m'"
  have ok1: "gm_ok m1" using ram32.put_ok [OF ok w(1)] .
  have ok2: "gm_ok m2" using ram32.put_ok [OF ok1 w(2)] .
  have d1: "disjoint_ranges (used_slot q (next_used q)) 4 b n"
    "disjoint_ranges (used_slot q (next_used q) + 4) 4 b n"
    using d(1) unat_used_slot(1,2,4) [OF fits, of "next_used q"] unat_used_slot(3) [OF fits] by (auto simp: disjoint_ranges_def)
  show ?thesis
    using ram32.rd_put_disjoint [OF ok w(1) d1(1)] ram32.rd_put_disjoint [OF ok1 w(2) d1(2)]
      ram16.rd_put_disjoint [OF ok2 w(3) d(2)] by simp
qed

lemma add_used_elem:
  assumes ok: "gm_ok m" and fits: "used_ring_fits q"
    and a: "add_used q m hd_idx len = (Inr (), q', m')"
  shows "gm_ok m'" "used_elem q m' (next_used q) = (Inr (ucast hd_idx), Inr len)"
    "used_idx_value q' m' = Inr (next_used q')" "q' = q\<lparr>next_used := next_used q + 1\<rparr>"
proof -
  obtain m1 m2 where w: "write_u32 m (used_slot q (next_used q)) (ucast hd_idx) = Inr m1"
    "write_u32 m1 (used_slot q (next_used q) + 4) len = Inr m2"
    "write_u16 m2 (q_used q + 2) (next_used q + 1) = Inr m'"
    and q': "q' = q\<lparr>next_used := next_used q + 1\<rparr>"
    using a by (rule add_used_InrE)
  have ok1: "gm_ok m1" using ram32.put_ok [OF ok w(1)] .
  have ok2: "gm_ok m2" using ram32.put_ok [OF ok1 w(2)] .
  show "gm_ok m'" using ram16.put_ok [OF ok2 w(3)] .
  note s = unat_used_slot(1,2,4) [OF fits, of "next_used q"] unat_used_slot(3) [OF fits]
  have d: "disjoint_ranges (used_slot q (next_used q) + 4) 4 (used_slot q (next_used q)) 4"
    "disjoint_ranges (q_used q + 2) 2 (used_slot q (next_used q)) 4"
    "disjoint_ranges (q_used q + 2) 2 (used_slot q (next_used q) + 4) 4"
    using s by (simp_all add: disjoint_ranges_def)
  have "read_u32 m' (used_slot q (next_used q)) = read_u32 m1 (used_slot q (next_used q))"
    using ram32.rd_put_disjoint [OF ok1 w(2) d(1)] ram16.rd_put_disjoint [OF ok2 w(3) d(2)]
    by (simp add: read_u32_def)
  moreover have "read_u32 m' (used_slot q (next_used q) + 4) = read_u32 m2 (used_slot q (next_used q) + 4)"
    using ram16.rd_put_disjoint [OF ok2 w(3) d(3)] by (simp add: read_u32_def)
  ultimately show "used_elem q m' (next_used q) = (Inr (ucast hd_idx), Inr len)"
    using ram32.get_put_same [OF ok w(1)] ram32.get_put_same [OF ok1 w(2)] by (simp add: used_elem_def)
  show "used_idx_value q' m' = Inr (next_used q')"
    using ram16.get_put_same [OF ok2 w(3)] by (simp add: used_idx_value_def q')
  show "q' = q\<lparr>next_used := next_used q + 1\<rparr>" by (rule q')
qed

lemma add_used_other:
  assumes ok: "gm_ok m" and fits: "used_ring_fits q"
    and a: "add_used q m hd_idx len = (Inr (), q', m')"
    and ne: "unat j mod unat (q_size q) \<noteq> unat (next_used q) mod unat (q_size q)"
  shows "used_elem q m' j = used_elem q m j"
proof -
  note s = unat_used_slot(1,2,4) [OF fits, of "next_used q"] unat_used_slot(3) [OF fits] unat_used_slot(1,2,4) [OF fits, of j] unat_used_slot(3) [OF fits]
  from ne have "unat j mod unat (q_size q) < unat (next_used q) mod unat (q_size q) \<or>
    unat (next_used q) mod unat (q_size q) < unat j mod unat (q_size q)" by linarith
  then have "disjoint_ranges (used_slot q (next_used q)) 8 (used_slot q j) 4"
    "disjoint_ranges (used_slot q (next_used q)) 8 (used_slot q j + 4) 4"
    "disjoint_ranges (q_used q + 2) 2 (used_slot q j) 4"
    "disjoint_ranges (q_used q + 2) 2 (used_slot q j + 4) 4"
    using s unfolding disjoint_ranges_def by linarith+
  then show ?thesis using add_used_frame [OF ok fits a]
    by (simp add: used_elem_def read_u32_def)
qed

lemma add_used_backed:
  assumes ok: "gm_ok m" and fits: "used_ring_fits q"
    and b: "gm_read m (q_used q) (4 + 8 * unat (q_size q)) = Inr bs"
  shows "\<exists>m'. add_used q m hd_idx len = (Inr (), q\<lparr>next_used := next_used q + 1\<rparr>, m')"
proof -
  note s = unat_used_slot(1,2,4) [OF fits, of "next_used q"] unat_used_slot(3) [OF fits]
  have r: "\<exists>cs. gm_read m (used_slot q (next_used q)) 4 = Inr cs"
    "\<exists>cs. gm_read m (used_slot q (next_used q) + 4) 4 = Inr cs"
    "\<exists>cs. gm_read m (q_used q + 2) 2 = Inr cs"
    using s by (intro gm_read_sub [OF ok b]; simp)+
  obtain m1 where w1: "write_u32 m (used_slot q (next_used q)) (ucast hd_idx) = Inr m1"
    using ram32.put_if_rd [OF ok] r(1) by blast
  have ok1: "gm_ok m1" using ram32.put_ok [OF ok w1] .
  obtain m2 where w2: "write_u32 m1 (used_slot q (next_used q) + 4) len = Inr m2"
    using ram32.put_if_rd [OF ok1] ram32.rd_put_backed [OF ok w1] r(2) by blast
  have ok2: "gm_ok m2" using ram32.put_ok [OF ok1 w2] .
  obtain m3 where w3: "write_u16 m2 (q_used q + 2) (next_used q + 1) = Inr m3"
    using ram16.put_if_rd [OF ok2] r(3)
      ram32.rd_put_backed [OF ok1 w2, THEN iffD2] ram32.rd_put_backed [OF ok w1, THEN iffD2] by metis
  have "q_size q \<noteq> 0" using fits by (simp add: used_ring_fits_def)
  with w1 w2 w3 show ?thesis by (simp add: add_used_def used_slot_def)
qed


subsection \<open>notify\<close>

definition driver_kicks :: "queue \<Rightarrow> guest_memory \<Rightarrow> u16 \<Rightarrow> u16 \<Rightarrow> guest_mem_error + bool" where
  "driver_kicks q m old new =
     (if event_idx q
      then (case read_u16 m (q_used q + 4 + 8 * ucast (q_size q)) of
              Inl e \<Rightarrow> Inl e
            | Inr avail_event \<Rightarrow> Inr (vring_need_event avail_event new old))
      else (case read_u16 m (q_used q) of
              Inl e \<Rightarrow> Inl e
            | Inr flags \<Rightarrow> Inr (flags AND 1 = 0)))"

lemma arm_notification_kick:
  assumes "gm_ok m" "arm_notification q m = Inr m'"
  shows "driver_kicks q m' old new = Inr (event_idx q \<longrightarrow> next_avail q - old < new - old)"
proof (cases "event_idx q")
  case True
  with assms have "write_u16 m (q_used q + 4 + 8 * ucast (q_size q)) (next_avail q) = Inr m'"
    by (simp add: arm_notification_def)
  from ram16.get_put_same [OF assms(1) this] True show ?thesis
    by (simp add: driver_kicks_def vring_need_event_iff)
next
  case False
  with assms obtain flags where "write_u16 m (q_used q) (flags AND NOT 1) = Inr m'"
    by (auto simp: arm_notification_def split: sum.splits)
  from ram16.get_put_same [OF assms(1) this] False show ?thesis
    by (simp add: driver_kicks_def and.assoc)
qed

text \<open>A concrete queue of two entries in one region: entry 0 links entry 1.\<close>

definition demo_queue :: queue where
  "demo_queue = \<lparr>q_size = 2, q_desc = 0x1000, q_avail = 0x1020, q_used = 0x1030,
     event_idx = True, indirect = True, next_avail = 0, next_used = 0\<rparr>"

definition demo_mem :: guest_memory where
  "demo_mem = [\<lparr>r_gpa = 0x1000, r_bytes =
     [0x00, 0x20, 0, 0, 0, 0, 0, 0, 16, 0, 0, 0, 1, 0, 1, 0,
      0x00, 0x30, 0, 0, 0, 0, 0, 0, 32, 0, 0, 0, 2, 0, 0, 0,
      0, 0, 1, 0, 0, 0, 0, 0, 0, 0, 0, 0, 0, 0, 0, 0,
      0, 0, 0, 0, 0, 0, 0, 0, 0, 0, 0, 0, 0, 0, 0, 0,
      0, 0, 0, 0, 0, 0, 0, 0]\<rparr>]"

lemma demo_ok: "gm_ok demo_mem" "used_ring_fits demo_queue"
  by (simp_all add: gm_ok_def demo_mem_def used_ring_fits_def demo_queue_def)

lemmas demo_simps = demo_mem_def demo_queue_def eval_simps

subsection \<open>Properties\<close>

text \<open>
  C1. Popping delivers what the driver queued: when an entry is available and the descriptors it
  links, indirect tables included, form a chain without a repeated index, \<^verbatim>\<open>pop\<close> returns the head
  the driver put in the next ring slot with every buffer of the chain in order, and advances
  the cursor by one.
\<close>

theorem pop_delivers_chain:
  assumes "avail_idx q m = Inr idx" "idx \<noteq> next_avail q"
    "avail_ring q m (next_avail q) = Inr (fst (hd path))"
    "chain_path m q path = Some segs" "distinct (map fst path)" "ind_short q path"
  shows "pop q m = Some (Inr (Some (\<lparr>head = fst (hd path), segments = segs\<rparr>,
    q\<lparr>next_avail := next_avail q + 1\<rparr>)))"
  using assms by (rule pop_chain)

theorem pop_delivers_chain_witness:
  "pop demo_queue demo_mem = Some (Inr (Some
     (\<lparr>head = 0, segments = [\<lparr>seg_gpa = 0x2000, seg_len = 16, seg_write = False\<rparr>,
                            \<lparr>seg_gpa = 0x3000, seg_len = 32, seg_write = True\<rparr>]\<rparr>,
      demo_queue\<lparr>next_avail := 1\<rparr>)))"
proof -
  have "avail_idx demo_queue demo_mem = Inr 1" by (simp add: demo_simps avail_idx_def)
  moreover have "avail_ring demo_queue demo_mem 0 = Inr 0" by (simp add: demo_simps avail_ring_def)
  moreover have "chain_path demo_mem demo_queue [(0, []), (1, [])] =
    Some [\<lparr>seg_gpa = 0x2000, seg_len = 16, seg_write = False\<rparr>,
          \<lparr>seg_gpa = 0x3000, seg_len = 32, seg_write = True\<rparr>]"
    by (simp add: demo_simps desc_path_def read_desc_def seg_of_def word_le_nat_alt)
  ultimately show ?thesis
    using pop_delivers_chain [of demo_queue demo_mem 1 "[(0, []), (1, [])]"]
    by (simp add: ind_short_def demo_queue_def)
qed

text \<open>
  C4. A guest cannot make the device spin: for every queue of fewer than 16384 entries and every
  content of guest memory, \<^verbatim>\<open>pop\<close> returns, and a chain it returns has at most
  \<open>(size + 1) * (max_indirect + 1)\<close> buffers.
\<close>

theorem pop_returns:
  assumes "unat (q_size q) < 16384"
  shows "\<exists>r. pop q m = Some r \<and> (\<forall>c q'. r = Inr (Some (c, q')) \<longrightarrow>
    length (segments c) \<le> Suc (unat (q_size q)) * Suc (unat (max_indirect q)))"
proof -
  have c: "\<exists>r. collect_chain m q h = Some r \<and> (\<forall>segs. r = Inr segs \<longrightarrow>
    length segs \<le> Suc (unat (q_size q)) * Suc (unat (max_indirect q)))" for h
    using collect_loop_returns [OF max_indirect_lt [OF assms], of m h 0 "[]"]
    by (simp add: collect_chain_def seg_bound_def)
  show ?thesis
  proof (cases "\<exists>idx h. avail_idx q m = Inr idx \<and> next_avail q \<noteq> idx \<and> avail_ring q m (next_avail q) = Inr h")
    case True
    then obtain idx h r where "avail_idx q m = Inr idx" "next_avail q \<noteq> idx"
      "avail_ring q m (next_avail q) = Inr h" "collect_chain m q h = Some r"
      and "\<And>segs. r = Inr segs \<Longrightarrow> length segs \<le> Suc (unat (q_size q)) * Suc (unat (max_indirect q))"
      using c by blast
    then show ?thesis by (cases r) (simp_all add: pop_def del: mult_Suc mult_Suc_right)
  next
    case False
    then show ?thesis
      by (cases "avail_idx q m"; cases "avail_ring q m (next_avail q)") (auto simp: pop_def)
  qed
qed

theorem pop_returns_witness: "\<exists>r. pop demo_queue demo_mem = Some r"
  using pop_returns [of demo_queue demo_mem] by (auto simp: demo_queue_def)

text \<open>
  The bound on the queue size under which popping always returns is sharp: from 16384 entries on the step limit saturates at the largest
  16-bit value, the step counter wraps below it, and an indirect table whose first descriptor
  links itself keeps the walk going for ever.
\<close>

theorem expand_indirect_diverges:
  assumes "16384 \<le> unat (q_size q)" "16 \<le> unat len" "unat len < 2 ^ 20"
    "read_desc m table 0 = Inr (addr, dlen, flags, 0)" "flags AND VIRTQ_DESC_F_NEXT \<noteq> 0"
  shows "expand_indirect m q table len segs = None"
proof -
  have "unat (sat_mul (q_size q) 4) = 65535" using assms(1) by (simp add: unat_sat_mul)
  then have "sat_mul (q_size q) 4 = - 1"
    by (simp add: word_unat_eq_iff unat_minus_1)
  then have "max_indirect q = - 1" by (simp add: max_indirect_def max_def word_le_nat_alt unat_minus_1)
  moreover have "0 < (ucast ((ucast len :: u64) div DESC_SIZE) :: u16)"
  proof -
    have "unat ((ucast len :: u64) div DESC_SIZE) = unat len div 16"
      by (simp add: unat_div DESC_SIZE_def unat_ucast_up)
    then have "unat (ucast ((ucast len :: u64) div DESC_SIZE) :: u16) = unat len div 16"
      using assms(3) by (simp add: unsigned_ucast_eq take_bit_nat_eq_self)
    with assms(2) have "0 < unat (ucast ((ucast len :: u64) div DESC_SIZE) :: u16)" by simp
    then show ?thesis by (simp add: word_less_nat_alt)
  qed
  ultimately show ?thesis
    unfolding expand_indirect_def using assms(4,5) by (intro expand_loop_selflink_None)
qed

theorem expand_indirect_diverges_witness:
  "expand_indirect [\<lparr>r_gpa = 0x1000, r_bytes = [0, 0, 0, 0, 0, 0, 0, 0, 0, 0, 0, 0, 1, 0, 0, 0]\<rparr>]
     (demo_queue\<lparr>q_size := 16384\<rparr>) 0x1000 16 [] = None"
  by (rule expand_indirect_diverges [where addr = 0 and dlen = 0 and flags = 1])
     (simp_all add: read_desc_def eval_simps)

text \<open>
  C2. Publishing a completion: with the used ring backed by guest memory \<^verbatim>\<open>add_used\<close> succeeds; the
  slot at the old cursor then holds the head and the length, the published index is the
  advanced cursor, every other slot of the ring and all memory outside the slot and the index
  are as before, and \<^verbatim>\<open>restore\<close> on the result recovers the cursor whatever the resumed engine
  started from.
\<close>

theorem add_used_publishes:
  assumes ok: "gm_ok m" and fits: "used_ring_fits q"
    and b: "gm_read m (q_used q) (4 + 8 * unat (q_size q)) = Inr bs"
  shows "\<exists>m'. add_used q m hd_idx len = (Inr (), q\<lparr>next_used := next_used q + 1\<rparr>, m') \<and>
    used_elem q m' (next_used q) = (Inr (ucast hd_idx), Inr len) \<and>
    used_idx_value q m' = Inr (next_used q + 1) \<and>
    (\<forall>j. unat j mod unat (q_size q) \<noteq> unat (next_used q) mod unat (q_size q) \<longrightarrow>
       used_elem q m' j = used_elem q m j) \<and>
    (\<forall>a n. disjoint_ranges (used_slot q (next_used q)) 8 a n \<longrightarrow> disjoint_ranges (q_used q + 2) 2 a n \<longrightarrow>
       gm_read m' a n = gm_read m a n) \<and>
    (\<forall>x y. restore (q\<lparr>next_used := x, next_avail := y\<rparr>) m' =
       Inr (q\<lparr>next_used := next_used q + 1, next_avail := next_used q + 1\<rparr>))"
proof -
  obtain m' where a: "add_used q m hd_idx len = (Inr (), q\<lparr>next_used := next_used q + 1\<rparr>, m')"
    using add_used_backed [OF ok fits b] by blast
  note e = add_used_elem [OF ok fits a]
  have "read_u16 m' (q_used q + 2) = Inr (next_used q + 1)" using e(3) by (simp add: used_idx_value_def)
  then show ?thesis
    using a e(2) add_used_other [OF ok fits a] add_used_frame [OF ok fits a]
    by (auto simp: restore_def used_idx_value_def)
qed

theorem add_used_publishes_witness:
  "\<exists>m'. add_used demo_queue demo_mem 0 32 = (Inr (), demo_queue\<lparr>next_used := 1\<rparr>, m') \<and>
     used_elem demo_queue m' 0 = (Inr 0, Inr 32) \<and> used_idx_value demo_queue m' = Inr 1"
proof -
  have "\<exists>bs. gm_read demo_mem (q_used demo_queue) (4 + 8 * unat (q_size demo_queue)) = Inr bs"
    by (simp add: demo_simps)
  then obtain bs where "gm_read demo_mem (q_used demo_queue) (4 + 8 * unat (q_size demo_queue)) = Inr bs" ..
  from add_used_publishes [OF demo_ok this, of 0 32] show ?thesis by (auto simp: demo_queue_def)
qed

text \<open>
  C5. The interrupt test of the event-index scheme is the window test: after publishing used
  indices from \<open>old_used\<close> up to \<open>new_used\<close>, with wrap-around, the guest is interrupted exactly
  when the index it asked about is one of those just published.
\<close>

theorem needs_interrupt_window:
  assumes "event_idx q" "read_u16 m (q_avail q + 4 + 2 * ucast (q_size q)) = Inr used_event"
  shows "needs_interrupt q m old_used new_used =
    Inr (\<exists>k < unat (new_used - old_used). used_event = old_used + of_nat k)"
  using assms vring_need_event_iff [of used_event new_used old_used]
  by (simp add: needs_interrupt_def in_window_iff vring_need_event_def)

theorem needs_interrupt_window_witness:
  "needs_interrupt demo_queue demo_mem 65535 1 = Inr True"
proof -
  have "read_u16 demo_mem (q_avail demo_queue + 4 + 2 * ucast (q_size demo_queue)) = Inr 0"
    by (simp add: demo_simps)
  moreover have "event_idx demo_queue" by (simp add: demo_queue_def)
  ultimately have "needs_interrupt demo_queue demo_mem 65535 1 =
    Inr (\<exists>k < unat (1 - 65535 :: u16). (0 :: u16) = 65535 + of_nat k)"
    by (intro needs_interrupt_window)
  moreover have "\<exists>k < unat (1 - 65535 :: u16). (0 :: u16) = 65535 + of_nat k"
    by (rule exI [of _ 1]) simp
  ultimately show ?thesis by simp
qed

text \<open>
  C6. No lost wake-up: once \<^verbatim>\<open>arm_notification\<close> has succeeded, a driver that moves its available
  index from \<open>old\<close> to \<open>new\<close> notifies the device whenever the entry the device will consume next
  is among those it exposes (and, under the event-index scheme, only then).
\<close>

theorem arm_notification_kicks:
  assumes "gm_ok m" "arm_notification q m = Inr m'"
  shows "driver_kicks q m' old new = Inr (event_idx q \<longrightarrow> next_avail q - old < new - old)"
  using assms by (rule arm_notification_kick)

theorem arm_notification_kicks_witness:
  "\<exists>m'. arm_notification demo_queue demo_mem = Inr m' \<and> driver_kicks demo_queue m' 0 1 = Inr True"
proof -
  have "\<exists>m'. arm_notification demo_queue demo_mem = Inr m'"
    by (simp add: demo_simps arm_notification_def)
  then obtain m' where m': "arm_notification demo_queue demo_mem = Inr m'" ..
  from arm_notification_kicks [OF demo_ok(1) this, of 0 1] m' show ?thesis by (simp add: demo_queue_def)
qed

end
