(* ===== verification/Host_File.thy ===== *)
theory Host_File
  imports Prelude
begin

text \<open>
  Host files as the sources use them through the standard library: positioned reads and writes
  of a byte array (\<^verbatim>\<open>FileExt::read_exact_at\<close>, \<^verbatim>\<open>FileExt::write_all_at\<close>, \<^verbatim>\<open>File::set_len\<close> and the
  flush). A file carries the list of faults the host will inject into its next operations, so
  that every I/O error path of the sources is reachable: \<open>Some k\<close> fails the operation after
  \<open>k\<close> bytes, \<open>None\<close> lets it run, and an exhausted list never fails.
\<close>

record hfile =
  f_bytes :: bytes
  f_faults :: "nat option list"

definition next_fault :: "hfile \<Rightarrow> nat option \<times> hfile" where
  "next_fault f = (case f_faults f of [] \<Rightarrow> (None, f) | x # xs \<Rightarrow> (x, f\<lparr>f_faults := xs\<rparr>))"

text \<open>A read past the end of the file fills what there is and then fails.\<close>

definition read_exact_at :: "hfile \<Rightarrow> u64 \<Rightarrow> bytes \<Rightarrow> bool \<times> bytes \<times> hfile" where
  "read_exact_at f off buf =
     (if buf = [] then (True, buf, f)
      else let avail = take (length buf) (drop (unat off) (f_bytes f));
               (flt, f') = next_fault f
           in case flt of
                Some k \<Rightarrow> (False, overwrite 0 (take k avail) buf, f')
              | None \<Rightarrow> (length avail = length buf, overwrite 0 avail buf, f'))"

text \<open>A write past the end fills the gap with zeroes; offsets from \<open>2 ^ 63\<close> on are refused.\<close>

definition extend_to :: "nat \<Rightarrow> bytes \<Rightarrow> bytes" where
  "extend_to n bs = bs @ replicate (n - length bs) 0"

definition put_at :: "nat \<Rightarrow> bytes \<Rightarrow> bytes \<Rightarrow> bytes" where
  "put_at off data bs =
     (if data = [] \<or> 2 ^ 63 \<le> off + length data then bs
      else overwrite off data (extend_to (off + length data) bs))"

definition write_all_at :: "hfile \<Rightarrow> u64 \<Rightarrow> bytes \<Rightarrow> bool \<times> hfile" where
  "write_all_at f off data =
     (if data = [] then (True, f)
      else let (flt, f') = next_fault f
           in case flt of
                Some k \<Rightarrow> (False, f'\<lparr>f_bytes := put_at (unat off) (take k data) (f_bytes f')\<rparr>)
              | None \<Rightarrow> (unat off + length data < 2 ^ 63,
                         f'\<lparr>f_bytes := put_at (unat off) data (f_bytes f')\<rparr>))"

definition set_len :: "hfile \<Rightarrow> u64 \<Rightarrow> bool \<times> hfile" where
  "set_len f n =
     (let (flt, f') = next_fault f
      in if flt = None then (True, f'\<lparr>f_bytes := extend_to (unat n) (take (unat n) (f_bytes f'))\<rparr>)
         else (False, f'))"

definition flush_to_host :: "hfile \<Rightarrow> bool \<times> hfile" where
  "flush_to_host f = (let (flt, f') = next_fault f in (flt = None, f'))"

lemmas file_eval [eval_simps] = next_fault_def read_exact_at_def extend_to_def put_at_def
  write_all_at_def set_len_def flush_to_host_def

subsection \<open>Fault-free files are byte arrays\<close>

lemma next_fault_bytes [simp]: "f_bytes (snd (next_fault f)) = f_bytes f"
  by (simp add: next_fault_def split: list.split)

lemma next_fault_none [simp]: "f_faults f = [] \<Longrightarrow> next_fault f = (None, f)"
  by (simp add: next_fault_def)

lemma read_exact_at_bytes [simp]: "f_bytes (snd (snd (read_exact_at f off buf))) = f_bytes f"
  by (simp add: read_exact_at_def Let_def split: option.split prod.split)
     (metis next_fault_bytes snd_conv)

lemma overwrite_all: "length xs = length ys \<Longrightarrow> overwrite 0 xs ys = xs"
  by (simp add: overwrite_def)

lemma read_exact_at_ok:
  assumes "f_faults f = []" "unat off + length buf \<le> length (f_bytes f)"
  shows "read_exact_at f off buf = (True, take (length buf) (drop (unat off) (f_bytes f)), f)"
proof -
  have "length (take (length buf) (drop (unat off) (f_bytes f))) = length buf"
    using assms(2) by simp
  with assms(1) show ?thesis by (auto simp: read_exact_at_def Let_def overwrite_all)
qed

lemma extend_to_id: "n \<le> length bs \<Longrightarrow> extend_to n bs = bs"
  by (simp add: extend_to_def)

lemma length_extend_to [simp]: "length (extend_to n bs) = max n (length bs)"
  by (simp add: extend_to_def)

lemma write_all_at_ok:
  assumes "f_faults f = []" "unat off + length data \<le> length (f_bytes f)" "length (f_bytes f) < 2 ^ 63"
  shows "write_all_at f off data = (True, f\<lparr>f_bytes := overwrite (unat off) data (f_bytes f)\<rparr>)"
  using assms by (auto simp: write_all_at_def Let_def put_at_def extend_to_id overwrite_def)

end
