(* ===== verification/Block.thy ===== *)
theory Block
  imports Virtqueue Host_File
begin

text \<open>
  The virtio-blk request processor and its two backends
  (\<^verbatim>\<open>src/hypervisor/src/hvf/virtio/block.rs\<close>). The trait \<^verbatim>\<open>BlockBackend\<close> is a record of operations
  over an arbitrary backend state, which the request processor takes as an argument; the locale
  \<open>block_backend\<close> states its contract, a flat disk, and is interpreted for the plain file and
  for the copy-on-write overlay.
\<close>

subsection \<open>The backend interface and the device\<close>

definition VIRTIO_BLK_T_IN :: u32 where "VIRTIO_BLK_T_IN = 0"
definition VIRTIO_BLK_T_OUT :: u32 where "VIRTIO_BLK_T_OUT = 1"
definition VIRTIO_BLK_T_FLUSH :: u32 where "VIRTIO_BLK_T_FLUSH = 4"
definition VIRTIO_BLK_T_GET_ID :: u32 where "VIRTIO_BLK_T_GET_ID = 8"
definition VIRTIO_BLK_T_DISCARD :: u32 where "VIRTIO_BLK_T_DISCARD = 11"
definition VIRTIO_BLK_T_WRITE_ZEROES :: u32 where "VIRTIO_BLK_T_WRITE_ZEROES = 13"

definition VIRTIO_BLK_S_OK :: u8 where "VIRTIO_BLK_S_OK = 0"
definition VIRTIO_BLK_S_IOERR :: u8 where "VIRTIO_BLK_S_IOERR = 1"
definition VIRTIO_BLK_S_UNSUPP :: u8 where "VIRTIO_BLK_S_UNSUPP = 2"

definition SECTOR_SIZE :: u64 where "SECTOR_SIZE = 512"

lemmas blk_consts [eval_simps] = VIRTIO_BLK_T_IN_def VIRTIO_BLK_T_OUT_def VIRTIO_BLK_T_FLUSH_def
  VIRTIO_BLK_T_GET_ID_def VIRTIO_BLK_T_DISCARD_def VIRTIO_BLK_T_WRITE_ZEROES_def
  VIRTIO_BLK_S_OK_def VIRTIO_BLK_S_IOERR_def VIRTIO_BLK_S_UNSUPP_def SECTOR_SIZE_def

text \<open>
  \<^verbatim>\<open>read_at\<close> is given the buffer to fill and returns whether it succeeded with the buffer as it
  left it; all operations return the backend they leave.
\<close>

record 'b backend_ops =
  be_read_at :: "'b \<Rightarrow> u64 \<Rightarrow> bytes \<Rightarrow> bool \<times> bytes \<times> 'b"
  be_write_at :: "'b \<Rightarrow> u64 \<Rightarrow> bytes \<Rightarrow> bool \<times> 'b"
  be_flush :: "'b \<Rightarrow> bool \<times> 'b"
  be_nsectors :: "'b \<Rightarrow> u64"

record completed =
  c_status :: u8
  c_used_len :: u32

record 'b block_device =
  bd_backend :: 'b
  bd_serial :: bytes

definition block_new :: "'b \<Rightarrow> bytes \<Rightarrow> 'b block_device" where
  "block_new b serial =
     \<lparr>bd_backend = b, bd_serial = overwrite 0 (take 20 serial) (replicate 20 0)\<rparr>"

definition block_nsectors :: "'b backend_ops \<Rightarrow> 'b block_device \<Rightarrow> u64" where
  "block_nsectors ops d = be_nsectors ops (bd_backend d)"

subsection \<open>Requests\<close>

text \<open>The loop of \<^verbatim>\<open>do_read\<close>: fill each data buffer in place, stopping at the first failure.\<close>

fun read_segs ::
  "'b backend_ops \<Rightarrow> 'b \<Rightarrow> guest_memory \<Rightarrow> u64 \<Rightarrow> u32 \<Rightarrow> segment list \<Rightarrow> u8 \<times> u32 \<times> 'b \<times> guest_memory"
where
  "read_segs ops b m offset written [] = (VIRTIO_BLK_S_OK, written, b, m)"
| "read_segs ops b m offset written (seg # segs) =
     (case with_slice_mut m (seg_gpa seg) (unat (seg_len seg))
             (\<lambda>buf. let (ok, buf', b') = be_read_at ops b offset buf in ((ok, b'), buf')) of
        Inl e \<Rightarrow> (VIRTIO_BLK_S_IOERR, written, b, m)
      | Inr ((ok, b'), m') \<Rightarrow>
          (if \<not> ok then (VIRTIO_BLK_S_IOERR, written, b', m')
           else read_segs ops b' m' (offset + ucast (seg_len seg)) (sat_add written (seg_len seg)) segs))"

definition do_read ::
  "'b backend_ops \<Rightarrow> 'b \<Rightarrow> guest_memory \<Rightarrow> desc_chain \<Rightarrow> u64 \<Rightarrow> u8 \<times> u32 \<times> 'b \<times> guest_memory" where
  "do_read ops b m chain offset = read_segs ops b m offset 0 (butlast (writable chain))"

fun write_segs :: "'b backend_ops \<Rightarrow> 'b \<Rightarrow> guest_memory \<Rightarrow> u64 \<Rightarrow> segment list \<Rightarrow> u8 \<times> 'b" where
  "write_segs ops b m offset [] = (VIRTIO_BLK_S_OK, b)"
| "write_segs ops b m offset (seg # segs) =
     (case with_slice m (seg_gpa seg) (unat (seg_len seg)) (\<lambda>buf. be_write_at ops b offset buf) of
        Inl e \<Rightarrow> (VIRTIO_BLK_S_IOERR, b)
      | Inr (ok, b') \<Rightarrow>
          (if \<not> ok then (VIRTIO_BLK_S_IOERR, b')
           else write_segs ops b' m (offset + ucast (seg_len seg)) segs))"

definition do_write :: "'b backend_ops \<Rightarrow> 'b \<Rightarrow> guest_memory \<Rightarrow> desc_chain \<Rightarrow> u64 \<Rightarrow> u8 \<times> 'b" where
  "do_write ops b m chain offset = write_segs ops b m offset (tl (readable chain))"

definition ZERO_CHUNK :: u64 where
  "ZERO_CHUNK = push_bit 20 1"

lemma zero_chunk_step: "0 < remaining \<Longrightarrow> unat (remaining - min remaining ZERO_CHUNK) < unat remaining"
  for remaining :: u64
  by (auto simp: ZERO_CHUNK_def min_def unat_sub word_le_nat_alt word_less_nat_alt)

text \<open>Zero one range, a chunk of at most 1 MiB at a time.\<close>

function zero_range :: "'b backend_ops \<Rightarrow> 'b \<Rightarrow> u64 \<Rightarrow> u64 \<Rightarrow> bool \<times> 'b" where
  "zero_range ops b offset remaining =
     (if remaining = 0 then (True, b)
      else let n = min remaining ZERO_CHUNK;
               (ok, b') = be_write_at ops b offset (replicate (unat n) 0)
           in if ok then zero_range ops b' (offset + n) (remaining - n) else (False, b'))"
  by pat_completeness auto
termination
  by (relation "measure (\<lambda>(ops, b, offset, remaining). unat remaining)")
     (auto simp: word_gt_0 zero_chunk_step)

declare zero_range.simps [simp del]

text \<open>The inner loop over the 16-byte range descriptors of one payload segment.\<close>

partial_function (option) zero_ranges ::
  "'b backend_ops \<Rightarrow> 'b \<Rightarrow> guest_memory \<Rightarrow> u64 \<Rightarrow> u64 \<Rightarrow> (u8 \<times> 'b) option"
where
  "zero_ranges ops b m at end' =
     (if \<not> at + 16 \<le> end' then Some (VIRTIO_BLK_S_OK, b)
      else (case (read_u64 m at, read_u32 m (at + 8)) of
              (Inr sector, Inr cnt) \<Rightarrow>
                (case checked_mul sector SECTOR_SIZE of
                   None \<Rightarrow> Some (VIRTIO_BLK_S_IOERR, b)
                 | Some offset \<Rightarrow>
                     (case zero_range ops b offset (ucast cnt * SECTOR_SIZE) of
                        (ok, b') \<Rightarrow>
                          (if ok then zero_ranges ops b' m (at + 16) end'
                           else Some (VIRTIO_BLK_S_IOERR, b'))))
            | _ \<Rightarrow> Some (VIRTIO_BLK_S_IOERR, b)))"

fun zero_segs :: "'b backend_ops \<Rightarrow> 'b \<Rightarrow> guest_memory \<Rightarrow> segment list \<Rightarrow> (u8 \<times> 'b) option" where
  "zero_segs ops b m [] = Some (VIRTIO_BLK_S_OK, b)"
| "zero_segs ops b m (seg # segs) =
     (case zero_ranges ops b m (seg_gpa seg) (seg_gpa seg + ucast (seg_len seg)) of
        None \<Rightarrow> None
      | Some (st, b') \<Rightarrow>
          (if st = VIRTIO_BLK_S_OK then zero_segs ops b' m segs else Some (st, b')))"

definition do_write_zeroes ::
  "'b backend_ops \<Rightarrow> 'b \<Rightarrow> guest_memory \<Rightarrow> desc_chain \<Rightarrow> (u8 \<times> 'b) option" where
  "do_write_zeroes ops b m chain = zero_segs ops b m (tl (readable chain))"

definition do_get_id :: "bytes \<Rightarrow> guest_memory \<Rightarrow> desc_chain \<Rightarrow> u8 \<times> u32 \<times> guest_memory" where
  "do_get_id serial m chain =
     (if writable chain = [] then (VIRTIO_BLK_S_IOERR, 0, m)
      else (case butlast (writable chain) of
              [] \<Rightarrow> (VIRTIO_BLK_S_OK, 0, m)
            | seg # _ \<Rightarrow>
                (let n = min (unat (seg_len seg)) (length serial)
                 in case gm_write m (seg_gpa seg) (take n serial) of
                      Inl e \<Rightarrow> (VIRTIO_BLK_S_IOERR, 0, m)
                    | Inr m' \<Rightarrow> (VIRTIO_BLK_S_OK, of_nat n, m'))))"

text \<open>
  \<^verbatim>\<open>dispatch\<close>: the outer option is the loop of a zeroing request not returning, the inner one the
  early returns of the source's \<^verbatim>\<open>?\<close>.
\<close>

type_synonym 'b blk_result = "(u8 \<times> u32) option \<times> 'b block_device \<times> guest_memory"

definition dispatch_type ::
  "'b backend_ops \<Rightarrow> 'b block_device \<Rightarrow> guest_memory \<Rightarrow> desc_chain \<Rightarrow> u32 \<Rightarrow> u64 \<Rightarrow> 'b blk_result option" where
  "dispatch_type ops d m chain req_type offset =
     (let b = bd_backend d
      in if req_type = VIRTIO_BLK_T_IN
         then (case do_read ops b m chain offset of
                 (st, n, b', m') \<Rightarrow> Some (Some (st, n), d\<lparr>bd_backend := b'\<rparr>, m'))
         else if req_type = VIRTIO_BLK_T_OUT
         then (case do_write ops b m chain offset of
                 (st, b') \<Rightarrow> Some (Some (st, 0), d\<lparr>bd_backend := b'\<rparr>, m))
         else if req_type = VIRTIO_BLK_T_FLUSH
         then (case be_flush ops b of
                 (ok, b') \<Rightarrow> Some (Some (if ok then VIRTIO_BLK_S_OK else VIRTIO_BLK_S_IOERR, 0),
                                   d\<lparr>bd_backend := b'\<rparr>, m))
         else if req_type = VIRTIO_BLK_T_GET_ID
         then (case do_get_id (bd_serial d) m chain of (st, n, m') \<Rightarrow> Some (Some (st, n), d, m'))
         else if req_type = VIRTIO_BLK_T_DISCARD then Some (Some (VIRTIO_BLK_S_OK, 0), d, m)
         else if req_type = VIRTIO_BLK_T_WRITE_ZEROES
         then (case do_write_zeroes ops b m chain of
                 None \<Rightarrow> None
               | Some (st, b') \<Rightarrow> Some (Some (st, 0), d\<lparr>bd_backend := b'\<rparr>, m))
         else Some (Some (VIRTIO_BLK_S_UNSUPP, 0), d, m))"

definition dispatch ::
  "'b backend_ops \<Rightarrow> 'b block_device \<Rightarrow> guest_memory \<Rightarrow> desc_chain \<Rightarrow> 'b blk_result option" where
  "dispatch ops d m chain =
     (case readable chain of
        [] \<Rightarrow> Some (None, d, m)
      | hdr # _ \<Rightarrow>
          (if seg_len hdr < 16 then Some (Some (VIRTIO_BLK_S_IOERR, 0), d, m)
           else (case read_u32 m (seg_gpa hdr) of
                   Inl e \<Rightarrow> Some (None, d, m)
                 | Inr req_type \<Rightarrow>
                     (case read_u64 m (seg_gpa hdr + 8) of
                        Inl e \<Rightarrow> Some (None, d, m)
                      | Inr sector \<Rightarrow>
                          (case checked_mul sector SECTOR_SIZE of
                             None \<Rightarrow> Some (None, d, m)
                           | Some offset \<Rightarrow> dispatch_type ops d m chain req_type offset)))))"

definition put_status :: "guest_memory \<Rightarrow> desc_chain \<Rightarrow> u8 \<Rightarrow> guest_memory" where
  "put_status m chain st =
     (if writable chain = [] then m
      else let seg = last (writable chain)
           in case gm_write m (seg_gpa seg + sat_sub (ucast (seg_len seg)) 1) [st] of
                Inl e \<Rightarrow> m
              | Inr m' \<Rightarrow> m')"

definition process ::
  "'b backend_ops \<Rightarrow> 'b block_device \<Rightarrow> guest_memory \<Rightarrow> desc_chain \<Rightarrow>
     (completed \<times> 'b block_device \<times> guest_memory) option" where
  "process ops d m chain =
     (case dispatch ops d m chain of
        None \<Rightarrow> None
      | Some (r, d', m') \<Rightarrow>
          (let (status, data_written) = (case r of None \<Rightarrow> (VIRTIO_BLK_S_IOERR, 0) | Some x \<Rightarrow> x);
               used_len = (if writable chain = [] then data_written else sat_add data_written 1)
           in Some (\<lparr>c_status = status, c_used_len = used_len\<rparr>, d', put_status m' chain status)))"

subsection \<open>The file backend\<close>

record file_backend =
  fb_file :: hfile
  fb_nsectors :: u64

definition file_read_at :: "file_backend \<Rightarrow> u64 \<Rightarrow> bytes \<Rightarrow> bool \<times> bytes \<times> file_backend" where
  "file_read_at b off buf =
     (let (ok, buf', f) = read_exact_at (fb_file b) off buf in (ok, buf', b\<lparr>fb_file := f\<rparr>))"

definition file_write_at :: "file_backend \<Rightarrow> u64 \<Rightarrow> bytes \<Rightarrow> bool \<times> file_backend" where
  "file_write_at b off buf =
     (let (ok, f) = write_all_at (fb_file b) off buf in (ok, b\<lparr>fb_file := f\<rparr>))"

definition file_flush :: "file_backend \<Rightarrow> bool \<times> file_backend" where
  "file_flush b = (let (ok, f) = flush_to_host (fb_file b) in (ok, b\<lparr>fb_file := f\<rparr>))"

definition file_ops :: "file_backend backend_ops" where
  "file_ops = \<lparr>be_read_at = file_read_at, be_write_at = file_write_at,
     be_flush = file_flush, be_nsectors = fb_nsectors\<rparr>"

subsection \<open>Requests over segments\<close>

definition seg_lens :: "segment list \<Rightarrow> nat" where
  "seg_lens segs = sum_list (map (unat \<circ> seg_len) segs)"

lemma seg_lens_simps [simp]: "seg_lens [] = 0" "seg_lens (s # ss) = unat (seg_len s) + seg_lens ss"
  by (simp_all add: seg_lens_def)

definition seg_data :: "guest_memory \<Rightarrow> segment \<Rightarrow> guest_mem_error + bytes" where
  "seg_data m s = gm_read m (seg_gpa s) (unat (seg_len s))"

lemma seg_data_length:
  assumes "gm_ok m" "map (seg_data m) segs = map Inr datas"
  shows "length (concat datas) = seg_lens segs"
proof -
  have "map length datas = map (unat \<circ> seg_len) segs" using assms(2)
    by (induction segs arbitrary: datas) (auto simp: seg_data_def Cons_eq_map_conv dest: ram.rd_length [OF assms(1)])
  then show ?thesis by (simp add: seg_lens_def length_concat)
qed

definition segs_apart :: "segment \<Rightarrow> segment \<Rightarrow> bool" where
  "segs_apart s t = disjoint_ranges (seg_gpa s) (unat (seg_len s)) (seg_gpa t) (unat (seg_len t))"

fun segs_disjoint :: "segment list \<Rightarrow> bool" where
  "segs_disjoint [] = True"
| "segs_disjoint (s # ss) = (list_all (segs_apart s) ss \<and> segs_disjoint ss)"

definition segs_backed :: "guest_memory \<Rightarrow> segment list \<Rightarrow> bool" where
  "segs_backed m segs = list_all (\<lambda>s. \<not> isl (seg_data m s)) segs"

lemma unat_add_len:
  assumes "unat off + unat len \<le> n" "n < 2 ^ 63"
  shows "unat (off + ucast (len :: u32) :: u64) = unat off + unat len"
  using assms unat_add_no_wrap [of off "ucast len"] by (simp add: unat_ucast_up)

subsection \<open>The backend contract\<close>

text \<open>
  What the request processor relies on: a healthy backend serves every access inside its
  contents as a flat array of bytes.
\<close>

locale block_backend =
  fixes ops :: "'b backend_ops" and content :: "'b \<Rightarrow> bytes" and ok :: "'b \<Rightarrow> bool"
  assumes read_ok: "ok b \<Longrightarrow> unat off + length buf \<le> length (content b) \<Longrightarrow>
      \<exists>b'. be_read_at ops b off buf = (True, take (length buf) (drop (unat off) (content b)), b') \<and>
        ok b' \<and> content b' = content b"
    and write_ok: "ok b \<Longrightarrow> unat off + length buf \<le> length (content b) \<Longrightarrow>
      \<exists>b'. be_write_at ops b off buf = (True, b') \<and> ok b' \<and> content b' = overwrite (unat off) buf (content b)"
    and flush_ok: "ok b \<Longrightarrow> \<exists>b'. be_flush ops b = (True, b') \<and> ok b' \<and> content b' = content b"
    and content_len: "ok b \<Longrightarrow> length (content b) < 2 ^ 63"
begin

lemma write_segs_ok:
  assumes "ok b" "gm_ok m" "map (seg_data m) segs = map Inr datas"
    "unat off + seg_lens segs \<le> length (content b)"
  shows "\<exists>b'. write_segs ops b m off segs = (VIRTIO_BLK_S_OK, b') \<and> ok b' \<and>
    content b' = overwrite (unat off) (concat datas) (content b)"
  using assms
proof (induction segs arbitrary: b off datas)
  case (Cons s segs)
  then obtain d ds where d: "datas = d # ds" "seg_data m s = Inr d" "map (seg_data m) segs = map Inr ds"
    by (cases datas) auto
  have len: "length d = unat (seg_len s)"
    using d(2) ram.rd_length [OF Cons.prems(2)] by (simp add: seg_data_def)
  obtain b1 where b1: "be_write_at ops b off d = (True, b1)" "ok b1"
    "content b1 = overwrite (unat off) d (content b)"
    using write_ok [OF Cons.prems(1), of off d] Cons.prems(4) len by auto
  have off: "unat (off + ucast (seg_len s)) = unat off + unat (seg_len s)"
    using Cons.prems(4) content_len [OF Cons.prems(1)] by (intro unat_add_len [where n = "length (content b)"]) auto
  have fit: "unat off + length d + seg_lens segs \<le> length (content b)" using Cons.prems(4) len by simp
  then obtain b' where b': "write_segs ops b1 m (off + ucast (seg_len s)) segs = (VIRTIO_BLK_S_OK, b')" "ok b'"
    "content b' = overwrite (unat off + unat (seg_len s)) (concat ds) (content b1)"
    using Cons.IH [OF b1(2) Cons.prems(2) d(3), of "off + ucast (seg_len s)"] b1(3) off len by auto
  have "length (concat ds) = seg_lens segs" using seg_data_length [OF Cons.prems(2) d(3)] .
  then have "content b' = overwrite (unat off) (concat datas) (content b)"
    using b'(3) b1(3) d(1) fit len overwrite_append [of "unat off" d "concat ds" "content b"] by simp
  then show ?case using b1(1) b'(1,2) d(2) by (auto simp: with_slice_def seg_data_def)
qed simp

lemma read_segs_ok:
  assumes "ok b" "gm_ok m" "segs_backed m segs" "segs_disjoint segs"
    "unat off + seg_lens segs \<le> length (content b)"
  shows "\<exists>w b' m' parts. read_segs ops b m off written segs = (VIRTIO_BLK_S_OK, w, b', m') \<and>
    unat w = min (unat written + seg_lens segs) (2 ^ 32 - 1) \<and> ok b' \<and> content b' = content b \<and> gm_ok m' \<and>
    map (seg_data m') segs = map Inr parts \<and> concat parts = take (seg_lens segs) (drop (unat off) (content b)) \<and>
    (\<forall>t. list_all (\<lambda>s. segs_apart s t) segs \<longrightarrow> seg_data m' t = seg_data m t) \<and>
    (\<forall>a n. isl (gm_read m' a n) = isl (gm_read m a n))"
  using assms
proof (induction segs arbitrary: b m off written)
  case Nil
  have "unat written < 2 ^ 32" using unsigned_less [of written] by simp
  with Nil show ?case by (auto simp: min_def)
next
  case (Cons s segs)
  let ?d = "take (unat (seg_len s)) (drop (unat off) (content b))"
  obtain bs where bs: "seg_data m s = Inr bs" using Cons.prems(3)
    by (auto simp: segs_backed_def isl_def) (metis sum.exhaust)
  have len: "length bs = unat (seg_len s)"
    using bs ram.rd_length [OF Cons.prems(2)] by (simp add: seg_data_def)
  have ld: "length ?d = unat (seg_len s)" using Cons.prems(5) by simp
  obtain b1 where b1: "be_read_at ops b off bs = (True, ?d, b1)" "ok b1" "content b1 = content b"
    using read_ok [OF Cons.prems(1), of off bs] Cons.prems(5) len by auto
  obtain m1 where m1: "with_slice_mut m (seg_gpa s) (unat (seg_len s))
      (\<lambda>buf. let (ok, buf', b') = be_read_at ops b off buf in ((ok, b'), buf')) = Inr ((True, b1), m1)"
    "gm_write m (seg_gpa s) ?d = Inr m1"
    using with_slice_mut_read [OF Cons.prems(2) bs [unfolded seg_data_def],
        of "\<lambda>buf. let (ok, buf', b') = be_read_at ops b off buf in ((ok, b'), buf')" "(True, b1)" ?d] b1(1) ld
    by auto
  have ok1: "gm_ok m1" using ram.wr_ok [OF Cons.prems(2) m1(2)] .
  have isl1: "isl (gm_read m1 a n) = isl (gm_read m a n)" for a n
    using ram.rd_wr_backed [OF Cons.prems(2) m1(2), of a n] by (cases "gm_read m1 a n"; cases "gm_read m a n") auto
  have off: "unat (off + ucast (seg_len s)) = unat off + unat (seg_len s)"
    using Cons.prems(5) content_len [OF Cons.prems(1)] by (intro unat_add_len [where n = "length (content b)"]) auto
  have bk: "segs_backed m1 segs" using Cons.prems(3) isl1 by (simp add: segs_backed_def seg_data_def)
  have dj: "segs_disjoint segs" and ap: "list_all (segs_apart s) segs" using Cons.prems(4) by simp_all
  have fit: "unat (off + ucast (seg_len s)) + seg_lens segs \<le> length (content b1)"
    using Cons.prems(5) off b1(3) by simp
  obtain w b' m' parts where r: "read_segs ops b1 m1 (off + ucast (seg_len s)) (sat_add written (seg_len s)) segs =
      (VIRTIO_BLK_S_OK, w, b', m')"
    and w: "unat w = min (unat (sat_add written (seg_len s)) + seg_lens segs) (2 ^ 32 - 1)"
    and b': "ok b'" "content b' = content b1" "gm_ok m'"
    and parts: "map (seg_data m') segs = map Inr parts"
      "concat parts = take (seg_lens segs) (drop (unat (off + ucast (seg_len s))) (content b1))"
    and fr: "\<And>t. list_all (\<lambda>s. segs_apart s t) segs \<Longrightarrow> seg_data m' t = seg_data m1 t"
    and il: "\<And>a n. isl (gm_read m' a n) = isl (gm_read m1 a n)"
    using Cons.IH [OF b1(2) ok1 bk dj fit, of "sat_add written (seg_len s)"] by blast
  have "seg_data m' s = seg_data m1 s"
    using ap by (intro fr) (simp add: list_all_iff segs_apart_def disjoint_ranges_sym)
  also have "\<dots> = Inr ?d" using ram.rd_wr_same [OF Cons.prems(2) m1(2)] ld by (simp add: seg_data_def)
  finally have ps: "map (seg_data m') (s # segs) = map Inr (?d # parts)" using parts(1) by simp
  have cs: "concat (?d # parts) = take (seg_lens (s # segs)) (drop (unat off) (content b))"
    unfolding seg_lens_simps take_add using parts(2) b1(3) off by (simp add: add.commute)
  have "unat w = min (unat written + seg_lens (s # segs)) (2 ^ 32 - 1)"
    using w by (auto simp: unat_sat_add min_def)
  moreover have "seg_data m' t = seg_data m t" if t: "list_all (\<lambda>s. segs_apart s t) (s # segs)" for t
  proof -
    have "seg_data m1 t = seg_data m t"
      using t ram.rd_wr_disjoint [OF Cons.prems(2) m1(2)] ld by (simp add: seg_data_def segs_apart_def)
    with fr t show ?thesis by simp
  qed
  moreover have "read_segs ops b m off written (s # segs) = (VIRTIO_BLK_S_OK, w, b', m')"
    using m1(1) r by simp
  ultimately show ?case using b' b1(3) ps cs il isl1 by metis
qed


lemma zero_range_ok:
  assumes "ok b" "unat off + unat remaining \<le> length (content b)"
  shows "\<exists>b'. zero_range ops b off remaining = (True, b') \<and> ok b' \<and>
    content b' = overwrite (unat off) (replicate (unat remaining) 0) (content b)"
  using assms
proof (induction "unat remaining" arbitrary: b off remaining rule: less_induct)
  case less
  show ?case
  proof (cases "remaining = 0")
    case True
    with less.prems show ?thesis by (subst zero_range.simps) simp
  next
    case False
    let ?n = "min remaining ZERO_CHUNK"
    have n: "unat ?n \<le> unat remaining" "?n \<le> remaining" by (simp_all flip: word_le_nat_alt)
    have rest: "unat (remaining - ?n) = unat remaining - unat ?n" using n(2) by (simp add: unat_sub)
    have lt: "unat (remaining - ?n) < unat remaining" using False by (intro zero_chunk_step) (simp add: word_gt_0)
    obtain b1 where b1: "be_write_at ops b off (replicate (unat ?n) 0) = (True, b1)" "ok b1"
      "content b1 = overwrite (unat off) (replicate (unat ?n) 0) (content b)"
      using write_ok [OF less.prems(1), of off "replicate (unat ?n) 0"] less.prems(2) n(1) by auto
    have off: "unat (off + ?n) = unat off + unat ?n"
      using unat_add_no_wrap [of off ?n] n(1) less.prems(2) content_len [OF less.prems(1)] by simp
    have "length (content b1) = length (content b)" using b1(3) less.prems(2) n(1) by simp
    then obtain b' where b': "zero_range ops b1 (off + ?n) (remaining - ?n) = (True, b')" "ok b'"
      "content b' = overwrite (unat off + unat ?n) (replicate (unat remaining - unat ?n) 0) (content b1)"
      using less.hyps [OF lt b1(2), of "off + ?n"] less.prems(2) off rest n(1) by auto
    have "replicate (unat ?n) 0 @ replicate (unat remaining - unat ?n) 0 = replicate (unat remaining) (0 :: u8)"
      using n(1) by (simp flip: replicate_add)
    then have "content b' = overwrite (unat off) (replicate (unat remaining) 0) (content b)"
      using b'(3) b1(3) less.prems(2) n(1)
        overwrite_append [of "unat off" "replicate (unat ?n) 0" "replicate (unat remaining - unat ?n) 0" "content b"]
      by simp
    with False b1(1) b'(1,2) show ?thesis by (subst zero_range.simps) (simp add: Let_def)
  qed
qed

end

definition blk_header :: "guest_memory \<Rightarrow> desc_chain \<Rightarrow> u32 \<Rightarrow> u64 \<Rightarrow> bool" where
  "blk_header m chain req_type sector \<longleftrightarrow>
     readable chain \<noteq> [] \<and> 16 \<le> seg_len (hd (readable chain)) \<and>
     read_u32 m (seg_gpa (hd (readable chain))) = Inr req_type \<and>
     read_u64 m (seg_gpa (hd (readable chain)) + 8) = Inr sector"

lemma dispatch_header:
  assumes "blk_header m chain req_type sector" "unat sector * 512 < 2 ^ 64"
  shows "dispatch ops d m chain = dispatch_type ops d m chain req_type (sector * 512)"
proof -
  obtain h hs where "readable chain = h # hs" using assms(1) by (cases "readable chain") (auto simp: blk_header_def)
  with assms show ?thesis
    by (auto simp: dispatch_def blk_header_def checked_mul_def SECTOR_SIZE_def not_less [symmetric])
qed

lemma unat_sector: "unat sector * 512 < 2 ^ 64 \<Longrightarrow> unat (sector * 512 :: u64) = unat sector * 512"
  using unat_mult_no_wrap [of sector 512] by simp

text \<open>The data buffers of a read request and its status buffer, all apart from each other.\<close>

definition read_layout :: "guest_memory \<Rightarrow> desc_chain \<Rightarrow> bool" where
  "read_layout m chain \<longleftrightarrow> writable chain \<noteq> [] \<and> segs_backed m (writable chain) \<and>
     segs_disjoint (writable chain) \<and> seg_len (last (writable chain)) \<noteq> 0 \<and>
     unat (seg_gpa (last (writable chain))) + unat (seg_len (last (writable chain))) < 2 ^ 64"

lemma segs_disjoint_snoc: "segs_disjoint (ss @ [t]) \<longleftrightarrow> segs_disjoint ss \<and> list_all (\<lambda>s. segs_apart s t) ss"
  by (induction ss) auto

lemma put_status_ok:
  assumes ok: "gm_ok m" and ne: "writable chain \<noteq> []" and bk: "\<not> isl (seg_data m (last (writable chain)))"
    and len: "seg_len (last (writable chain)) \<noteq> 0"
      "unat (seg_gpa (last (writable chain))) + unat (seg_len (last (writable chain))) < 2 ^ 64"
  shows "gm_read (put_status m chain st)
      (seg_gpa (last (writable chain)) + ucast (seg_len (last (writable chain)) - 1)) 1 = Inr [st]"
    and "segs_apart s (last (writable chain)) \<Longrightarrow> seg_data (put_status m chain st) s = seg_data m s"
proof -
  let ?st = "last (writable chain)"
  let ?a = "seg_gpa ?st + ucast (seg_len ?st - 1) :: u64"
  have l1: "unat (seg_len ?st - 1) = unat (seg_len ?st) - 1" "1 \<le> unat (seg_len ?st)"
    using len(1) by (simp_all add: unat_minus_one unat_gt_0 Suc_leI)
  have ua: "unat ?a = unat (seg_gpa ?st) + (unat (seg_len ?st) - 1)"
    using unat_add_no_wrap [of "seg_gpa ?st" "ucast (seg_len ?st - 1)"] len(2) l1 by (simp add: unat_ucast_up)
  have sub: "sat_sub (ucast (seg_len ?st)) 1 = (ucast (seg_len ?st - 1) :: u64)"
    using l1 by (simp add: word_unat_eq_iff unat_sat_sub unat_ucast_up)
  obtain bs where bs: "gm_read m (seg_gpa ?st) (unat (seg_len ?st)) = Inr bs"
    using bk by (cases "gm_read m (seg_gpa ?st) (unat (seg_len ?st))") (auto simp: seg_data_def)
  have "\<exists>cs. gm_read m ?a (length [st]) = Inr cs"
    using l1(2) ua by (intro gm_read_sub [OF ok bs]) auto
  then obtain m' where m': "gm_write m ?a [st] = Inr m'" using ram.wr_backed [OF ok] by blast
  have p: "put_status m chain st = m'" using m' ne sub by (simp add: put_status_def)
  show "gm_read (put_status m chain st) ?a 1 = Inr [st]" using ram.rd_wr_same [OF ok m'] p by simp
  assume "segs_apart s ?st"
  then have "disjoint_ranges ?a (length [st]) (seg_gpa s) (unat (seg_len s))"
    using ua l1(2) by (auto simp: segs_apart_def disjoint_ranges_def)
  then show "seg_data (put_status m chain st) s = seg_data m s"
    using ram.rd_wr_disjoint [OF ok m'] p by (simp add: seg_data_def)
qed

context block_backend begin

lemma process_write:
  assumes "ok (bd_backend d)" "gm_ok m" "blk_header m chain VIRTIO_BLK_T_OUT sector"
    "map (seg_data m) (tl (readable chain)) = map Inr datas"
    "unat sector * 512 + seg_lens (tl (readable chain)) \<le> length (content (bd_backend d))"
  shows "\<exists>c d' m'. process ops d m chain = Some (c, d', m') \<and> c_status c = VIRTIO_BLK_S_OK \<and>
    ok (bd_backend d') \<and> bd_serial d' = bd_serial d \<and>
    content (bd_backend d') = overwrite (unat sector * 512) (concat datas) (content (bd_backend d))"
proof -
  have s: "unat sector * 512 < 2 ^ 64" using assms(5) content_len [OF assms(1)] by simp
  have "unat (sector * 512) + seg_lens (tl (readable chain)) \<le> length (content (bd_backend d))"
    using assms(5) unat_sector [OF s] by simp
  from write_segs_ok [OF assms(1,2,4) this] obtain b' where
    "write_segs ops (bd_backend d) m (sector * 512) (tl (readable chain)) = (VIRTIO_BLK_S_OK, b')" "ok b'"
    "content b' = overwrite (unat sector * 512) (concat datas) (content (bd_backend d))"
    using unat_sector [OF s] by auto
  then show ?thesis
    by (simp add: process_def dispatch_header [OF assms(3) s] dispatch_type_def do_write_def
        VIRTIO_BLK_T_IN_def VIRTIO_BLK_T_OUT_def)
qed

lemma process_write_zeroes:
  assumes "ok (bd_backend d)" "blk_header m chain VIRTIO_BLK_T_WRITE_ZEROES sector" "unat sector * 512 < 2 ^ 64"
    "tl (readable chain) = [p]" "seg_len p = 16" "unat (seg_gpa p) + 32 < 2 ^ 64"
    "read_u64 m (seg_gpa p) = Inr first" "read_u32 m (seg_gpa p + 8) = Inr cnt"
    "unat first * 512 + unat cnt * 512 \<le> length (content (bd_backend d))"
  shows "\<exists>c d' m'. process ops d m chain = Some (c, d', m') \<and> c_status c = VIRTIO_BLK_S_OK \<and>
    ok (bd_backend d') \<and>
    content (bd_backend d') = overwrite (unat first * 512) (replicate (unat cnt * 512) 0) (content (bd_backend d))"
proof -
  let ?b = "bd_backend d"
  have f: "unat first * 512 < 2 ^ 64" using assms(9) content_len [OF assms(1)] by simp
  have "unat (ucast cnt :: u64) * unat (512 :: u64) < 2 ^ 64"
    using assms(9) content_len [OF assms(1)] by (simp add: unat_ucast_up)
  then have n: "unat (ucast cnt * 512 :: u64) = unat cnt * 512"
    using unat_mult_no_wrap [of "ucast cnt :: u64" 512] by (simp add: unat_ucast_up)
  obtain b' where b': "zero_range ops ?b (first * 512) (ucast cnt * 512) = (True, b')" "ok b'"
    "content b' = overwrite (unat first * 512) (replicate (unat cnt * 512) 0) (content ?b)"
    using zero_range_ok [OF assms(1), of "first * 512" "ucast cnt * 512"] assms(9) n unat_sector [OF f] by auto
  have e: "unat (seg_gpa p + 16) = unat (seg_gpa p) + 16" "unat (seg_gpa p + 16 + 16) = unat (seg_gpa p) + 32"
    using unat_add_no_wrap [of "seg_gpa p" 16] unat_add_no_wrap [of "seg_gpa p + 16" 16] assms(6) by simp_all
  have stop: "\<not> seg_gpa p + 16 + 16 \<le> seg_gpa p + 16" unfolding word_le_nat_alt e by simp
  have "zero_ranges ops ?b m (seg_gpa p) (seg_gpa p + 16) = zero_ranges ops b' m (seg_gpa p + 16) (seg_gpa p + 16)"
    using assms(7,8) f b'(1) by (subst zero_ranges.simps) (simp add: checked_mul_def SECTOR_SIZE_def)
  also have "\<dots> = Some (VIRTIO_BLK_S_OK, b')"
    using stop by (subst zero_ranges.simps) simp
  finally have "do_write_zeroes ops ?b m chain = Some (VIRTIO_BLK_S_OK, b')"
    using assms(4,5) by (simp add: do_write_zeroes_def)
  with b' show ?thesis
    by (simp add: process_def dispatch_header [OF assms(2,3)] dispatch_type_def VIRTIO_BLK_T_WRITE_ZEROES_def
        VIRTIO_BLK_T_IN_def VIRTIO_BLK_T_OUT_def VIRTIO_BLK_T_FLUSH_def VIRTIO_BLK_T_GET_ID_def
        VIRTIO_BLK_T_DISCARD_def)
qed

lemma process_read:
  assumes "ok (bd_backend d)" "gm_ok m" "blk_header m chain VIRTIO_BLK_T_IN sector" "read_layout m chain"
    "unat sector * 512 + seg_lens (butlast (writable chain)) \<le> length (content (bd_backend d))"
  shows "\<exists>c d' m' parts. process ops d m chain = Some (c, d', m') \<and> c_status c = VIRTIO_BLK_S_OK \<and>
    unat (c_used_len c) = min (seg_lens (butlast (writable chain)) + 1) (2 ^ 32 - 1) \<and>
    map (seg_data m') (butlast (writable chain)) = map Inr parts \<and>
    concat parts = take (seg_lens (butlast (writable chain))) (drop (unat sector * 512) (content (bd_backend d))) \<and>
    gm_read m' (seg_gpa (last (writable chain)) + ucast (seg_len (last (writable chain)) - 1)) 1 =
      Inr [VIRTIO_BLK_S_OK] \<and> content (bd_backend d') = content (bd_backend d)"
proof -
  let ?ds = "butlast (writable chain)" and ?st = "last (writable chain)"
  have ws: "writable chain = ?ds @ [?st]" using assms(4) by (simp add: read_layout_def)
  have "segs_backed m (?ds @ [?st])" "segs_disjoint (?ds @ [?st])"
    using assms(4) ws by (simp_all add: read_layout_def)
  then have lay: "segs_backed m ?ds" "\<not> isl (seg_data m ?st)" "segs_disjoint ?ds"
    "list_all (\<lambda>s. segs_apart s ?st) ?ds"
    by (simp_all add: segs_backed_def segs_disjoint_snoc)
  have lay2: "seg_len ?st \<noteq> 0" "unat (seg_gpa ?st) + unat (seg_len ?st) < 2 ^ 64"
    using assms(4) by (simp_all add: read_layout_def)
  have s: "unat sector * 512 < 2 ^ 64" using assms(5) content_len [OF assms(1)] by simp
  have "unat (sector * 512) + seg_lens ?ds \<le> length (content (bd_backend d))"
    using assms(5) unat_sector [OF s] by simp
  from read_segs_ok [OF assms(1,2) lay(1,3) this, of 0] obtain w b' m1 parts where
    r: "read_segs ops (bd_backend d) m (sector * 512) 0 ?ds = (VIRTIO_BLK_S_OK, w, b', m1)"
    and w: "unat w = min (seg_lens ?ds) (2 ^ 32 - 1)"
    and b': "ok b'" "content b' = content (bd_backend d)" "gm_ok m1"
    and p: "map (seg_data m1) ?ds = map Inr parts"
      "concat parts = take (seg_lens ?ds) (drop (unat sector * 512) (content (bd_backend d)))"
    and il: "\<And>a n. isl (gm_read m1 a n) = isl (gm_read m a n)"
    using unat_sector [OF s] by auto
  have "\<not> isl (seg_data m1 ?st)" using il lay(2) by (simp add: seg_data_def)
  note st = put_status_ok [OF b'(3) _ this lay2, where st = VIRTIO_BLK_S_OK]
  have ne: "writable chain \<noteq> []" using assms(4) by (simp add: read_layout_def)
  have "map (seg_data (put_status m1 chain VIRTIO_BLK_S_OK)) ?ds = map (seg_data m1) ?ds"
    using lay(4) st(2) [OF ne] by (simp add: list_all_iff)
  moreover have "unat (sat_add w 1) = min (seg_lens ?ds + 1) (2 ^ 32 - 1)"
    using w by (auto simp: unat_sat_add min_def)
  ultimately show ?thesis
    using r st(1) [OF ne] b'(2) p ne
    by (auto simp: process_def dispatch_header [OF assms(3) s] dispatch_type_def do_read_def)
qed

end


definition file_ok :: "file_backend \<Rightarrow> bool" where
  "file_ok b \<longleftrightarrow> f_faults (fb_file b) = [] \<and> length (f_bytes (fb_file b)) < 2 ^ 63"

interpretation fileb: block_backend file_ops "\<lambda>b. f_bytes (fb_file b)" file_ok
proof (unfold_locales, goal_cases)
  case (1 b off buf)
  then show ?case by (simp add: file_ops_def file_read_at_def file_ok_def read_exact_at_ok)
next
  case (2 b off buf)
  then show ?case by (simp add: file_ops_def file_write_at_def file_ok_def write_all_at_ok)
next
  case (3 b)
  then show ?case by (simp add: file_ops_def file_flush_def file_ok_def flush_to_host_def)
next
  case (4 b)
  then show ?case by (simp add: file_ok_def)
qed

end
