(* ===== verification/Overlay.thy ===== *)
theory Overlay
  imports Block
begin

text \<open>
  The copy-on-write backend of the block device (\<^verbatim>\<open>OverlayBackend\<close> in
  \<^verbatim>\<open>src/hypervisor/src/hvf/virtio/block.rs\<close>): an immutable base image, an overlay file that takes
  every write, a bitmap of the sectors that live in the overlay, and the sidecar file that
  carries the bitmap across a suspend and resume. The sidecar is a host file with a flag that
  says whether it exists; opening, creating or removing it counts as one operation on it.
\<close>

subsection \<open>State and bitmap\<close>

record overlay_backend =
  ov_base :: hfile
  ov_overlay :: hfile
  ov_nsectors :: u64
  ov_written :: "u64 list"
  ov_bitmap_path :: bool
  ov_sidecar :: hfile
  ov_sidecar_exists :: bool
  ov_bitmap_file :: bool
  ov_bitmap_dirty :: "bool list"

definition BITMAP_CHUNK_BYTES :: nat where
  "BITMAP_CHUNK_BYTES = 4096"

definition BITMAP_CHUNK_WORDS :: nat where
  "BITMAP_CHUNK_WORDS = BITMAP_CHUNK_BYTES div 8"

definition div_ceil :: "nat \<Rightarrow> nat \<Rightarrow> nat" where
  "div_ceil a b = (if a mod b = 0 then a div b else Suc (a div b))"

definition bitmap_words :: "u64 \<Rightarrow> nat" where
  "bitmap_words nsectors = div_ceil (unat nsectors) 64"

definition remove_sidecar :: "hfile \<Rightarrow> bool \<Rightarrow> bool \<times> hfile" where
  "remove_sidecar side exists =
     (if \<not> exists then (True, side)
      else let (flt, side') = next_fault side
           in if flt = None then (True, side'\<lparr>f_bytes := []\<rparr>) else (False, side'))"

text \<open>
  \<^verbatim>\<open>open\<close>: the files are the ones the no-follow opens returned, the overlay already truncated.
\<close>

definition overlay_open :: "hfile \<Rightarrow> hfile \<Rightarrow> hfile \<Rightarrow> bool \<Rightarrow> u64 \<Rightarrow> overlay_backend option" where
  "overlay_open base overlay side exists nsectors =
     (case set_len (overlay\<lparr>f_bytes := []\<rparr>) (sat_mul nsectors SECTOR_SIZE) of
        (ok1, overlay') \<Rightarrow>
          if \<not> ok1 then None
          else (case remove_sidecar side exists of
                  (ok2, side') \<Rightarrow>
                    if \<not> ok2 then None
                    else Some \<lparr>ov_base = base, ov_overlay = overlay', ov_nsectors = nsectors,
                           ov_written = replicate (bitmap_words nsectors) 0,
                           ov_bitmap_path = True, ov_sidecar = side', ov_sidecar_exists = False,
                           ov_bitmap_file = False,
                           ov_bitmap_dirty =
                             replicate (div_ceil (bitmap_words nsectors) BITMAP_CHUNK_WORDS) False\<rparr>))"

fun chunks8 :: "bytes \<Rightarrow> u64 list" where
  "chunks8 (a # b # c # d # e # f # g # h # bs) = of_le_bytes [a, b, c, d, e, f, g, h] # chunks8 bs"
| "chunks8 _ = []"

definition overlay_resume :: "hfile \<Rightarrow> hfile \<Rightarrow> hfile \<Rightarrow> bool \<Rightarrow> u64 \<Rightarrow> overlay_backend option" where
  "overlay_resume base overlay side exists nsectors =
     (let words = bitmap_words nsectors;
          (flt, side') = (if exists then next_fault side else (Some 0, side))
      in if flt = None \<and> length (f_bytes side') = words * 8
         then (case set_len overlay (sat_mul nsectors SECTOR_SIZE) of
                 (ok1, overlay') \<Rightarrow>
                   if \<not> ok1 then None
                   else Some \<lparr>ov_base = base, ov_overlay = overlay', ov_nsectors = nsectors,
                          ov_written = chunks8 (f_bytes side'),
                          ov_bitmap_path = True, ov_sidecar = side', ov_sidecar_exists = True,
                          ov_bitmap_file = False,
                          ov_bitmap_dirty = replicate (div_ceil words BITMAP_CHUNK_WORDS) False\<rparr>)
         else overlay_open base overlay side' exists nsectors)"

definition chunk_bytes :: "u64 list \<Rightarrow> nat \<Rightarrow> bytes" where
  "chunk_bytes ws chunk =
     (let lo = chunk * BITMAP_CHUNK_WORDS; hi = min ((chunk + 1) * BITMAP_CHUNK_WORDS) (length ws)
      in concat (map le_bytes (take (hi - lo) (drop lo ws))))"

fun persist_chunks :: "overlay_backend \<Rightarrow> nat list \<Rightarrow> overlay_backend" where
  "persist_chunks b [] = b"
| "persist_chunks b (chunk # chunks) =
     (if \<not> ov_bitmap_dirty b ! chunk then persist_chunks b chunks
      else (case write_all_at (ov_sidecar b) (of_nat (chunk * BITMAP_CHUNK_WORDS * 8))
                   (chunk_bytes (ov_written b) chunk) of
              (ok, side) \<Rightarrow>
                if \<not> ok then b\<lparr>ov_sidecar := side\<rparr>
                else persist_chunks
                       (b\<lparr>ov_sidecar := side, ov_bitmap_dirty := (ov_bitmap_dirty b)[chunk := False]\<rparr>)
                       chunks))"

definition open_sidecar :: "overlay_backend \<Rightarrow> bool \<times> overlay_backend" where
  "open_sidecar b =
     (let total = length (ov_written b) * 8;
          (flt, side) = next_fault (ov_sidecar b)
      in if flt \<noteq> None then (False, b\<lparr>ov_sidecar := side\<rparr>)
         else if length (f_bytes side) \<noteq> total
         then (case set_len side (of_nat total) of
                 (ok, side') \<Rightarrow>
                   (ok, b\<lparr>ov_sidecar := side', ov_sidecar_exists := True, ov_bitmap_file := ok\<rparr>))
         else (True, b\<lparr>ov_sidecar := side, ov_sidecar_exists := True, ov_bitmap_file := True\<rparr>))"

definition persist_bitmap :: "overlay_backend \<Rightarrow> overlay_backend" where
  "persist_bitmap b =
     (if \<not> ov_bitmap_path b then b
      else if True \<notin> set (ov_bitmap_dirty b) then b
      else (case (if ov_bitmap_file b then (True, b) else open_sidecar b) of
              (ok, b') \<Rightarrow>
                if \<not> ok then b' else persist_chunks b' [0..<length (ov_bitmap_dirty b')]))"

definition is_written :: "overlay_backend \<Rightarrow> u64 \<Rightarrow> bool" where
  "is_written b sector =
     (let w = unat (sector div 64); i = unat (sector mod 64)
      in w < length (ov_written b) \<and> drop_bit i (ov_written b ! w) AND 1 \<noteq> 0)"

definition mark_written :: "overlay_backend \<Rightarrow> u64 \<Rightarrow> overlay_backend" where
  "mark_written b sector =
     (let w = unat (sector div 64); i = unat (sector mod 64)
      in if w < length (ov_written b)
         then let before = ov_written b ! w;
                  word = before OR push_bit i 1;
                  b' = b\<lparr>ov_written := (ov_written b)[w := word]\<rparr>;
                  c = w div BITMAP_CHUNK_WORDS
              in if word \<noteq> before \<and> c < length (ov_bitmap_dirty b)
                 then b'\<lparr>ov_bitmap_dirty := (ov_bitmap_dirty b')[c := True]\<rparr> else b'
         else b)"

definition seed_sector :: "overlay_backend \<Rightarrow> u64 \<Rightarrow> bool \<times> overlay_backend" where
  "seed_sector b sector =
     (if is_written b sector then (True, b)
      else let off = sector * SECTOR_SIZE
           in case read_exact_at (ov_base b) off (replicate 512 0) of
                (ok1, tmp, base) \<Rightarrow>
                  if \<not> ok1 then (False, b\<lparr>ov_base := base\<rparr>)
                  else (case write_all_at (ov_overlay b) off tmp of
                          (ok2, overlay) \<Rightarrow>
                            let b' = b\<lparr>ov_base := base, ov_overlay := overlay\<rparr>
                            in if ok2 then (True, mark_written b' sector) else (False, b')))"

subsection \<open>The backend operations\<close>

text \<open>
  The inner loop of \<^verbatim>\<open>read_at\<close>: extend a run of bytes from \<open>cur\<close> whose sectors have the same
  source, \<open>rem\<close> being what is left of the buffer.
\<close>

lemma in_sec_pos: "0 < unat (SECTOR_SIZE - pos mod SECTOR_SIZE)"
proof -
  have "unat (pos mod SECTOR_SIZE) < 512" by (simp add: SECTOR_SIZE_def unat_mod)
  then have "pos mod SECTOR_SIZE < SECTOR_SIZE" by (simp add: word_less_nat_alt SECTOR_SIZE_def)
  then show ?thesis by (simp add: unat_sub word_less_nat_alt order_less_imp_le)
qed

lemma diff_min_less: "0 < x \<Longrightarrow> run < rem \<Longrightarrow> rem - (run + min x (rem - run)) < rem - run"
  for run rem :: nat
  by (auto simp: min_def intro: diff_less_mono2)

function read_run :: "overlay_backend \<Rightarrow> u64 \<Rightarrow> bool \<Rightarrow> nat \<Rightarrow> nat \<Rightarrow> nat" where
  "read_run b cur from_overlay rem run =
     (if run < rem
      then let pos = cur + of_nat run
           in if is_written b (pos div SECTOR_SIZE) \<noteq> from_overlay then run
              else read_run b cur from_overlay rem
                     (run + min (unat (SECTOR_SIZE - pos mod SECTOR_SIZE)) (rem - run))
      else run)"
  by pat_completeness auto
termination
  by (relation "measure (\<lambda>(b, cur, from_overlay, rem, run). rem - run)")
     (auto intro: diff_min_less [OF in_sec_pos])

declare read_run.simps [simp del]

lemma read_run_ge: "run \<le> read_run b cur from_overlay rem run"
proof (induction b cur from_overlay rem run rule: read_run.induct)
  case (1 b cur from_overlay rem run)
  then show ?case by (subst read_run.simps) (auto simp: Let_def intro: order_trans [OF le_add1])
qed

lemma read_run_le: "run \<le> rem \<Longrightarrow> read_run b cur from_overlay rem run \<le> rem"
proof (induction b cur from_overlay rem run rule: read_run.induct)
  case (1 b cur from_overlay rem run)
  let ?pos = "cur + of_nat run"
  have le: "run + min (unat (SECTOR_SIZE - ?pos mod SECTOR_SIZE)) (rem - run) \<le> rem"
    using 1(2) min.cobounded2 [of "unat (SECTOR_SIZE - ?pos mod SECTOR_SIZE)" "rem - run"] by linarith
  show ?case
  proof (cases "run < rem \<and> is_written b (?pos div SECTOR_SIZE) = from_overlay")
    case True
    then show ?thesis using 1(1) [OF _ refl _ le] by (subst read_run.simps) (simp add: Let_def)
  next
    case False
    then show ?thesis using 1(2) by (subst read_run.simps) (auto simp: Let_def)
  qed
qed

lemma read_run_progress:
  assumes "0 < rem"
  shows "0 < read_run b cur (is_written b (cur div SECTOR_SIZE)) rem 0"
proof -
  have "read_run b cur (is_written b (cur div SECTOR_SIZE)) rem 0 =
    read_run b cur (is_written b (cur div SECTOR_SIZE)) rem (min (unat (SECTOR_SIZE - cur mod SECTOR_SIZE)) rem)"
    using assms by (subst read_run.simps) simp
  moreover have "0 < min (unat (SECTOR_SIZE - cur mod SECTOR_SIZE)) rem"
    using assms in_sec_pos by simp
  ultimately show ?thesis using read_run_ge order_less_le_trans by metis
qed

definition read_source :: "overlay_backend \<Rightarrow> bool \<Rightarrow> u64 \<Rightarrow> bytes \<Rightarrow> bool \<times> bytes \<times> overlay_backend" where
  "read_source b from_overlay cur buf =
     (if from_overlay
      then (case read_exact_at (ov_overlay b) cur buf of (ok, buf', f) \<Rightarrow> (ok, buf', b\<lparr>ov_overlay := f\<rparr>))
      else (case read_exact_at (ov_base b) cur buf of (ok, buf', f) \<Rightarrow> (ok, buf', b\<lparr>ov_base := f\<rparr>)))"

lemma length_read_source: "length (fst (snd (read_source b s cur buf))) = length buf"
  by (auto simp: read_source_def read_exact_at_def Let_def overwrite_def split: prod.split option.split)

function read_loop :: "overlay_backend \<Rightarrow> u64 \<Rightarrow> bytes \<Rightarrow> nat \<Rightarrow> bool \<times> bytes \<times> overlay_backend" where
  "read_loop b offset buf dn =
     (if dn < length buf
      then let cur = offset + of_nat dn;
               from_overlay = is_written b (cur div SECTOR_SIZE);
               run = read_run b cur from_overlay (length buf - dn) 0;
               r = read_source b from_overlay cur (take run (drop dn buf));
               buf' = overwrite dn (fst (snd r)) buf
           in if fst r then read_loop (snd (snd r)) offset buf' (dn + run)
              else (False, buf', snd (snd r))
      else (True, buf, b))"
  by pat_completeness auto
termination
proof (relation "measure (\<lambda>(b, offset, buf, dn). length buf - dn)", goal_cases)
  case (2 b offset buf dn cur from_overlay run r buf')
  then have "0 < run" "run \<le> length buf - dn"
    using read_run_progress [of "length buf - dn" b cur] read_run_le [of 0 "length buf - dn" b cur]
    by simp_all
  moreover have "length buf' = length buf"
    using 2 calculation(2) by (simp add: length_read_source)
  ultimately show ?case using 2(1) by simp
qed simp

declare read_loop.simps [simp del]

lemma length_read_loop [simp]: "length (fst (snd (read_loop b offset buf dn))) = length buf"
proof (induction b offset buf dn rule: read_loop.induct)
  case (1 b offset buf dn)
  then show ?case by (subst read_loop.simps) (simp add: Let_def length_read_source)
qed

definition overlay_read_at :: "overlay_backend \<Rightarrow> u64 \<Rightarrow> bytes \<Rightarrow> bool \<times> bytes \<times> overlay_backend" where
  "overlay_read_at b offset buf = read_loop b offset buf 0"

definition sector_range :: "u64 \<Rightarrow> u64 \<Rightarrow> u64 list" where
  "sector_range lo hi = map of_nat [unat lo..<Suc (unat hi)]"

definition overlay_write_at :: "overlay_backend \<Rightarrow> u64 \<Rightarrow> bytes \<Rightarrow> bool \<times> overlay_backend" where
  "overlay_write_at b offset buf =
     (if buf = [] then (True, b)
      else let fin' = offset + of_nat (length buf)
           in case (if offset mod SECTOR_SIZE \<noteq> 0 then seed_sector b (offset div SECTOR_SIZE)
                    else (True, b)) of
                (ok1, b1) \<Rightarrow>
                  if \<not> ok1 then (False, b1)
                  else (case (if fin' mod SECTOR_SIZE \<noteq> 0
                              then seed_sector b1 ((fin' - 1) div SECTOR_SIZE) else (True, b1)) of
                          (ok2, b2) \<Rightarrow>
                            if \<not> ok2 then (False, b2)
                            else (case write_all_at (ov_overlay b2) offset buf of
                                    (ok3, f) \<Rightarrow>
                                      let b3 = b2\<lparr>ov_overlay := f\<rparr>
                                      in if \<not> ok3 then (False, b3)
                                         else (True, fold (\<lambda>s b. mark_written b s)
                                                 (sector_range (offset div SECTOR_SIZE)
                                                    ((fin' - 1) div SECTOR_SIZE)) b3))))"

definition overlay_flush :: "overlay_backend \<Rightarrow> bool \<times> overlay_backend" where
  "overlay_flush b =
     (case flush_to_host (ov_overlay b) of
        (ok, f) \<Rightarrow>
          let b' = b\<lparr>ov_overlay := f\<rparr>
          in if ok then (True, persist_bitmap b') else (False, b'))"

definition overlay_drop :: "overlay_backend \<Rightarrow> overlay_backend" where
  "overlay_drop b = persist_bitmap b"

definition overlay_ops :: "overlay_backend backend_ops" where
  "overlay_ops = \<lparr>be_read_at = overlay_read_at, be_write_at = overlay_write_at,
     be_flush = overlay_flush, be_nsectors = ov_nsectors\<rparr>"

subsection \<open>The bitmap\<close>

lemma is_written_bit:
  "is_written b s \<longleftrightarrow> unat (s div 64) < length (ov_written b) \<and> bit (ov_written b ! unat (s div 64)) (unat (s mod 64))"
  by (simp add: is_written_def Let_def and_one_eq bit_iff_odd_drop_bit odd_iff_mod_2_eq_one)

lemma mark_written_length [simp]: "length (ov_written (mark_written b s)) = length (ov_written b)"
  by (simp add: mark_written_def Let_def)

lemma mark_written_word:
  assumes "unat (s div 64) < length (ov_written b)"
  shows "ov_written (mark_written b s) = (ov_written b)
    [unat (s div 64) := ov_written b ! unat (s div 64) OR push_bit (unat (s mod 64)) 1]"
  using assms by (simp add: mark_written_def Let_def)

lemma mark_written_fields [simp]:
  "ov_base (mark_written b s) = ov_base b" "ov_overlay (mark_written b s) = ov_overlay b"
  "ov_nsectors (mark_written b s) = ov_nsectors b" "ov_sidecar (mark_written b s) = ov_sidecar b"
  "ov_sidecar_exists (mark_written b s) = ov_sidecar_exists b"
  "ov_bitmap_path (mark_written b s) = ov_bitmap_path b"
  "ov_bitmap_file (mark_written b s) = ov_bitmap_file b"
  "length (ov_bitmap_dirty (mark_written b s)) = length (ov_bitmap_dirty b)"
  by (simp_all add: mark_written_def Let_def)

lemma is_written_mark:
  assumes "unat (s div 64) < length (ov_written b)"
  shows "is_written (mark_written b s) t \<longleftrightarrow> is_written b t \<or> t = s"
proof (cases "unat (t div 64) = unat (s div 64)")
  case True
  have m: "unat (t mod 64) < 64" by (simp add: unat_mod)
  have "t = s \<longleftrightarrow> unat (t mod 64) = unat (s mod 64)"
    using True by (auto simp: word_unat_eq_iff unat_mod unat_div) (metis div_mult_mod_eq)
  with True assms m show ?thesis
    by (auto simp: is_written_bit mark_written_word bit_simps)
next
  case False
  then have "t \<noteq> s" by auto
  with False assms show ?thesis by (simp add: is_written_bit mark_written_word)
qed

lemma sector_at:
  assumes "unat cur + j < 2 ^ 64"
  shows "(cur + of_nat j) div SECTOR_SIZE = of_nat ((unat cur + j) div 512)"
proof -
  have j: "unat (of_nat j :: u64) = j" using assms by (simp add: unat_of_nat_lt)
  have "unat (cur + of_nat j) = unat cur + j" using unat_add_no_wrap [of cur "of_nat j"] assms j by simp
  moreover have "unat (of_nat ((unat cur + j) div 512) :: u64) = (unat cur + j) div 512"
    using assms by (intro unat_of_nat_lt) auto
  ultimately show ?thesis by (simp add: word_unat_eq_iff unat_div SECTOR_SIZE_def)
qed

subsection \<open>The overlay as a flat disk\<close>

definition ov_len :: "overlay_backend \<Rightarrow> nat" where
  "ov_len b = 512 * unat (ov_nsectors b)"

definition ov_byte :: "overlay_backend \<Rightarrow> nat \<Rightarrow> u8" where
  "ov_byte b i = (if is_written b (of_nat (i div 512)) then f_bytes (ov_overlay b) ! i else f_bytes (ov_base b) ! i)"

definition ov_content :: "overlay_backend \<Rightarrow> bytes" where
  "ov_content b = map (ov_byte b) [0..<ov_len b]"

definition ov_ok :: "overlay_backend \<Rightarrow> bool" where
  "ov_ok b \<longleftrightarrow> f_faults (ov_base b) = [] \<and> f_faults (ov_overlay b) = [] \<and>
     ov_len b \<le> length (f_bytes (ov_base b)) \<and> length (f_bytes (ov_overlay b)) = ov_len b \<and>
     ov_len b < 2 ^ 63 \<and> length (ov_written b) = bitmap_words (ov_nsectors b)"

lemma length_ov_content [simp]: "length (ov_content b) = ov_len b"
  by (simp add: ov_content_def)

lemma nth_ov_content: "i < ov_len b \<Longrightarrow> ov_content b ! i = ov_byte b i"
  by (simp add: ov_content_def)

subsection \<open>Reading\<close>

lemma sector_block:
  assumes "j < x" "x \<le> 512 - p mod 512"
  shows "(p + j) div 512 = p div (512 :: nat)"
proof -
  have "p mod 512 + j < 512" using assms mod_less_divisor [of 512 p] by linarith
  moreover have "p + j = (p mod 512 + j) + p div 512 * 512" by simp
  ultimately show ?thesis by (metis div_mult_self1 div_less add_0_right zero_neq_numeral)
qed

lemma read_run_same:
  assumes "unat cur + rem < 2 ^ 64" "run \<le> j" "j < read_run b cur from_overlay rem run"
  shows "is_written b (of_nat ((unat cur + j) div 512)) = from_overlay"
  using assms
proof (induction b cur from_overlay rem run rule: read_run.induct)
  case (1 b cur from_overlay rem run)
  let ?pos = "cur + of_nat run"
  let ?x = "min (unat (SECTOR_SIZE - ?pos mod SECTOR_SIZE)) (rem - run)"
  note unf = read_run.simps [of b cur from_overlay rem run]
  have lt: "run < rem"
  proof (rule ccontr)
    assume "\<not> run < rem"
    with unf have "read_run b cur from_overlay rem run = run" by simp
    with 1(3,4) show False by simp
  qed
  have pos: "unat ?pos = unat cur + run"
    using unat_add_no_wrap [of cur "of_nat run"] lt 1(2) by (simp add: unat_of_nat_lt)
  have sec: "?pos div SECTOR_SIZE = of_nat ((unat cur + run) div 512)" using lt 1(2) by (intro sector_at) simp
  have same: "is_written b (?pos div SECTOR_SIZE) = from_overlay"
  proof (rule ccontr)
    assume "is_written b (?pos div SECTOR_SIZE) \<noteq> from_overlay"
    with unf lt have "read_run b cur from_overlay rem run = run" by (simp add: Let_def)
    with 1(3,4) show False by simp
  qed
  show ?case
  proof (cases "j < run + ?x")
    case True
    have "unat (?pos mod SECTOR_SIZE) = (unat cur + run) mod 512" by (simp add: unat_mod SECTOR_SIZE_def pos)
    moreover have "?pos mod SECTOR_SIZE \<le> SECTOR_SIZE"
      using calculation by (simp add: word_le_nat_alt SECTOR_SIZE_def order_less_imp_le)
    ultimately have "?x \<le> 512 - (unat cur + run) mod 512" by (simp add: unat_sub SECTOR_SIZE_def)
    then have "(unat cur + run + (j - run)) div 512 = (unat cur + run) div 512"
      using True 1(3) by (intro sector_block [where x = ?x]) auto
    with 1(3) same sec show ?thesis by simp
  next
    case False
    have "read_run b cur from_overlay rem run = read_run b cur from_overlay rem (run + ?x)"
      using lt same unf by (simp add: Let_def)
    with 1(1) [OF lt refl _ 1(2)] same False 1(4) show ?thesis by simp
  qed
qed

subsection \<open>Reads of the flat disk\<close>

lemma read_source_ok:
  assumes ok: "ov_ok b" and fit: "unat cur + n \<le> ov_len b" and len: "length buf = n"
    and same: "\<And>j. j < n \<Longrightarrow> is_written b (of_nat ((unat cur + j) div 512)) = s"
  shows "read_source b s cur buf = (True, take n (drop (unat cur) (ov_content b)), b)"
proof -
  let ?f = "if s then ov_overlay b else ov_base b"
  have f: "f_faults ?f = []" "ov_len b \<le> length (f_bytes ?f)" using ok by (auto simp: ov_ok_def)
  have "take n (drop (unat cur) (f_bytes ?f)) = take n (drop (unat cur) (ov_content b))"
  proof (rule slice_eqI)
    fix i
    assume i: "unat cur \<le> i" "i < unat cur + n"
    then have "is_written b (of_nat (i div 512)) = s" using same [of "i - unat cur"] by simp
    with i fit show "f_bytes ?f ! i = ov_content b ! i" by (auto simp: nth_ov_content ov_byte_def)
  qed (use fit f(2) in auto)
  moreover have "read_exact_at ?f cur buf = (True, take n (drop (unat cur) (f_bytes ?f)), ?f)"
    using read_exact_at_ok [OF f(1), of cur buf] f(2) fit len by simp
  ultimately show ?thesis by (cases s) (simp_all add: read_source_def)
qed

lemma read_loop_ok:
  assumes "ov_ok b" "unat off + length buf \<le> ov_len b" "dn \<le> length buf"
  shows "read_loop b off buf dn =
    (True, take dn buf @ take (length buf - dn) (drop (unat off + dn) (ov_content b)), b)"
  using assms
proof (induction "length buf - dn" arbitrary: buf dn rule: less_induct)
  case less
  show ?case
  proof (cases "dn < length buf")
    case False
    with less.prems show ?thesis by (subst read_loop.simps) simp
  next
    case True
    let ?cur = "off + of_nat dn"
    let ?s = "is_written b (?cur div SECTOR_SIZE)"
    let ?run = "read_run b ?cur ?s (length buf - dn) 0"
    have big: "ov_len b < 2 ^ 63" using less.prems(1) by (simp add: ov_ok_def)
    have cur: "unat ?cur = unat off + dn"
      using unat_add_no_wrap [of off "of_nat dn"] True less.prems(2) big by (simp add: unat_of_nat_lt)
    have run: "0 < ?run" "?run \<le> length buf - dn"
      using True by (intro read_run_progress read_run_le; simp)+
    have src: "read_source b ?s ?cur (take ?run (drop dn buf)) = (True, take ?run (drop (unat ?cur) (ov_content b)), b)"
    proof (rule read_source_ok [OF less.prems(1)])
      show "unat ?cur + ?run \<le> ov_len b" using cur run(2) less.prems(2) True by linarith
      show "length (take ?run (drop dn buf)) = ?run" using run(2) by simp
      show "is_written b (of_nat ((unat ?cur + j) div 512)) = ?s" if "j < ?run" for j
        using read_run_same [of ?cur "length buf - dn" 0 j b ?s] that cur True less.prems(2) big by simp
    qed
    let ?chunk = "take ?run (drop (unat off + dn) (ov_content b))"
    let ?buf = "overwrite dn ?chunk buf"
    have lc: "length ?chunk = ?run" using run(2) less.prems(2) True by simp
    have lb: "length ?buf = length buf" using lc run(2) True by (intro length_overwrite) linarith
    have "read_loop b off buf dn = read_loop b off ?buf (dn + ?run)"
      using True src by (subst read_loop.simps) (simp add: Let_def cur)
    also have "\<dots> = (True, take (dn + ?run) ?buf @
        take (length ?buf - (dn + ?run)) (drop (unat off + (dn + ?run)) (ov_content b)), b)"
      using less.prems run lb True by (intro less.hyps) auto
    finally have step: "read_loop b off buf dn = (True, take (dn + ?run) ?buf @
        take (length buf - dn - ?run) (drop (unat off + dn + ?run) (ov_content b)), b)"
      unfolding lb by (simp only: diff_diff_left add.assoc)
    have "take (dn + ?run) ?buf = take dn buf @ ?chunk"
      using True lc by (simp add: overwrite_def)
    then show ?thesis
      unfolding step by (simp only: append_assoc slice_append [OF run(2)])
  qed
qed

lemma overlay_read_at_ok:
  assumes "ov_ok b" "unat off + length buf \<le> ov_len b"
  shows "overlay_read_at b off buf = (True, take (length buf) (drop (unat off) (ov_content b)), b)"
  using read_loop_ok [OF assms, of 0] by (simp add: overlay_read_at_def)

subsection \<open>Writing\<close>

lemma unat_sector_nat: "ov_ok b \<Longrightarrow> n < unat (ov_nsectors b) \<Longrightarrow> unat (of_nat n :: u64) = n"
  by (intro unat_of_nat_lt) (simp add: ov_ok_def ov_len_def)

lemma bitmap_bound:
  assumes "ov_ok b" "n < unat (ov_nsectors b)"
  shows "unat ((of_nat n :: u64) div 64) < length (ov_written b)"
proof -
  have "n div 64 < div_ceil (unat (ov_nsectors b)) 64"
  proof (cases "unat (ov_nsectors b) mod 64 = 0")
    case True
    with assms(2) show ?thesis by (simp add: div_ceil_def less_mult_imp_div_less mod_0_imp_dvd)
  next
    case False
    then show ?thesis using div_le_mono [of n "unat (ov_nsectors b)" 64] assms(2) by (simp add: div_ceil_def)
  qed
  then show ?thesis using assms by (simp add: unat_div unat_sector_nat ov_ok_def bitmap_words_def)
qed

lemma ov_ok_mark: "ov_ok b \<Longrightarrow> ov_ok (mark_written b s)"
  by (simp add: ov_ok_def ov_len_def)

lemma fold_mark:
  assumes "ov_ok b" "\<And>n. n \<in> set ns \<Longrightarrow> n < unat (ov_nsectors b)"
  shows "ov_ok (fold (\<lambda>s b. mark_written b s) (map of_nat ns) b) \<and>
    ov_base (fold (\<lambda>s b. mark_written b s) (map of_nat ns) b) = ov_base b \<and>
    ov_overlay (fold (\<lambda>s b. mark_written b s) (map of_nat ns) b) = ov_overlay b \<and>
    ov_nsectors (fold (\<lambda>s b. mark_written b s) (map of_nat ns) b) = ov_nsectors b \<and>
    (\<forall>t. is_written (fold (\<lambda>s b. mark_written b s) (map of_nat ns) b) t \<longleftrightarrow>
       is_written b t \<or> t \<in> of_nat ` set ns)"
  using assms
proof (induction ns arbitrary: b)
  case (Cons n ns)
  have n: "n < unat (ov_nsectors b)" using Cons.prems(2) by simp
  have "ov_ok (mark_written b (of_nat n))" using Cons.prems(1) by (rule ov_ok_mark)
  from Cons.IH [OF this] Cons.prems(2) show ?case
    using is_written_mark [OF bitmap_bound [OF Cons.prems(1) n]] by auto
qed simp

lemma seed_sector_ok:
  assumes ok: "ov_ok b" and n: "n < unat (ov_nsectors b)"
  shows "\<exists>b'. seed_sector b (of_nat n) = (True, b') \<and> ov_ok b' \<and> ov_content b' = ov_content b \<and>
    ov_nsectors b' = ov_nsectors b \<and> ov_base b' = ov_base b \<and>
    (\<forall>t. is_written b' t \<longleftrightarrow> is_written b t \<or> t = of_nat n)"
proof (cases "is_written b (of_nat n)")
  case True
  with ok show ?thesis by (auto simp: seed_sector_def)
next
  case False
  let ?off = "of_nat n * SECTOR_SIZE" and ?tmp = "take 512 (drop (512 * n) (f_bytes (ov_base b)))"
  have len: "ov_len b < 2 ^ 63" "ov_len b \<le> length (f_bytes (ov_base b))" "length (f_bytes (ov_overlay b)) = ov_len b"
    "f_faults (ov_base b) = []" "f_faults (ov_overlay b) = []" using ok by (simp_all add: ov_ok_def)
  have fin': "512 * n + 512 \<le> ov_len b" using n by (simp add: ov_len_def)
  have off: "unat ?off = 512 * n"
    using unat_mult_no_wrap [of "of_nat n" SECTOR_SIZE] unat_sector_nat [OF ok n] fin' len(1)
    by (simp add: SECTOR_SIZE_def)
  have rd: "read_exact_at (ov_base b) ?off (replicate 512 0) = (True, ?tmp, ov_base b)"
    using read_exact_at_ok [OF len(4), of ?off "replicate 512 0"] off fin' len(2) by simp
  have lt: "length ?tmp = 512" using fin' len(2) by simp
  let ?b1 = "b\<lparr>ov_overlay := (ov_overlay b)\<lparr>f_bytes := overwrite (512 * n) ?tmp (f_bytes (ov_overlay b))\<rparr>\<rparr>"
  have wr: "write_all_at (ov_overlay b) ?off ?tmp =
      (True, (ov_overlay b)\<lparr>f_bytes := overwrite (512 * n) ?tmp (f_bytes (ov_overlay b))\<rparr>)"
    using write_all_at_ok [OF len(5), of ?off ?tmp] off lt fin' len(1,3) by simp
  have ok1: "ov_ok ?b1" using ok fin' lt by (simp add: ov_ok_def ov_len_def)
  have iw: "is_written ?b1 t = is_written b t" for t by (simp add: is_written_def)
  have n1: "n < unat (ov_nsectors ?b1)" using n by simp
  note mk = is_written_mark [OF bitmap_bound [OF ok1 n1], unfolded iw]
  have "ov_byte (mark_written ?b1 (of_nat n)) i = ov_byte b i" if i: "i < ov_len b" for i
  proof (cases "i div 512 = n")
    case True
    then have "512 * n \<le> i" "i < 512 * n + 512" by auto
    then show ?thesis
      using True False i fin' len lt by (auto simp: ov_byte_def mk nth_overwrite)
  next
    case False
    then have apart: "i < 512 * n \<or> 512 * n + 512 \<le> i" by auto
    have "i div 512 < unat (ov_nsectors b)" using i by (simp add: ov_len_def less_mult_imp_div_less mult.commute)
    then have "(of_nat (i div 512) :: u64) \<noteq> of_nat n"
      using False unat_sector_nat [OF ok] n by metis
    then show ?thesis using apart i fin' len lt by (auto simp: ov_byte_def mk nth_overwrite)
  qed
  then have "ov_content (mark_written ?b1 (of_nat n)) = ov_content b"
    by (simp add: ov_content_def ov_len_def)
  moreover have "seed_sector b (of_nat n) = (True, mark_written ?b1 (of_nat n))"
    using False rd wr by (simp add: seed_sector_def Let_def)
  ultimately show ?thesis using ov_ok_mark [OF ok1] mk by auto
qed


lemma seed_if_ok:
  assumes "ov_ok b" "c \<Longrightarrow> n < unat (ov_nsectors b)"
  shows "\<exists>b'. (if c then seed_sector b (of_nat n) else (True, b)) = (True, b') \<and> ov_ok b' \<and>
    ov_content b' = ov_content b \<and> ov_nsectors b' = ov_nsectors b \<and> ov_base b' = ov_base b \<and>
    (\<forall>t. is_written b' t \<longleftrightarrow> is_written b t \<or> c \<and> t = of_nat n)"
  using seed_sector_ok [OF assms(1)] assms by (cases c) auto

lemma edge_sector:
  assumes "off div 512 \<le> i div 512" "i div 512 \<le> (off + len - 1) div 512" "0 < (len :: nat)"
  shows "i < off \<Longrightarrow> i div 512 = off div 512 \<and> off mod 512 \<noteq> 0"
    and "off + len \<le> i \<Longrightarrow> i div 512 = (off + len - 1) div 512 \<and> (off + len) mod 512 \<noteq> 0"
proof -
  have m: "x mod 512 = 0 \<Longrightarrow> x = 512 * (x div 512)" for x :: nat by auto
  show "i div 512 = off div 512 \<and> off mod 512 \<noteq> 0" if "i < off"
  proof -
    have eq: "i div 512 = off div 512" using assms(1) that div_le_mono [of i off 512] by simp
    have "512 * (i div 512) < off" using times_div_less_eq_dividend [of 512 i] that by (rule order_le_less_trans)
    with eq m [of off] show ?thesis by auto
  qed
  show "i div 512 = (off + len - 1) div 512 \<and> (off + len) mod 512 \<noteq> 0" if "off + len \<le> i"
  proof -
    have eq: "i div 512 = (off + len - 1) div 512"
      using assms(2) that div_le_mono [of "off + len - 1" i 512] by simp
    have "(off + len) div 512 \<le> i div 512" using that by (intro div_le_mono)
    then have "512 * ((off + len) div 512) \<le> 512 * ((off + len - 1) div 512)" using eq by simp
    also have "\<dots> \<le> off + len - 1" by (rule times_div_less_eq_dividend)
    also have "\<dots> < off + len" using assms(3) by simp
    finally show ?thesis using eq m [of "off + len"] by auto
  qed
qed

text \<open>Writing inside the overlay and marking, with the partly covered sectors already there.\<close>

lemma write_marked:
  assumes ok: "ov_ok b" and fit: "off + length buf \<le> ov_len b"
    and ns: "ns = [off div 512..<Suc ((off + length buf - 1) div 512)]" and ne: "buf \<noteq> []"
    and first: "off mod 512 \<noteq> 0 \<Longrightarrow> is_written b (of_nat (off div 512))"
    and last: "(off + length buf) mod 512 \<noteq> 0 \<Longrightarrow> is_written b (of_nat ((off + length buf - 1) div 512))"
    and b3: "b3 = b\<lparr>ov_overlay := (ov_overlay b)\<lparr>f_bytes := overwrite off buf (f_bytes (ov_overlay b))\<rparr>\<rparr>"
  shows "ov_ok (fold (\<lambda>s b. mark_written b s) (map of_nat ns) b3) \<and>
    ov_base (fold (\<lambda>s b. mark_written b s) (map of_nat ns) b3) = ov_base b \<and>
    ov_content (fold (\<lambda>s b. mark_written b s) (map of_nat ns) b3) = overwrite off buf (ov_content b)"
proof -
  let ?b' = "fold (\<lambda>s b. mark_written b s) (map of_nat ns) b3"
  have lo: "length (f_bytes (ov_overlay b)) = ov_len b" using ok by (simp add: ov_ok_def)
  have ok3: "ov_ok b3" using ok fit lo by (simp add: ov_ok_def ov_len_def b3)
  have sec: "i < ov_len b \<Longrightarrow> i div 512 < unat (ov_nsectors b)" for i
    by (simp add: ov_len_def less_mult_imp_div_less mult.commute)
  have "off + length buf - 1 < ov_len b" using fit ne by (cases buf) auto
  from sec [OF this] have le: "n < unat (ov_nsectors b3)" if "n \<in> set ns" for n
    using that ns b3 by (auto simp: less_Suc_eq_le intro: order_le_less_trans)
  note f = fold_mark [OF ok3, of ns, OF le]
  have inj: "inj_on (of_nat :: nat \<Rightarrow> u64) {..<unat (ov_nsectors b)}"
    by (rule inj_on_inverseI [of _ unat]) (simp add: unat_sector_nat [OF ok])
  have iw: "is_written b3 t = is_written b t" for t by (simp add: is_written_def b3)
  have "ov_content ?b' ! i = overwrite off buf (ov_content b) ! i" if i: "i < ov_len b" for i
  proof -
    have mem: "(of_nat (i div 512) :: u64) \<in> of_nat ` set ns \<longleftrightarrow> i div 512 \<in> set ns"
      using inj sec [OF i] le b3 by (intro inj_on_image_mem_iff) auto
    have byte: "ov_content ?b' ! i = (if is_written b (of_nat (i div 512)) \<or> i div 512 \<in> set ns
        then overwrite off buf (f_bytes (ov_overlay b)) ! i else f_bytes (ov_base b) ! i)"
      using f i mem iw b3 by (simp add: nth_ov_content ov_byte_def ov_len_def)
    show ?thesis
    proof (cases "off \<le> i \<and> i < off + length buf")
      case True
      then have "i div 512 \<in> set ns" using ns by (auto simp: less_Suc_eq_le intro!: div_le_mono)
      with byte True i fit lo show ?thesis by (simp add: nth_overwrite)
    next
      case False
      have "is_written b (of_nat (i div 512))" if h: "i div 512 \<in> set ns"
      proof -
        have r: "off div 512 \<le> i div 512" "i div 512 \<le> (off + length buf - 1) div 512" "0 < length buf"
          using h ns ne by (simp_all add: less_Suc_eq_le del: upt_Suc)
        note e = edge_sector [OF r]
        show ?thesis
        proof (cases "i < off")
          case True
          then show ?thesis using e(1) first by simp
        next
          case out: False
          then show ?thesis using e(2) last False by simp
        qed
      qed
      with byte False i fit lo show ?thesis by (auto simp: nth_overwrite nth_ov_content ov_byte_def)
    qed
  qed
  moreover have "length (ov_content ?b') = ov_len b" using f b3 by (simp add: ov_len_def)
  ultimately have "ov_content ?b' = overwrite off buf (ov_content b)"
    using fit by (intro nth_equalityI) simp_all
  with f b3 show ?thesis by simp
qed

lemma overlay_write_at_ok:
  assumes ok: "ov_ok b" and fit: "unat off + length buf \<le> ov_len b"
  shows "\<exists>b'. overlay_write_at b off buf = (True, b') \<and> ov_ok b' \<and> ov_base b' = ov_base b \<and>
    ov_content b' = overwrite (unat off) buf (ov_content b)"
proof (cases "buf = []")
  case True
  with ok show ?thesis by (simp add: overlay_write_at_def)
next
  case False
  let ?e = "unat off + length buf" and ?fin = "off + of_nat (length buf)"
  have big: "ov_len b < 2 ^ 63" using ok by (simp add: ov_ok_def)
  have len: "unat (of_nat (length buf) :: u64) = length buf" using fit big by (intro unat_of_nat_lt) simp
  have e: "unat ?fin = ?e" using unat_add_no_wrap [of off "of_nat (length buf)"] fit big len by simp
  have "0 < ?e" using False by simp
  then have "?fin \<noteq> 0" using e by (metis unat_0 less_irrefl)
  then have e1: "unat (?fin - 1) = ?e - 1" using e by (simp add: unat_minus_one)
  have s1: "off div SECTOR_SIZE = of_nat (unat off div 512)"
    using sector_at [of off 0] unsigned_less [of off] by simp
  have s2: "(?fin - 1) div SECTOR_SIZE = of_nat ((?e - 1) div 512)"
    using sector_at [of "?fin - 1" 0] e1 fit big by simp
  have sec: "i < ov_len b \<Longrightarrow> i div 512 < unat (ov_nsectors b)" for i
    by (simp add: ov_len_def less_mult_imp_div_less mult.commute)
  have i1: "unat off div 512 < unat (ov_nsectors b)" "(?e - 1) div 512 < unat (ov_nsectors b)"
    using fit False by (intro sec; cases buf; simp)+
  have m: "off mod SECTOR_SIZE \<noteq> 0 \<longleftrightarrow> unat off mod 512 \<noteq> 0" "?fin mod SECTOR_SIZE \<noteq> 0 \<longleftrightarrow> ?e mod 512 \<noteq> 0"
    using e by (simp_all add: word_unat_eq_iff unat_mod SECTOR_SIZE_def)
  obtain b1 where b1: "(if off mod SECTOR_SIZE \<noteq> 0 then seed_sector b (off div SECTOR_SIZE) else (True, b)) = (True, b1)"
    "ov_ok b1" "ov_content b1 = ov_content b" "ov_nsectors b1 = ov_nsectors b" "ov_base b1 = ov_base b"
    "\<And>t. is_written b1 t \<longleftrightarrow> is_written b t \<or> off mod SECTOR_SIZE \<noteq> 0 \<and> t = of_nat (unat off div 512)"
    using seed_if_ok [OF ok, of "off mod SECTOR_SIZE \<noteq> 0" "unat off div 512"] i1(1) unfolding s1 by blast
  obtain b2 where b2: "(if ?fin mod SECTOR_SIZE \<noteq> 0 then seed_sector b1 ((?fin - 1) div SECTOR_SIZE) else (True, b1)) = (True, b2)"
    "ov_ok b2" "ov_content b2 = ov_content b1" "ov_nsectors b2 = ov_nsectors b1" "ov_base b2 = ov_base b1"
    "\<And>t. is_written b2 t \<longleftrightarrow> is_written b1 t \<or> ?fin mod SECTOR_SIZE \<noteq> 0 \<and> t = of_nat ((?e - 1) div 512)"
    using seed_if_ok [OF b1(2), of "?fin mod SECTOR_SIZE \<noteq> 0" "(?e - 1) div 512"] i1(2) b1(4) unfolding s2 by metis
  have fit2: "?e \<le> ov_len b2" using fit b1(4) b2(4) by (simp add: ov_len_def)
  have wr: "write_all_at (ov_overlay b2) off buf =
      (True, (ov_overlay b2)\<lparr>f_bytes := overwrite (unat off) buf (f_bytes (ov_overlay b2))\<rparr>)"
    using b2(2) fit2 by (intro write_all_at_ok) (auto simp: ov_ok_def)
  have rng: "sector_range (off div SECTOR_SIZE) ((?fin - 1) div SECTOR_SIZE) =
      map of_nat [unat off div 512..<Suc ((?e - 1) div 512)]"
    using i1 ok unfolding sector_range_def s1 s2 by (simp add: unat_sector_nat del: upt_Suc)
  let ?b3 = "b2\<lparr>ov_overlay := (ov_overlay b2)\<lparr>f_bytes := overwrite (unat off) buf (f_bytes (ov_overlay b2))\<rparr>\<rparr>"
  note w = write_marked [OF b2(2) fit2 refl False _ _ refl]
  have "overlay_write_at b off buf = (True, fold (\<lambda>s b. mark_written b s)
      (map of_nat [unat off div 512..<Suc ((?e - 1) div 512)]) ?b3)"
    using False b1(1) b2(1) wr rng by (simp add: overlay_write_at_def Let_def del: upt_Suc)
  moreover have "is_written b2 (of_nat (unat off div 512))" if "unat off mod 512 \<noteq> 0"
    using that b1(6) b2(6) m(1) by blast
  moreover have "is_written b2 (of_nat ((?e - 1) div 512))" if "?e mod 512 \<noteq> 0"
    using that b2(6) m(2) by blast
  ultimately show ?thesis using w b1(3,5) b2(3,5) by (simp del: upt_Suc)
qed

subsection \<open>Persisting the bitmap\<close>

lemma persist_chunks_fields [simp]:
  "ov_base (persist_chunks b cs) = ov_base b" "ov_overlay (persist_chunks b cs) = ov_overlay b"
  "ov_nsectors (persist_chunks b cs) = ov_nsectors b" "ov_written (persist_chunks b cs) = ov_written b"
  by (induction b cs rule: persist_chunks.induct) (auto split: prod.split)

lemma open_sidecar_fields [simp]:
  "ov_base (snd (open_sidecar b)) = ov_base b" "ov_overlay (snd (open_sidecar b)) = ov_overlay b"
  "ov_nsectors (snd (open_sidecar b)) = ov_nsectors b" "ov_written (snd (open_sidecar b)) = ov_written b"
  by (auto simp: open_sidecar_def Let_def split: prod.split)

lemma persist_bitmap_fields [simp]:
  "ov_base (persist_bitmap b) = ov_base b" "ov_overlay (persist_bitmap b) = ov_overlay b"
  "ov_nsectors (persist_bitmap b) = ov_nsectors b" "ov_written (persist_bitmap b) = ov_written b"
  by (cases "open_sidecar b"; use open_sidecar_fields [of b] in \<open>simp add: persist_bitmap_def\<close>)+

lemma ov_content_cong:
  "ov_base b = ov_base b' \<Longrightarrow> ov_overlay b = ov_overlay b' \<Longrightarrow> ov_nsectors b = ov_nsectors b' \<Longrightarrow>
   ov_written b = ov_written b' \<Longrightarrow> ov_content b = ov_content b' \<and> (ov_ok b \<longleftrightarrow> ov_ok b')"
  by (simp add: ov_content_def ov_byte_def ov_len_def ov_ok_def is_written_def)

interpretation overlayb: block_backend overlay_ops ov_content ov_ok
proof (unfold_locales, goal_cases)
  case (1 b off buf)
  then show ?case by (simp add: overlay_ops_def overlay_read_at_ok)
next
  case (2 b off buf)
  then show ?case using overlay_write_at_ok [of b off buf] by (auto simp: overlay_ops_def)
next
  case (3 b)
  then have f: "flush_to_host (ov_overlay b) = (True, ov_overlay b)" by (simp add: ov_ok_def flush_to_host_def)
  with 3 show ?case using ov_content_cong [of "persist_bitmap b" b]
    by (simp add: overlay_ops_def overlay_flush_def)
next
  case (4 b)
  then show ?case by (simp add: ov_ok_def)
qed

subsection \<open>The sidecar mirrors the bitmap\<close>

definition bitmap_enc :: "u64 list \<Rightarrow> bytes" where
  "bitmap_enc ws = concat (map le_bytes ws)"

lemma length_bitmap_enc [simp]: "length (bitmap_enc ws) = 8 * length ws"
  by (induction ws) (simp_all add: bitmap_enc_def)

lemma drop_bitmap_enc: "drop (8 * k) (bitmap_enc ws) = bitmap_enc (drop k ws)"
proof (induction ws arbitrary: k)
  case (Cons w ws)
  then show ?case by (cases k) (simp_all add: bitmap_enc_def)
qed (simp add: bitmap_enc_def)

lemma take_bitmap_enc: "take (8 * k) (bitmap_enc ws) = bitmap_enc (take k ws)"
proof (induction ws arbitrary: k)
  case (Cons w ws)
  then show ?case by (cases k) (simp_all add: bitmap_enc_def)
qed (simp add: bitmap_enc_def)

lemma chunks8_bitmap_enc: "chunks8 (bitmap_enc ws) = ws"
proof (induction ws)
  case (Cons w ws)
  have "length (le_bytes w) = 8" by simp
  then obtain a b c d e f g h where w: "le_bytes w = [a, b, c, d, e, f, g, h]"
    by (auto simp: length_Suc_conv numeral_eq_Suc simp del: length_le_bytes)
  have "of_le_bytes (le_bytes w) = w" by (rule le64.dec_enc)
  with w Cons show ?case by (simp add: bitmap_enc_def)
qed (simp add: bitmap_enc_def)

lemma nth_bitmap_enc: "i < 8 * length ws \<Longrightarrow> bitmap_enc ws ! i = le_bytes (ws ! (i div 8)) ! (i mod 8)"
proof -
  assume i: "i < 8 * length ws"
  then have k: "i div 8 < length ws" by (simp add: less_mult_imp_div_less mult.commute)
  have "bitmap_enc ws ! i = drop (8 * (i div 8)) (bitmap_enc ws) ! (i mod 8)"
    using i by simp
  also have "\<dots> = bitmap_enc (ws ! (i div 8) # drop (Suc (i div 8)) ws) ! (i mod 8)"
    using k by (simp add: drop_bitmap_enc Cons_nth_drop_Suc)
  also have "\<dots> = le_bytes (ws ! (i div 8)) ! (i mod 8)"
    by (simp add: bitmap_enc_def nth_append)
  finally show ?thesis .
qed

definition side_bytes :: "overlay_backend \<Rightarrow> bytes" where
  "side_bytes b = (if ov_sidecar_exists b then f_bytes (ov_sidecar b) else replicate (8 * length (ov_written b)) 0)"

text \<open>Every clean chunk of the sidecar, an absent one counting as zeroes, holds the bitmap's bytes.\<close>

definition side_ok :: "overlay_backend \<Rightarrow> bool" where
  "side_ok b \<longleftrightarrow> ov_bitmap_path b \<and> f_faults (ov_sidecar b) = [] \<and>
     (ov_bitmap_file b \<longrightarrow> ov_sidecar_exists b) \<and> (\<not> ov_sidecar_exists b \<longrightarrow> f_bytes (ov_sidecar b) = []) \<and>
     length (side_bytes b) = 8 * length (ov_written b) \<and> 8 * length (ov_written b) < 2 ^ 63 \<and>
     length (ov_bitmap_dirty b) = div_ceil (length (ov_written b)) BITMAP_CHUNK_WORDS \<and>
     (\<forall>i < 8 * length (ov_written b). \<not> ov_bitmap_dirty b ! (i div 4096) \<longrightarrow>
        side_bytes b ! i = bitmap_enc (ov_written b) ! i)"

lemma side_ok_clean:
  assumes "side_ok b" "\<And>i. i < 8 * length (ov_written b) \<Longrightarrow> \<not> ov_bitmap_dirty b ! (i div 4096)"
  shows "side_bytes b = bitmap_enc (ov_written b)"
  using assms by (intro nth_equalityI) (auto simp: side_ok_def)

lemma chunk_index: "i < 8 * n \<Longrightarrow> i div 4096 < div_ceil n BITMAP_CHUNK_WORDS"
proof -
  assume i: "i < 8 * n"
  have "i div 4096 = i div 8 div 512" by (simp add: div_mult2_eq [symmetric])
  moreover have "i div 8 < n" using i by (simp add: less_mult_imp_div_less mult.commute)
  moreover have "k div 512 < div_ceil n 512" if "k < n" for k
  proof (cases "n mod 512 = 0")
    case True
    with that show ?thesis by (simp add: div_ceil_def less_mult_imp_div_less mod_0_imp_dvd)
  next
    case False
    then show ?thesis using div_le_mono [of k n 512] that by (simp add: div_ceil_def)
  qed
  ultimately show ?thesis by (simp add: BITMAP_CHUNK_WORDS_def BITMAP_CHUNK_BYTES_def)
qed

lemma side_ok_mark: "side_ok b \<Longrightarrow> side_ok (mark_written b s)"
proof -
  assume so: "side_ok b"
  let ?w = "unat (s div 64)" and ?b' = "mark_written b s"
  have sb: "side_bytes ?b' = side_bytes b" by (simp add: side_bytes_def)
  have "side_bytes ?b' ! i = bitmap_enc (ov_written ?b') ! i"
    if i: "i < 8 * length (ov_written b)" and clean: "\<not> ov_bitmap_dirty ?b' ! (i div 4096)" for i
  proof -
    have ci: "i div 4096 < length (ov_bitmap_dirty b)" using so chunk_index [OF i] by (simp add: side_ok_def)
    have eq: "i div 4096 = i div 8 div 512" by (simp add: div_mult2_eq [symmetric])
    have d: "\<not> ov_bitmap_dirty b ! (i div 4096)" "ov_written ?b' ! (i div 8) = ov_written b ! (i div 8)"
      using clean ci eq
      by (auto simp: mark_written_def Let_def nth_list_update BITMAP_CHUNK_WORDS_def BITMAP_CHUNK_BYTES_def
          split: if_splits)
    with so i show ?thesis unfolding sb by (simp add: side_ok_def nth_bitmap_enc)
  qed
  with so show ?thesis by (simp add: side_ok_def sb)
qed

lemma side_ok_cong:
  assumes "side_ok b" "ov_bitmap_path b' = ov_bitmap_path b" "ov_sidecar b' = ov_sidecar b"
    "ov_sidecar_exists b' = ov_sidecar_exists b" "ov_bitmap_file b' = ov_bitmap_file b"
    "ov_written b' = ov_written b" "ov_bitmap_dirty b' = ov_bitmap_dirty b"
  shows "side_ok b'"
proof -
  have "side_bytes b' = side_bytes b" using assms by (simp add: side_bytes_def)
  with assms show ?thesis by (simp add: side_ok_def)
qed

lemma side_ok_fold: "side_ok b \<Longrightarrow> side_ok (fold (\<lambda>s b. mark_written b s) ss b)"
  by (induction ss arbitrary: b) (auto intro: side_ok_mark)

lemma side_ok_files: "side_ok b \<Longrightarrow> side_ok (b\<lparr>ov_base := f\<rparr>)" "side_ok b \<Longrightarrow> side_ok (b\<lparr>ov_overlay := f\<rparr>)"
  by (erule side_ok_cong; simp)+

lemma side_ok_seed: "side_ok b \<Longrightarrow> side_ok (snd (seed_sector b s))"
  by (simp add: seed_sector_def Let_def side_ok_files side_ok_mark split: prod.split)

lemma side_ok_write:
  assumes "side_ok b"
  shows "side_ok (snd (overlay_write_at b off buf))"
proof -
  let ?fin = "off + of_nat (length buf)"
  obtain ok1 b1 where e1: "(if off mod SECTOR_SIZE \<noteq> 0 then seed_sector b (off div SECTOR_SIZE) else (True, b)) = (ok1, b1)"
    by (cases "if off mod SECTOR_SIZE \<noteq> 0 then seed_sector b (off div SECTOR_SIZE) else (True, b)") 
  have s1: "side_ok b1" using assms e1 side_ok_seed [of b "off div SECTOR_SIZE"] by (simp split: if_splits)
  obtain ok2 b2 where e2: "(if ?fin mod SECTOR_SIZE \<noteq> 0 then seed_sector b1 ((?fin - 1) div SECTOR_SIZE) else (True, b1)) = (ok2, b2)"
    by (cases "if ?fin mod SECTOR_SIZE \<noteq> 0 then seed_sector b1 ((?fin - 1) div SECTOR_SIZE) else (True, b1)")
  have s2: "side_ok b2" using s1 e2 side_ok_seed [of b1 "(?fin - 1) div SECTOR_SIZE"] by (simp split: if_splits)
  show ?thesis
    unfolding overlay_write_at_def Let_def e1 e2 using assms s1 s2
    by (simp add: e2 side_ok_files side_ok_fold split: prod.split)
qed

lemma chunk_words: "c * BITMAP_CHUNK_WORDS = c * 512" "(c + 1) * BITMAP_CHUNK_WORDS = c * 512 + 512"
  by (simp_all add: BITMAP_CHUNK_WORDS_def BITMAP_CHUNK_BYTES_def)

lemma div_ceil_less:
  assumes "c < div_ceil n 512"
  shows "c * 512 < n"
proof -
  note split = mult_div_mod_eq [of 512 n]
  show ?thesis
  proof (cases "n mod 512 = 0")
    case True
    with assms have "c < n div 512" by (simp add: div_ceil_def)
    with split True show ?thesis by linarith
  next
    case False
    with assms have "c \<le> n div 512" by (simp add: div_ceil_def)
    with split False show ?thesis by linarith
  qed
qed

lemma chunk_bytes_enc:
  "chunk_bytes ws c = take (8 * (min (c * 512 + 512) (length ws) - c * 512)) (drop (4096 * c) (bitmap_enc ws))"
proof -
  have "drop (4096 * c) (bitmap_enc ws) = bitmap_enc (drop (c * 512) ws)"
    using drop_bitmap_enc [of "c * 512" ws] by (simp add: mult.commute)
  then show ?thesis
    unfolding chunk_bytes_def Let_def chunk_words by (simp only: take_bitmap_enc) (simp only: bitmap_enc_def distrib_right mult_1)
qed

lemma side_ok_chunk:
  assumes so: "side_ok b" and ex: "ov_sidecar_exists b" and c: "c < length (ov_bitmap_dirty b)"
  shows "\<exists>side. write_all_at (ov_sidecar b) (of_nat (c * BITMAP_CHUNK_WORDS * 8)) (chunk_bytes (ov_written b) c) = (True, side) \<and>
    side_ok (b\<lparr>ov_sidecar := side, ov_bitmap_dirty := (ov_bitmap_dirty b)[c := False]\<rparr>)"
proof -
  let ?n = "length (ov_written b)" and ?ch = "chunk_bytes (ov_written b) c"
  have side: "f_faults (ov_sidecar b) = []" "length (f_bytes (ov_sidecar b)) = 8 * ?n" "8 * ?n < 2 ^ 63"
    "side_bytes b = f_bytes (ov_sidecar b)"
    using so ex by (simp_all add: side_ok_def side_bytes_def)
  have lo: "c * 512 < ?n"
  proof -
    have "c < div_ceil ?n 512" using so c by (simp add: side_ok_def chunk_words BITMAP_CHUNK_WORDS_def BITMAP_CHUNK_BYTES_def)
    then show ?thesis by (rule div_ceil_less)
  qed
  have lc: "length ?ch = 8 * (min (c * 512 + 512) ?n - c * 512)" using lo by (simp add: chunk_bytes_enc)
  have fin': "4096 * c + length ?ch \<le> 8 * ?n" using lc lo min.cobounded2 [of "c * 512 + 512" ?n] by linarith
  have off: "unat (of_nat (c * BITMAP_CHUNK_WORDS * 8) :: u64) = 4096 * c"
    using lo side(3) by (subst unat_of_nat_lt) (simp_all add: chunk_words)
  let ?side = "(ov_sidecar b)\<lparr>f_bytes := overwrite (4096 * c) ?ch (f_bytes (ov_sidecar b))\<rparr>"
  have wr: "write_all_at (ov_sidecar b) (of_nat (c * BITMAP_CHUNK_WORDS * 8)) ?ch = (True, ?side)"
    using write_all_at_ok [OF side(1), of "of_nat (c * BITMAP_CHUNK_WORDS * 8)" ?ch] off fin' side by simp
  have "overwrite (4096 * c) ?ch (f_bytes (ov_sidecar b)) ! i = bitmap_enc (ov_written b) ! i"
    if i: "i < 8 * ?n" and cl: "\<not> (ov_bitmap_dirty b)[c := False] ! (i div 4096)" for i
  proof (cases "i div 4096 = c")
    case True
    then have "4096 * c \<le> i" "i < 4096 * c + 4096" by auto
    moreover from this have r: "i - 4096 * c < length ?ch" using lc i by (auto simp: min_def)
    moreover have "?ch ! (i - 4096 * c) = bitmap_enc (ov_written b) ! i"
      using r lc calculation(1) i by (simp add: chunk_bytes_enc)
    moreover have "i < 4096 * c + length ?ch" using r by linarith
    ultimately show ?thesis using i fin' side(2) by (simp add: nth_overwrite)
  next
    case False
    then have "i < 4096 * c \<or> 4096 * c + 4096 \<le> i" by auto
    then have "\<not> (4096 * c \<le> i \<and> i < 4096 * c + length ?ch)" using lc by (auto simp: min_def)
    moreover have "\<not> ov_bitmap_dirty b ! (i div 4096)" using cl False by simp
    ultimately show ?thesis using i fin' side so by (auto simp: nth_overwrite side_ok_def)
  qed
  then have "side_ok (b\<lparr>ov_sidecar := ?side, ov_bitmap_dirty := (ov_bitmap_dirty b)[c := False]\<rparr>)"
    using so ex fin' side(2) by (simp add: side_ok_def side_bytes_def)
  with wr show ?thesis by blast
qed

lemma persist_chunks_ok:
  assumes "side_ok b" "ov_sidecar_exists b" "\<forall>c \<in> set cs. c < length (ov_bitmap_dirty b)"
  shows "side_ok (persist_chunks b cs) \<and> ov_sidecar_exists (persist_chunks b cs) \<and>
    length (ov_bitmap_dirty (persist_chunks b cs)) = length (ov_bitmap_dirty b) \<and>
    (\<forall>c < length (ov_bitmap_dirty b). ov_bitmap_dirty (persist_chunks b cs) ! c \<longrightarrow>
       ov_bitmap_dirty b ! c \<and> c \<notin> set cs)"
  using assms
proof (induction cs arbitrary: b)
  case (Cons c cs)
  show ?case
  proof (cases "ov_bitmap_dirty b ! c")
    case False
    with Cons.IH [OF Cons.prems(1,2)] Cons.prems(3) show ?thesis by auto
  next
    case True
    obtain side where w: "write_all_at (ov_sidecar b) (of_nat (c * BITMAP_CHUNK_WORDS * 8)) (chunk_bytes (ov_written b) c) = (True, side)"
      and so: "side_ok (b\<lparr>ov_sidecar := side, ov_bitmap_dirty := (ov_bitmap_dirty b)[c := False]\<rparr>)"
      using side_ok_chunk [OF Cons.prems(1,2), of c] Cons.prems(3) by auto
    have p: "persist_chunks b (c # cs) =
        persist_chunks (b\<lparr>ov_sidecar := side, ov_bitmap_dirty := (ov_bitmap_dirty b)[c := False]\<rparr>) cs"
      using True w by simp
    show ?thesis unfolding p using Cons.IH [OF so] Cons.prems(2,3)
      by (auto simp: nth_list_update split: if_splits)
  qed
qed simp

lemma open_sidecar_ok:
  assumes so: "side_ok b"
  shows "fst (open_sidecar b) \<and> side_ok (snd (open_sidecar b)) \<and> ov_sidecar_exists (snd (open_sidecar b)) \<and>
    ov_bitmap_dirty (snd (open_sidecar b)) = ov_bitmap_dirty b"
proof (cases "ov_sidecar_exists b")
  case True
  with so have "length (f_bytes (ov_sidecar b)) = 8 * length (ov_written b)" "f_faults (ov_sidecar b) = []"
    by (simp_all add: side_ok_def side_bytes_def)
  then have "open_sidecar b = (True, b\<lparr>ov_sidecar_exists := True, ov_bitmap_file := True\<rparr>)"
    by (simp add: open_sidecar_def)
  with so True show ?thesis by (simp add: side_ok_def side_bytes_def)
next
  case False
  let ?n = "8 * length (ov_written b)"
  have side: "f_bytes (ov_sidecar b) = []" "f_faults (ov_sidecar b) = []" "?n < 2 ^ 63"
    "side_bytes b = replicate ?n 0" using so False by (simp_all add: side_ok_def side_bytes_def)
  have u: "unat (of_nat ?n :: u64) = ?n" using side(3) by (intro unat_of_nat_lt) simp
  have "set_len (ov_sidecar b) (of_nat ?n) = (True, (ov_sidecar b)\<lparr>f_bytes := replicate ?n 0\<rparr>)"
    using side(1,2) u by (simp add: set_len_def extend_to_def)
  then have "open_sidecar b = (True, b\<lparr>ov_sidecar := (ov_sidecar b)\<lparr>f_bytes := replicate ?n 0\<rparr>,
      ov_sidecar_exists := True, ov_bitmap_file := True\<rparr>)"
    using side(1,2) by (auto simp: open_sidecar_def mult.commute)
  with so side(4) show ?thesis by (simp add: side_ok_def side_bytes_def)
qed

lemma persist_bitmap_ok:
  assumes so: "side_ok b"
  shows "side_ok (persist_bitmap b) \<and> side_bytes (persist_bitmap b) = bitmap_enc (ov_written b)"
proof (cases "True \<in> set (ov_bitmap_dirty b)")
  case False
  have p: "persist_bitmap b = b" using False by (simp add: persist_bitmap_def)
  have "\<not> ov_bitmap_dirty b ! (i div 4096)" if i: "i < 8 * length (ov_written b)" for i
  proof -
    have "i div 4096 < length (ov_bitmap_dirty b)" using chunk_index [OF i] so by (simp add: side_ok_def)
    then have "ov_bitmap_dirty b ! (i div 4096) \<in> set (ov_bitmap_dirty b)" by (rule nth_mem)
    with False show ?thesis by metis
  qed
  then show ?thesis using side_ok_clean [OF so] so p by simp
next
  case True
  define b' where "b' = (if ov_bitmap_file b then b else snd (open_sidecar b))"
  have b': "side_ok b'" "ov_sidecar_exists b'" "ov_bitmap_dirty b' = ov_bitmap_dirty b"
    "ov_written b' = ov_written b"
    using open_sidecar_ok [OF so] so by (simp_all add: b'_def side_ok_def)
  have p: "persist_bitmap b = persist_chunks b' [0..<length (ov_bitmap_dirty b')]"
    using True so open_sidecar_ok [OF so]
    by (cases "open_sidecar b") (simp add: persist_bitmap_def b'_def side_ok_def)
  note q = persist_chunks_ok [OF b'(1,2), of "[0..<length (ov_bitmap_dirty b')]"]
  have so': "side_ok (persist_bitmap b)" using q unfolding p by simp
  have "\<not> ov_bitmap_dirty (persist_bitmap b) ! (i div 4096)" if i: "i < 8 * length (ov_written (persist_bitmap b))" for i
    using chunk_index [OF i] so' q unfolding p by (auto simp: side_ok_def)
  from side_ok_clean [OF so' this] so' show ?thesis by simp
qed


lemma bitmap_enc_zero: "bitmap_enc (replicate n 0) = replicate (8 * n) 0"
proof -
  have "le_bytes (0 :: u64) = replicate 8 0" by (simp add: le_bytes_def map_replicate_const)
  then show ?thesis by (induction n) (simp_all add: bitmap_enc_def flip: replicate_add)
qed

lemma enc_zero: "bitmap_enc ws = replicate (8 * length ws) 0 \<Longrightarrow> w \<in> set ws \<Longrightarrow> w = 0"
proof -
  assume w: "w \<in> set ws" and "bitmap_enc ws = replicate (8 * length ws) 0"
  then have "chunks8 (bitmap_enc ws) = chunks8 (bitmap_enc (replicate (length ws) 0))"
    by (simp only: bitmap_enc_zero)
  then have "ws = replicate (length ws) 0" by (simp only: chunks8_bitmap_enc)
  with w show ?thesis by (metis in_set_replicate)
qed

lemma set_len_same:
  assumes "ov_ok b"
  shows "set_len (ov_overlay b) (sat_mul (ov_nsectors b) SECTOR_SIZE) = (True, ov_overlay b)"
    and "unat (sat_mul (ov_nsectors b) SECTOR_SIZE) = ov_len b"
proof -
  show u: "unat (sat_mul (ov_nsectors b) SECTOR_SIZE) = ov_len b"
    using assms by (simp add: unat_sat_mul ov_ok_def ov_len_def SECTOR_SIZE_def mult.commute)
  show "set_len (ov_overlay b) (sat_mul (ov_nsectors b) SECTOR_SIZE) = (True, ov_overlay b)"
    using assms unfolding set_len_def u by (simp add: ov_ok_def extend_to_id)
qed

lemma content_unwritten:
  assumes "ov_ok b" "\<And>t. \<not> is_written b t"
  shows "ov_content b = take (ov_len b) (f_bytes (ov_base b))"
  using assms by (intro nth_equalityI) (auto simp: nth_ov_content ov_byte_def ov_ok_def)

lemma resume_persisted:
  assumes ok: "ov_ok b" and so: "side_ok b" and enc: "side_bytes b = bitmap_enc (ov_written b)"
  shows "\<exists>b'. overlay_resume (ov_base b) (ov_overlay b) (ov_sidecar b) (ov_sidecar_exists b) (ov_nsectors b) = Some b' \<and>
    ov_ok b' \<and> side_ok b' \<and> ov_content b' = ov_content b"
proof (cases "ov_sidecar_exists b")
  case True
  have side: "f_bytes (ov_sidecar b) = bitmap_enc (ov_written b)" "f_faults (ov_sidecar b) = []"
    using so enc True by (simp_all add: side_ok_def side_bytes_def)
  have words: "length (ov_written b) = bitmap_words (ov_nsectors b)" using ok by (simp add: ov_ok_def)
  let ?b' = "\<lparr>ov_base = ov_base b, ov_overlay = ov_overlay b, ov_nsectors = ov_nsectors b,
      ov_written = ov_written b, ov_bitmap_path = True, ov_sidecar = ov_sidecar b, ov_sidecar_exists = True,
      ov_bitmap_file = False,
      ov_bitmap_dirty = replicate (div_ceil (bitmap_words (ov_nsectors b)) BITMAP_CHUNK_WORDS) False\<rparr>"
  have "overlay_resume (ov_base b) (ov_overlay b) (ov_sidecar b) True (ov_nsectors b) = Some ?b'"
    using side words set_len_same [OF ok] by (simp add: overlay_resume_def chunks8_bitmap_enc mult.commute)
  moreover have "ov_content ?b' = ov_content b \<and> (ov_ok ?b' \<longleftrightarrow> ov_ok b)" by (intro ov_content_cong) simp_all
  moreover have "side_ok ?b'" using side so words by (simp add: side_ok_def side_bytes_def)
  ultimately show ?thesis using True ok by auto
next
  case False
  have side: "f_bytes (ov_sidecar b) = []" "f_faults (ov_sidecar b) = []"
    "bitmap_enc (ov_written b) = replicate (8 * length (ov_written b)) 0"
    using so enc False by (simp_all add: side_ok_def side_bytes_def)
  have words: "length (ov_written b) = bitmap_words (ov_nsectors b)" using ok by (simp add: ov_ok_def)
  have nw: "\<not> is_written b t" for t
    using enc_zero [OF side(3)] nth_mem by (fastforce simp: is_written_bit)
  let ?b' = "\<lparr>ov_base = ov_base b, ov_overlay = (ov_overlay b)\<lparr>f_bytes := replicate (ov_len b) 0\<rparr>,
      ov_nsectors = ov_nsectors b, ov_written = replicate (bitmap_words (ov_nsectors b)) 0,
      ov_bitmap_path = True, ov_sidecar = ov_sidecar b, ov_sidecar_exists = False, ov_bitmap_file = False,
      ov_bitmap_dirty = replicate (div_ceil (bitmap_words (ov_nsectors b)) BITMAP_CHUNK_WORDS) False\<rparr>"
  have "overlay_resume (ov_base b) (ov_overlay b) (ov_sidecar b) False (ov_nsectors b) = Some ?b'"
    using ok set_len_same(2) [OF ok]
    by (simp add: overlay_resume_def overlay_open_def set_len_def remove_sidecar_def extend_to_def ov_ok_def)
  moreover have ok': "ov_ok ?b'" using ok by (simp add: ov_ok_def ov_len_def)
  moreover have "ov_content ?b' = ov_content b"
    using content_unwritten [OF ok'] content_unwritten [OF ok nw] by (simp add: is_written_bit ov_len_def)
  moreover have "ov_written b = replicate (bitmap_words (ov_nsectors b)) 0"
    using enc_zero [OF side(3)] words by (metis replicate_eqI)
  then have "side_ok ?b'" using side so words by (simp add: side_ok_def side_bytes_def)
  ultimately show ?thesis using False by auto
qed

lemma overlay_open_ok:
  assumes "f_faults base = []" "f_faults overlay = []" "f_faults side = []"
    "512 * unat ns \<le> length (f_bytes base)" "512 * unat ns < 2 ^ 63" "\<not> exists \<Longrightarrow> f_bytes side = []"
  shows "\<exists>b. overlay_open base overlay side exists ns = Some b \<and> ov_ok b \<and> side_ok b \<and>
    ov_nsectors b = ns \<and> ov_base b = base \<and> ov_content b = take (512 * unat ns) (f_bytes base)"
proof -
  let ?n = "bitmap_words ns"
  let ?b = "\<lparr>ov_base = base, ov_overlay = overlay\<lparr>f_bytes := replicate (512 * unat ns) 0\<rparr>, ov_nsectors = ns,
     ov_written = replicate ?n 0, ov_bitmap_path = True, ov_sidecar = side\<lparr>f_bytes := []\<rparr>,
     ov_sidecar_exists = False, ov_bitmap_file = False,
     ov_bitmap_dirty = replicate (div_ceil ?n BITMAP_CHUNK_WORDS) False\<rparr>"
  have "unat (sat_mul ns SECTOR_SIZE) = 512 * unat ns"
    using assms(5) by (simp add: unat_sat_mul SECTOR_SIZE_def mult.commute)
  then have op: "overlay_open base overlay side exists ns = Some ?b"
    using assms by (auto simp: overlay_open_def set_len_def extend_to_def remove_sidecar_def)
  have ok: "ov_ok ?b" using assms by (simp add: ov_ok_def ov_len_def)
  have c: "ov_content ?b = take (512 * unat ns) (f_bytes base)"
    using content_unwritten [OF ok] by (simp add: is_written_bit ov_len_def)
  have "?n \<le> unat ns" by (cases "unat ns = 0") (auto simp: bitmap_words_def div_ceil_def)
  then have n: "8 * ?n < 2 ^ 63" using assms(5) by linarith
  have "side_ok ?b" using assms(3) n by (simp add: side_ok_def side_bytes_def bitmap_enc_zero)
  with op ok c show ?thesis by auto
qed

subsection \<open>The base image never changes\<close>

lemma read_source_base: "f_bytes (ov_base (snd (snd (read_source b s cur buf)))) = f_bytes (ov_base b)"
proof (cases "read_exact_at (ov_base b) cur buf")
  case (fields ok buf' f)
  with read_exact_at_bytes [of "ov_base b" cur buf] show ?thesis
    by (auto simp: read_source_def split: prod.split)
qed

lemma read_loop_base: "f_bytes (ov_base (snd (snd (read_loop b off buf dn)))) = f_bytes (ov_base b)"
proof (induction b off buf dn rule: read_loop.induct)
  case (1 b off buf dn)
  then show ?case by (subst read_loop.simps) (simp add: Let_def read_source_base)
qed

lemma seed_sector_base: "f_bytes (ov_base (snd (seed_sector b s))) = f_bytes (ov_base b)"
proof (cases "read_exact_at (ov_base b) (s * SECTOR_SIZE) (replicate 512 0)")
  case (fields ok buf' f)
  with read_exact_at_bytes [of "ov_base b" "s * SECTOR_SIZE" "replicate 512 0"] show ?thesis
    by (auto simp: seed_sector_def Let_def split: prod.split)
qed

lemma fold_mark_base: "ov_base (fold (\<lambda>s b. mark_written b s) ss b) = ov_base b"
  by (induction ss arbitrary: b) simp_all

lemma overlay_write_base: "f_bytes (ov_base (snd (overlay_write_at b off buf))) = f_bytes (ov_base b)"
proof -
  let ?fin = "off + of_nat (length buf)"
  obtain ok1 b1 where e1: "(if off mod SECTOR_SIZE \<noteq> 0 then seed_sector b (off div SECTOR_SIZE) else (True, b)) = (ok1, b1)"
    by (cases "if off mod SECTOR_SIZE \<noteq> 0 then seed_sector b (off div SECTOR_SIZE) else (True, b)")
  have s1: "f_bytes (ov_base b1) = f_bytes (ov_base b)"
    using e1 seed_sector_base [of b "off div SECTOR_SIZE"] by (simp split: if_splits)
  obtain ok2 b2 where e2: "(if ?fin mod SECTOR_SIZE \<noteq> 0 then seed_sector b1 ((?fin - 1) div SECTOR_SIZE) else (True, b1)) = (ok2, b2)"
    by (cases "if ?fin mod SECTOR_SIZE \<noteq> 0 then seed_sector b1 ((?fin - 1) div SECTOR_SIZE) else (True, b1)")
  have s2: "f_bytes (ov_base b2) = f_bytes (ov_base b)"
    using s1 e2 seed_sector_base [of b1 "(?fin - 1) div SECTOR_SIZE"] by (simp split: if_splits)
  show ?thesis
    unfolding overlay_write_at_def Let_def e1 e2 using s1 s2
    by (simp add: e2 fold_mark_base split: prod.split)
qed

subsection \<open>Properties\<close>

text \<open>
  C7. The copy-on-write backend refines a flat disk: on healthy files every read inside the
  capacity returns the bytes of the abstract disk, every write updates exactly the bytes
  written, and the abstract disk starts as the base image.
\<close>

theorem overlay_refines_disk:
  assumes "ov_ok b" "unat off + length buf \<le> 512 * unat (ov_nsectors b)"
  shows "overlay_read_at b off buf = (True, take (length buf) (drop (unat off) (ov_content b)), b) \<and>
    (\<exists>b'. overlay_write_at b off buf = (True, b') \<and> ov_ok b' \<and>
       ov_content b' = overwrite (unat off) buf (ov_content b))"
  using assms overlay_read_at_ok [of b off buf] overlay_write_at_ok [of b off buf]
  by (auto simp: ov_len_def)

definition demo_disk :: overlay_backend where
  "demo_disk = the (overlay_open \<lparr>f_bytes = replicate 1024 7, f_faults = []\<rparr> \<lparr>f_bytes = [], f_faults = []\<rparr>
     \<lparr>f_bytes = [], f_faults = []\<rparr> False 2)"

lemma demo_disk_ok:
  "ov_ok demo_disk" "side_ok demo_disk" "ov_nsectors demo_disk = 2" "ov_content demo_disk = replicate 1024 7"
  using overlay_open_ok [of "\<lparr>f_bytes = replicate 1024 7, f_faults = []\<rparr>" "\<lparr>f_bytes = [], f_faults = []\<rparr>"
      "\<lparr>f_bytes = [], f_faults = []\<rparr>" 2 False]
  by (auto simp: demo_disk_def)

theorem overlay_refines_disk_witness:
  "\<exists>b'. overlay_write_at demo_disk 510 [1, 2, 3, 4] = (True, b') \<and>
     ov_content b' = overwrite 510 [1, 2, 3, 4] (replicate 1024 7)"
  using overlay_refines_disk [OF demo_disk_ok(1), of 510 "[1, 2, 3, 4]"] demo_disk_ok by auto

text \<open>
  C8. The base image is immutable: whatever the state and whatever I/O fails, no read, write,
  flush or teardown of the backend changes a byte of the base file.
\<close>

theorem overlay_base_immutable:
  "f_bytes (ov_base (snd (snd (overlay_read_at b off buf)))) = f_bytes (ov_base b) \<and>
   f_bytes (ov_base (snd (overlay_write_at b off buf))) = f_bytes (ov_base b) \<and>
   f_bytes (ov_base (snd (overlay_flush b))) = f_bytes (ov_base b) \<and>
   f_bytes (ov_base (overlay_drop b)) = f_bytes (ov_base b)"
  using overlay_write_base [of b off buf] read_loop_base [of b off buf 0]
  by (simp add: overlay_read_at_def overlay_flush_def overlay_drop_def Let_def split: prod.split)

text \<open>
  C9. Suspend and resume keep the disk: a write followed by the teardown of the backend and a
  resume from the files it leaves gives a healthy backend whose disk is the old one with the
  write applied, the bitmap having gone through the sidecar.
\<close>

theorem suspend_resume_keeps_writes:
  assumes "ov_ok b" "side_ok b" "unat off + length buf \<le> 512 * unat (ov_nsectors b)"
  shows "\<exists>b1 b2. overlay_write_at b off buf = (True, b1) \<and>
    overlay_resume (ov_base (overlay_drop b1)) (ov_overlay (overlay_drop b1)) (ov_sidecar (overlay_drop b1))
      (ov_sidecar_exists (overlay_drop b1)) (ov_nsectors (overlay_drop b1)) = Some b2 \<and>
    ov_ok b2 \<and> side_ok b2 \<and> ov_content b2 = overwrite (unat off) buf (ov_content b)"
proof -
  obtain b1 where b1: "overlay_write_at b off buf = (True, b1)" "ov_ok b1"
    "ov_content b1 = overwrite (unat off) buf (ov_content b)"
    using overlay_write_at_ok [OF assms(1), of off buf] assms(3) by (auto simp: ov_len_def)
  have "side_ok b1" using side_ok_write [OF assms(2), of off buf] b1(1) by simp
  then have p: "side_ok (overlay_drop b1)"
    "side_bytes (overlay_drop b1) = bitmap_enc (ov_written (overlay_drop b1))"
    using persist_bitmap_ok [of b1] by (simp_all add: overlay_drop_def)
  have c: "ov_content (overlay_drop b1) = ov_content b1" "ov_ok (overlay_drop b1)"
    using ov_content_cong [of "overlay_drop b1" b1] b1(2) by (simp_all add: overlay_drop_def)
  from resume_persisted [OF c(2) p] c(1) b1 show ?thesis by auto
qed

theorem suspend_resume_keeps_writes_witness:
  "\<exists>b1 b2. overlay_write_at demo_disk 100 [1, 2] = (True, b1) \<and>
     overlay_resume (ov_base (overlay_drop b1)) (ov_overlay (overlay_drop b1)) (ov_sidecar (overlay_drop b1))
       (ov_sidecar_exists (overlay_drop b1)) (ov_nsectors (overlay_drop b1)) = Some b2 \<and>
     ov_content b2 = overwrite 100 [1, 2] (replicate 1024 7)"
  using suspend_resume_keeps_writes [OF demo_disk_ok(1,2), of 100 "[1, 2]"] demo_disk_ok by auto

text \<open>
  C10. A block write reads back: an \<^verbatim>\<open>OUT\<close> request whose data buffers hold \<open>datas\<close> succeeds, and a
  later \<^verbatim>\<open>IN\<close> request for the same sector and as many bytes, with buffers laid out apart from
  each other, succeeds with those bytes in the guest's buffers and an OK status byte.
\<close>

theorem block_write_then_read:
  assumes w: "ov_ok (bd_backend d)" "gm_ok m" "blk_header m cw VIRTIO_BLK_T_OUT sector"
      "map (seg_data m) (tl (readable cw)) = map Inr datas"
      "unat sector * 512 + seg_lens (tl (readable cw)) \<le> 512 * unat (ov_nsectors (bd_backend d))"
    and r: "gm_ok m2" "blk_header m2 cr VIRTIO_BLK_T_IN sector" "read_layout m2 cr"
      "seg_lens (butlast (writable cr)) = seg_lens (tl (readable cw))"
  shows "\<exists>c1 d1 m1 c2 d2 m2' parts.
    process overlay_ops d m cw = Some (c1, d1, m1) \<and> c_status c1 = VIRTIO_BLK_S_OK \<and>
    process overlay_ops d1 m2 cr = Some (c2, d2, m2') \<and> c_status c2 = VIRTIO_BLK_S_OK \<and>
    map (seg_data m2') (butlast (writable cr)) = map Inr parts \<and> concat parts = concat datas \<and>
    gm_read m2' (seg_gpa (last (writable cr)) + ucast (seg_len (last (writable cr)) - 1)) 1 = Inr [VIRTIO_BLK_S_OK]"
proof -
  let ?c = "ov_content (bd_backend d)"
  have fit: "unat sector * 512 + seg_lens (tl (readable cw)) \<le> length ?c" using w(5) by (simp add: ov_len_def)
  have len: "length (concat datas) = seg_lens (tl (readable cw))" using seg_data_length [OF w(2,4)] .
  obtain c1 d1 m1 where p1: "process overlay_ops d m cw = Some (c1, d1, m1)" "c_status c1 = VIRTIO_BLK_S_OK"
    "ov_ok (bd_backend d1)" "ov_content (bd_backend d1) = overwrite (unat sector * 512) (concat datas) ?c"
    using overlayb.process_write [OF w(1-4) fit] by blast
  have "unat sector * 512 + seg_lens (butlast (writable cr)) \<le> length (ov_content (bd_backend d1))"
    using fit len r(4) unfolding p1(4) by simp
  from overlayb.process_read [OF p1(3) r(1-3) this] obtain c2 d2 m2' parts where
    p2: "process overlay_ops d1 m2 cr = Some (c2, d2, m2')" "c_status c2 = VIRTIO_BLK_S_OK"
    "map (seg_data m2') (butlast (writable cr)) = map Inr parts"
    "concat parts = take (seg_lens (butlast (writable cr))) (drop (unat sector * 512) (ov_content (bd_backend d1)))"
    "gm_read m2' (seg_gpa (last (writable cr)) + ucast (seg_len (last (writable cr)) - 1)) 1 = Inr [VIRTIO_BLK_S_OK]"
    by blast
  have "concat parts = concat datas"
    using p2(4) slice_overwrite_same [of "unat sector * 512" "concat datas" ?c] fit len r(4) unfolding p1(4) by simp
  with p1 p2 show ?thesis by blast
qed

definition demo_blk_mem :: "u8 \<Rightarrow> guest_memory" where
  "demo_blk_mem t = [\<lparr>r_gpa = 0x1000, r_bytes =
     [t, 0, 0, 0, 0, 0, 0, 0, 1, 0, 0, 0, 0, 0, 0, 0, 11, 22, 33, 44, 0xFF]\<rparr>]"

definition demo_hdr :: segment where
  "demo_hdr = \<lparr>seg_gpa = 0x1000, seg_len = 16, seg_write = False\<rparr>"

definition demo_status :: segment where
  "demo_status = \<lparr>seg_gpa = 0x1014, seg_len = 1, seg_write = True\<rparr>"

definition demo_out_chain :: desc_chain where
  "demo_out_chain = \<lparr>head = 0, segments = [demo_hdr, \<lparr>seg_gpa = 0x1010, seg_len = 4, seg_write = False\<rparr>, demo_status]\<rparr>"

definition demo_in_chain :: desc_chain where
  "demo_in_chain = \<lparr>head = 0, segments = [demo_hdr, \<lparr>seg_gpa = 0x1010, seg_len = 4, seg_write = True\<rparr>, demo_status]\<rparr>"

lemmas demo_chain_simps = demo_hdr_def demo_status_def demo_out_chain_def demo_in_chain_def readable_def writable_def

theorem block_write_then_read_witness:
  "\<exists>c1 d1 m1 c2 d2 m2' parts.
    process overlay_ops \<lparr>bd_backend = demo_disk, bd_serial = []\<rparr> (demo_blk_mem 1) demo_out_chain = Some (c1, d1, m1) \<and>
    process overlay_ops d1 (demo_blk_mem 0) demo_in_chain = Some (c2, d2, m2') \<and> c_status c2 = VIRTIO_BLK_S_OK \<and>
    map (seg_data m2') (butlast (writable demo_in_chain)) = map Inr parts \<and> concat parts = [11, 22, 33, 44]"
proof -
  have "gm_ok (demo_blk_mem 1)" "gm_ok (demo_blk_mem 0)" by (simp_all add: gm_ok_def demo_blk_mem_def)
  moreover have "blk_header (demo_blk_mem 1) demo_out_chain VIRTIO_BLK_T_OUT 1"
    "blk_header (demo_blk_mem 0) demo_in_chain VIRTIO_BLK_T_IN 1"
    by (simp_all add: blk_header_def demo_blk_mem_def demo_chain_simps eval_simps)
  moreover have "map (seg_data (demo_blk_mem 1)) (tl (readable demo_out_chain)) = map Inr [[11, 22, 33, 44]]"
    by (simp add: seg_data_def demo_blk_mem_def demo_chain_simps eval_simps)
  moreover have "read_layout (demo_blk_mem 0) demo_in_chain"
    by (simp add: read_layout_def segs_backed_def seg_data_def segs_apart_def disjoint_ranges_def
        demo_blk_mem_def demo_chain_simps eval_simps)
  moreover have "seg_lens (tl (readable demo_out_chain)) = 4" "seg_lens (butlast (writable demo_in_chain)) = 4"
    by (simp_all add: demo_chain_simps)
  ultimately show ?thesis
    using block_write_then_read [of "\<lparr>bd_backend = demo_disk, bd_serial = []\<rparr>" "demo_blk_mem 1" demo_out_chain 1
        "[[11, 22, 33, 44]]" "demo_blk_mem 0" demo_in_chain] demo_disk_ok by fastforce
qed



end
