(* ===== verification/Checksum.thy ===== *)
theory Checksum
  imports Prelude
begin

text \<open>
  The internet checksum of RFC 1071 as the two copies in the sources compute it:
  \<^verbatim>\<open>ones_complement\<close> in \<^verbatim>\<open>src/hypervisor/src/hvf/virtio/lro.rs\<close> and \<^verbatim>\<open>checksum\<close> in
  \<^verbatim>\<open>src/hypervisor/src/hvf/virtio/net.rs\<close>. Both accumulate in a 32-bit word; the carry loop
  is shown to compute the residue modulo 65535, from which a stored checksum verifies.
\<close>

subsection \<open>Definitions\<close>

definition be16 :: "u8 \<Rightarrow> u8 \<Rightarrow> u16" where
  "be16 a b = of_be_bytes [a, b]"

fun sum_words :: "u32 \<Rightarrow> bytes \<Rightarrow> u32" where
  "sum_words acc (a # b # bs) = sum_words (acc + ucast (be16 a b)) bs"
| "sum_words acc [a] = acc + push_bit 8 (ucast a)"
| "sum_words acc [] = acc"

lemma unat_high: "unat (drop_bit 16 x) = unat x div 65536" for x :: u32
  by (simp add: drop_bit_eq_div unat_div)

lemma unat_low: "unat (x AND 0xFFFF) = unat x mod 65536" for x :: u32
proof -
  have "x AND 0xFFFF = take_bit 16 x" by (simp add: take_bit_eq_mask mask_eq_exp_minus_1)
  then show ?thesis by (simp add: take_bit_eq_mod unat_mod)
qed

lemma unat_carry: "unat ((x AND 0xFFFF) + drop_bit 16 x) = unat x mod 65536 + unat x div 65536" for x :: u32
proof -
  have "unat x < 2 ^ 32" using unsigned_less [of x] by simp
  then have "unat x div 65536 < 65536" by (simp add: less_mult_imp_div_less)
  moreover have "unat x mod 65536 < 65536" by simp
  ultimately have "unat (x AND 0xFFFF) + unat (drop_bit 16 x) < 2 ^ 32" unfolding unat_high unat_low by simp
  then show ?thesis by (simp add: unat_add_no_wrap unat_high unat_low)
qed

function fold_carry :: "u32 \<Rightarrow> u32" where
  "fold_carry x = (if drop_bit 16 x \<noteq> 0 then fold_carry ((x AND 0xFFFF) + drop_bit 16 x) else x)"
  by pat_completeness auto
termination
proof (relation "measure unat", goal_cases)
  case (2 x)
  then have "0 < unat x div 65536" by (metis unat_high unat_gt_0)
  moreover have "unat x = unat x div 65536 * 65536 + unat x mod 65536" by simp
  ultimately have "unat x mod 65536 + unat x div 65536 < unat x" by linarith
  then show ?case unfolding in_measure unat_carry .
qed simp

declare fold_carry.simps [simp del]

definition ones_complement :: "bytes \<Rightarrow> u32 \<Rightarrow> u16" where
  "ones_complement data init = NOT (ucast (fold_carry (sum_words init data)))"

text \<open>The copy in \<^verbatim>\<open>net.rs\<close> walks by index; \<open>i\<close> is even throughout.\<close>

function checksum_from :: "bytes \<Rightarrow> nat \<Rightarrow> u32 \<Rightarrow> u32" where
  "checksum_from data i acc =
     (if i + 1 < length data
      then checksum_from data (i + 2) (acc + ucast (be16 (data ! i) (data ! (i + 1))))
      else if i < length data then acc + push_bit 8 (ucast (data ! i)) else acc)"
  by pat_completeness auto
termination by (relation "measure (\<lambda>(data, i, acc). length data - i)") auto

declare checksum_from.simps [simp del]

definition checksum :: "bytes \<Rightarrow> u16" where
  "checksum data = NOT (ucast (fold_carry (checksum_from data 0 0)))"

subsection \<open>The carry loop is the residue modulo 65535\<close>

definition res16 :: "nat \<Rightarrow> nat" where
  "res16 n = (if n = 0 then 0 else (n - 1) mod 65535 + 1)"

lemma res16_small: "n < 65536 \<Longrightarrow> res16 n = n"
  by (cases "n = 0") (auto simp: res16_def)

lemma res16_cong: "m mod 65535 = n mod 65535 \<Longrightarrow> m = 0 \<longleftrightarrow> n = 0 \<Longrightarrow> res16 m = res16 n"
proof -
  assume m: "m mod 65535 = n mod 65535" "m = 0 \<longleftrightarrow> n = 0"
  have "(m - 1) mod 65535 = (n - 1) mod 65535" if "m \<noteq> 0" "n \<noteq> 0"
  proof -
    have "(m - 1 + 1) mod 65535 = (n - 1 + 1) mod 65535" using m that by simp
    then show ?thesis using that by (simp add: nat_mod_eq_iff) (metis add_Suc_right add_diff_cancel_left' diff_Suc_1)
  qed
  with m show ?thesis by (auto simp: res16_def)
qed

lemma unat_fold_carry: "unat (fold_carry x) = res16 (unat x)"
proof (induction x rule: fold_carry.induct)
  case (1 x)
  show ?case
  proof (cases "drop_bit 16 x = 0")
    case True
    then have "unat x div 65536 = 0" by (metis unat_high unat_0)
    then have "unat x < 65536" by (simp add: div_eq_0_iff)
    with True show ?thesis by (subst fold_carry.simps) (simp add: res16_small)
  next
    case False
    then have pos: "0 < unat x div 65536" by (metis unat_high unat_gt_0)
    let ?y = "unat x mod 65536 + unat x div 65536"
    have "unat x = ?y + unat x div 65536 * 65535" using mult_div_mod_eq [of 65536 "unat x"] by linarith
    then have "unat x mod 65535 = ?y mod 65535" by (metis mod_mult_self1)
    moreover have "unat x \<noteq> 0" using pos by (metis div_0 less_irrefl)
    ultimately have "res16 ?y = res16 (unat x)" using pos by (intro res16_cong) auto
    with 1 False show ?thesis by (subst fold_carry.simps) (simp add: unat_carry)
  qed
qed

lemma unat_not16: "unat (NOT w) = 65535 - unat w" for w :: u16
proof -
  have "NOT w = - 1 - w" by (simp add: not_eq_complement)
  moreover have "w \<le> - 1" by simp
  ultimately show ?thesis by (simp add: unat_sub unat_minus_1)
qed

lemma res16_le: "res16 n \<le> 65535"
  using mod_less_divisor [of 65535 "n - 1"] by (auto simp: res16_def)

lemma unat_low16: "unat (fold_carry x) = unat (ucast (fold_carry x) :: u16)"
proof -
  have "unat (fold_carry x) < 2 ^ 16" using res16_le [of "unat x"] by (simp add: unat_fold_carry)
  then show ?thesis by (simp add: unsigned_ucast_eq take_bit_nat_eq_self)
qed

text \<open>Adding the complement of a sum to it gives a sum whose checksum is zero.\<close>

lemma fold_complement:
  assumes "unat x + 65535 < 2 ^ 32"
  shows "NOT (ucast (fold_carry (x + ucast (NOT (ucast (fold_carry x) :: u16)))) :: u16) = 0"
proof -
  let ?c = "ucast (fold_carry x) :: u16"
  have c: "unat ?c = res16 (unat x)" using unat_low16 [of x] by (simp add: unat_fold_carry)
  have n: "unat (ucast (NOT ?c) :: u32) = 65535 - res16 (unat x)" using c by (simp add: unat_ucast_up unat_not16)
  have s: "unat (x + ucast (NOT ?c)) = unat x + (65535 - res16 (unat x))"
    using assms unat_add_no_wrap [of x "ucast (NOT ?c)"] n by simp
  have "res16 (unat x + (65535 - res16 (unat x))) = res16 65535"
  proof (cases "unat x = 0")
    case True
    then show ?thesis by (simp add: res16_def)
  next
    case False
    then have "unat x = (unat x - 1) div 65535 * 65535 + res16 (unat x)"
      using div_mult_mod_eq [of "unat x - 1" 65535] by (simp add: res16_def)
    then have e: "unat x + (65535 - res16 (unat x)) = (unat x - 1) div 65535 * 65535 + 65535"
      using res16_le [of "unat x"] by linarith
    show ?thesis unfolding e by (intro res16_cong) (simp_all add: mod_mult_self3)
  qed
  then have "unat (ucast (fold_carry (x + ucast (NOT ?c))) :: u16) = 65535"
    using s unat_low16 [of "x + ucast (NOT ?c)"] by (simp add: unat_fold_carry res16_def)
  then have "unat (NOT (ucast (fold_carry (x + ucast (NOT ?c))) :: u16)) = 0" by (simp only: unat_not16)
  then show ?thesis by (simp only: unat_eq_zero)
qed

subsection \<open>Sums over data\<close>

lemma sum_words_init: "sum_words acc bs = acc + sum_words 0 bs"
proof (induction bs arbitrary: acc rule: induct_list012)
  case (3 a b bs)
  show ?case using 3(1) [of "acc + ucast (be16 a b)"] 3(1) [of "ucast (be16 a b)"] by simp
qed simp_all


lemma sum_words_append: "even (length xs) \<Longrightarrow> sum_words acc (xs @ ys) = sum_words (sum_words acc xs) ys"
  by (induction xs arbitrary: acc rule: induct_list012) simp_all

lemma sum_words_word: "sum_words acc (be_bytes w) = acc + ucast w" for w :: u16
proof -
  obtain a b where ab: "be_bytes w = [a, b]"
    using be16.length_enc [of w] by (auto simp: length_Suc_conv numeral_2_eq_2)
  then have "be16 a b = w" using be16.dec_enc [of w] by (simp add: be16_def)
  with ab show ?thesis by simp
qed

lemma unat_lt: "unat (w :: 'a::len word) < 2 ^ LENGTH('a)"
  by (rule unsigned_less)

lemma unat_add_le: "unat (a + b) \<le> unat a + unat b" for a b :: "'a::len word"
  by (simp add: unat_word_ariths)

lemma sum_words_bound: "unat (sum_words acc bs) \<le> unat acc + 65535 * ((length bs + 1) div 2)"
proof (induction bs arbitrary: acc rule: induct_list012)
  case (2 a)
  have "unat (push_bit 8 (ucast a :: u32)) \<le> unat a * 256"
    by (simp add: push_bit_eq_mult unat_word_ariths unat_ucast_up)
  moreover have "unat a < 256" using unat_lt [of a] by simp
  ultimately have "unat (push_bit 8 (ucast a :: u32)) \<le> 65535" by linarith
  with unat_add_le [of acc "push_bit 8 (ucast a)"] show ?case by simp
next
  case (3 a b bs)
  have "unat (ucast (be16 a b) :: u32) < 65536" using unat_lt [of "be16 a b"] by (simp add: unat_ucast_up)
  with unat_add_le [of acc "ucast (be16 a b)"] 3(1) [of "acc + ucast (be16 a b)"] show ?case by simp
qed simp

lemma checksum_from_sum: "i \<le> length data \<Longrightarrow> checksum_from data i acc = sum_words acc (drop i data)"
proof (induction data i acc rule: checksum_from.induct)
  case (1 data i acc)
  consider "i + 1 < length data" | "i + 1 = length data" | "i = length data" using 1(2) by linarith
  then show ?case
  proof cases
    case 1
    then have "drop i data = data ! i # data ! (i + 1) # drop (i + 2) data"
      by (simp add: Cons_nth_drop_Suc)
    with 1 "1.IH" show ?thesis by (subst checksum_from.simps) simp
  next
    case 2
    then have "drop i data = [data ! i]" by (simp add: Cons_nth_drop_Suc [symmetric])
    with 2 show ?thesis by (subst checksum_from.simps) simp
  next
    case 3
    then show ?thesis by (subst checksum_from.simps) simp
  qed
qed

text \<open>The two copies of the checksum agree.\<close>

lemma checksum_ones_complement: "checksum data = ones_complement data 0"
  by (simp add: checksum_def ones_complement_def checksum_from_sum)

text \<open>
  Storing the checksum of data whose checksum field, at the even offset \<open>p\<close>, is zero makes the
  whole verify: its own checksum is zero.
\<close>

definition zero_field :: "nat \<Rightarrow> bytes \<Rightarrow> bytes" where
  "zero_field p data = overwrite p [0, 0] data"

lemma sum_words_field:
  assumes "even p" "p + 2 \<le> length data"
  shows "sum_words acc (overwrite p (be_bytes w) data) = sum_words acc (overwrite p [0, 0] data) + ucast (w :: u16)"
proof -
  have lp: "length (take p data) = p" using assms(2) by simp
  have z: "be16 0 0 = 0" by (simp add: be16_def of_be_bytes_def)
  have lw: "length (be_bytes w) = 2" by (rule be16.length_enc)
  have "sum_words acc (overwrite p (be_bytes w) data) =
    sum_words (sum_words (sum_words acc (take p data)) (be_bytes w)) (drop (p + 2) data)"
    unfolding overwrite_def lw using assms(1) lp lw by (simp add: sum_words_append)
  also have "\<dots> = sum_words (sum_words acc (take p data) + ucast w) (drop (p + 2) data)"
    by (simp only: sum_words_word)
  also have "\<dots> = sum_words (sum_words acc (take p data)) (drop (p + 2) data) + ucast w"
    by (subst (1 2) sum_words_init) simp
  also have "sum_words (sum_words acc (take p data)) (drop (p + 2) data) = sum_words acc (overwrite p [0, 0] data)"
    unfolding overwrite_def using assms(1) lp z by (simp add: sum_words_append numeral_2_eq_2)
  finally show ?thesis .
qed

lemma checksum_verifies:
  assumes "even p" "p + 2 \<le> length data" "unat init + 65535 * ((length data + 1) div 2) + 65535 < 2 ^ 32"
  shows "ones_complement (overwrite p (be_bytes (ones_complement (zero_field p data) init)) data) init = 0"
proof -
  let ?s = "sum_words init (zero_field p data)"
  have "length (zero_field p data) = length data" using assms(2) by (simp add: zero_field_def)
  then have "unat ?s \<le> unat init + 65535 * ((length data + 1) div 2)"
    using sum_words_bound [of init "zero_field p data"] by simp
  then have "unat ?s + 65535 < 2 ^ 32" using assms(3) by linarith
  from fold_complement [OF this] show ?thesis
    using sum_words_field [OF assms(1,2), of init "ones_complement (zero_field p data) init"]
    by (simp add: ones_complement_def zero_field_def)
qed

end
