(* ===== verification/Lro.thy ===== *)
theory Lro
  imports Checksum
begin

text \<open>
  Receive coalescing (\<^verbatim>\<open>src/hypervisor/src/hvf/virtio/lro.rs\<close>): consecutive in-order TCP segments of
  one flow at the front of the receive backlog are merged into a single larger IPv4 packet.
  A frame is a list of bytes and the backlog a list of frames, front first.
\<close>

subsection \<open>Definitions\<close>

definition ETH_HDR :: nat where "ETH_HDR = 14"
definition ETHERTYPE_IPV4 :: u16 where "ETHERTYPE_IPV4 = 0x0800"
definition IP_PROTO_TCP :: u8 where "IP_PROTO_TCP = 6"
definition IPV4_MIN_HDR :: nat where "IPV4_MIN_HDR = 20"
definition TCP_MIN_HDR :: nat where "TCP_MIN_HDR = 20"
definition TCP_FLAGS_NOT_DATA :: u8 where "TCP_FLAGS_NOT_DATA = 0x01 OR 0x02 OR 0x04 OR 0x20"
definition TCP_FLAG_PSH :: u8 where "TCP_FLAG_PSH = 0x08"
definition IP_MAX_TOTAL :: nat where "IP_MAX_TOTAL = 65535"

lemmas lro_lens = ETH_HDR_def IPV4_MIN_HDR_def TCP_MIN_HDR_def IP_MAX_TOTAL_def
lemmas lro_consts [eval_simps] = lro_lens ETHERTYPE_IPV4_def IP_PROTO_TCP_def TCP_FLAGS_NOT_DATA_def
  TCP_FLAG_PSH_def

record seg =
  payload_at :: nat
  payload_len :: nat
  sg_seq :: u32
  sg_flags :: u8

definition parse :: "bytes \<Rightarrow> seg option" where
  "parse frame =
     (if length frame < ETH_HDR + IPV4_MIN_HDR + TCP_MIN_HDR then None
      else if be16 (frame ! 12) (frame ! 13) \<noteq> ETHERTYPE_IPV4 then None
      else let ip = drop ETH_HDR frame
           in if ip ! 0 \<noteq> 0x45 \<or> ip ! 9 \<noteq> IP_PROTO_TCP then None
              else if be16 (ip ! 6) (ip ! 7) AND 0x3fff \<noteq> 0 then None
              else let tot_len = unat (be16 (ip ! 2) (ip ! 3))
                   in if tot_len < IPV4_MIN_HDR + TCP_MIN_HDR \<or> ETH_HDR + tot_len \<noteq> length frame then None
                      else let tcp = drop IPV4_MIN_HDR ip
                           in if unat (drop_bit 4 (tcp ! 12)) * 4 \<noteq> TCP_MIN_HDR then None
                              else Some \<lparr>payload_at = ETH_HDR + IPV4_MIN_HDR + TCP_MIN_HDR,
                                     payload_len = tot_len - IPV4_MIN_HDR - TCP_MIN_HDR,
                                     sg_seq = of_be_bytes [tcp ! 4, tcp ! 5, tcp ! 6, tcp ! 7],
                                     sg_flags = tcp ! 13\<rparr>)"

text \<open>\<open>sub xs a b\<close> is the source's slice \<^verbatim>\<open>xs[a..b]\<close>.\<close>

definition sub :: "'a list \<Rightarrow> nat \<Rightarrow> nat \<Rightarrow> 'a list" where
  "sub xs a b = take (b - a) (drop a xs)"

definition continues :: "bytes \<Rightarrow> seg \<Rightarrow> bytes \<Rightarrow> seg \<Rightarrow> bool" where
  "continues acc a next' b =
     (if sg_flags a AND TCP_FLAGS_NOT_DATA \<noteq> 0 \<or> sg_flags b AND TCP_FLAGS_NOT_DATA \<noteq> 0 then False
      else if payload_len b = 0 then False
      else if sub acc 0 12 \<noteq> sub next' 0 12 then False
      else let ai = drop ETH_HDR acc; bi = drop ETH_HDR next'
           in if sub ai 12 20 \<noteq> sub bi 12 20 then False
              else let at = drop IPV4_MIN_HDR ai; bt = drop IPV4_MIN_HDR bi
                   in if sub at 0 4 \<noteq> sub bt 0 4 then False
                      else sg_seq a + of_nat (payload_len a) = sg_seq b)"

text \<open>\<^verbatim>\<open>merge\<close>: offsets are those of the whole frame, the TCP header starting at 34.\<close>

definition merge :: "bytes \<Rightarrow> seg \<Rightarrow> bytes \<Rightarrow> seg \<Rightarrow> bytes" where
  "merge acc a next' b =
     (let acc1 = acc @ sub next' (payload_at b) (payload_at b + payload_len b);
          payload = payload_len a + payload_len b;
          bt = drop (ETH_HDR + IPV4_MIN_HDR) next';
          ack = [bt ! 8, bt ! 9, bt ! 10, bt ! 11];
          window = [bt ! 14, bt ! 15];
          push = sg_flags b AND TCP_FLAG_PSH;
          tot_len = of_nat (IPV4_MIN_HDR + TCP_MIN_HDR + payload) :: u16;
          tcp = ETH_HDR + IPV4_MIN_HDR;
          acc2 = overwrite (ETH_HDR + 2) (be_bytes tot_len) acc1;
          acc3 = overwrite (tcp + 8) ack acc2;
          acc4 = overwrite (tcp + 14) window acc3
      in acc4[tcp + 13 := acc4 ! (tcp + 13) OR push])"

fun pseudo_sum :: "u32 \<Rightarrow> bytes \<Rightarrow> u32" where
  "pseudo_sum s (a # b # bs) = pseudo_sum (s + ucast (be16 a b)) bs"
| "pseudo_sum s _ = s"

definition checksum_in_place :: "bytes \<Rightarrow> bool \<Rightarrow> bytes" where
  "checksum_in_place frame tcp =
     (let ip_at = ETH_HDR;
          f1 = overwrite (ip_at + 10) [0, 0] frame;
          ip_csum = ones_complement (sub f1 ip_at (ip_at + IPV4_MIN_HDR)) 0;
          f2 = overwrite (ip_at + 10) (be_bytes ip_csum) f1
      in if \<not> tcp then f2
         else let tcp_at = ip_at + IPV4_MIN_HDR;
                  tcp_len = length f2 - tcp_at;
                  sum = pseudo_sum 0 (sub f2 (ip_at + 12) (ip_at + 20)) + (ucast IP_PROTO_TCP + of_nat tcp_len);
                  f3 = overwrite (tcp_at + 16) [0, 0] f2;
                  tcp_csum = ones_complement (drop tcp_at f3) sum
              in overwrite (tcp_at + 16) (be_bytes tcp_csum) f3)"

fun coalesce_loop :: "bytes \<Rightarrow> seg \<Rightarrow> nat \<Rightarrow> bool \<Rightarrow> bytes list \<Rightarrow> bytes \<times> bool \<times> bytes list" where
  "coalesce_loop acc sg limit merged [] = (acc, merged, [])"
| "coalesce_loop acc sg limit merged (next' # queue) =
     (case parse next' of
        None \<Rightarrow> (acc, merged, next' # queue)
      | Some nseg \<Rightarrow>
          (if limit < length acc + payload_len nseg then (acc, merged, next' # queue)
           else if \<not> continues acc sg next' nseg then (acc, merged, next' # queue)
           else coalesce_loop (merge acc sg next' nseg)
                  (sg\<lparr>payload_len := payload_len sg + payload_len nseg,
                      sg_flags := sg_flags sg OR (sg_flags nseg AND TCP_FLAG_PSH)\<rparr>)
                  limit True queue))"

definition pop_coalesced :: "bytes list \<Rightarrow> nat \<Rightarrow> bool \<Rightarrow> (bytes \<times> bytes list) option" where
  "pop_coalesced queue limit tcp_checksum =
     (case queue of
        [] \<Rightarrow> None
      | acc # rest \<Rightarrow>
          (case parse acc of
             None \<Rightarrow> Some (acc, rest)
           | Some sg \<Rightarrow>
               (case coalesce_loop acc sg (min limit (ETH_HDR + IP_MAX_TOTAL)) False rest of
                  (acc', merged, rest') \<Rightarrow>
                    Some (if merged then checksum_in_place acc' tcp_checksum else acc', rest'))))"

subsection \<open>Parsed frames\<close>

text \<open>The layout a parsed frame has, read off \<^verbatim>\<open>parse\<close> by absolute offsets.\<close>

definition tcp_frame :: "bytes \<Rightarrow> bool" where
  "tcp_frame f \<longleftrightarrow> 54 \<le> length f \<and> be16 (f ! 12) (f ! 13) = 0x0800 \<and> f ! 14 = 0x45 \<and> f ! 23 = 6 \<and>
     be16 (f ! 20) (f ! 21) AND 0x3fff = 0 \<and> 14 + unat (be16 (f ! 16) (f ! 17)) = length f \<and>
     unat (drop_bit 4 (f ! 46)) * 4 = 20"

definition seg_of_frame :: "bytes \<Rightarrow> seg" where
  "seg_of_frame f = \<lparr>payload_at = 54, payload_len = length f - 54,
     sg_seq = of_be_bytes [f ! 38, f ! 39, f ! 40, f ! 41], sg_flags = f ! 47\<rparr>"

lemma parse_iff: "parse f = (if tcp_frame f then Some (seg_of_frame f) else None)"
proof (cases "54 \<le> length f")
  case True
  then show ?thesis
    by (auto simp: parse_def tcp_frame_def seg_of_frame_def lro_lens ETHERTYPE_IPV4_def IP_PROTO_TCP_def Let_def)
qed (simp add: parse_def tcp_frame_def lro_lens)

lemma parse_SomeD: "parse f = Some s \<Longrightarrow> tcp_frame f \<and> s = seg_of_frame f"
  by (auto simp: parse_iff split: if_splits)

lemma be16_be_bytes: "be_bytes (w :: u16) = [a, b] \<Longrightarrow> be16 a b = w"
  using be16.dec_enc [of w] by (simp add: be16_def)

lemma be_bytes16_Cons: "\<exists>a b. be_bytes (w :: u16) = [a, b]"
  using be16.length_enc [of w] by (auto simp: length_Suc_conv numeral_2_eq_2)

subsection \<open>Merging\<close>

lemma merge_eq:
  assumes "54 \<le> length acc" "a = seg_of_frame acc" "tcp_frame nx" "b = seg_of_frame nx"
  shows "merge acc a nx b =
    (let w = be_bytes (of_nat (length acc + length nx - 68) :: u16)
     in (overwrite 48 [nx ! 48, nx ! 49] (overwrite 42 [nx ! 42, nx ! 43, nx ! 44, nx ! 45]
          (overwrite 16 w (acc @ drop 54 nx))))
        [47 := acc ! 47 OR (nx ! 47 AND TCP_FLAG_PSH)])"
proof -
  have n: "54 \<le> length nx" using assms(3) by (simp add: tcp_frame_def)
  obtain x y where w: "be_bytes (of_nat (length acc + length nx - 68) :: u16) = [x, y]"
    using be_bytes16_Cons by blast
  have l: "20 + 20 + (length acc - 54 + (length nx - 54)) = length acc + length nx - 68" using n assms(1) by simp
  have len: "length acc + length nx - 54 \<ge> 54" using n assms(1) by simp
  have "overwrite 48 [nx ! 48, nx ! 49] (overwrite 42 [nx ! 42, nx ! 43, nx ! 44, nx ! 45]
      (overwrite 16 [x, y] (acc @ drop 54 nx))) ! 47 = acc ! 47"
    using n assms(1) by (simp add: nth_overwrite nth_append)
  moreover have "(of_nat (IPV4_MIN_HDR + TCP_MIN_HDR +
      (payload_len (seg_of_frame acc) + payload_len (seg_of_frame nx))) :: u16) = of_nat (length acc + length nx - 68)"
    by (simp only: lro_lens seg_of_frame_def seg.simps l)
  ultimately show ?thesis
    using n unfolding merge_def assms(2,4) Let_def by (simp add: w seg_of_frame_def lro_lens sub_def)
qed

lemma length_merge:
  assumes "54 \<le> length acc" "a = seg_of_frame acc" "tcp_frame nx" "b = seg_of_frame nx"
  shows "length (merge acc a nx b) = length acc + length nx - 54"
proof -
  have "54 \<le> length nx" using assms(3) by (simp add: tcp_frame_def)
  then show ?thesis using assms(1) be16.length_enc by (simp add: merge_eq [OF assms] Let_def)
qed

lemma nth_merge:
  assumes "54 \<le> length acc" "a = seg_of_frame acc" "tcp_frame nx" "b = seg_of_frame nx"
    "i < length acc + length nx - 54"
  shows "merge acc a nx b ! i =
    (if i = 16 \<or> i = 17 then be_bytes (of_nat (length acc + length nx - 68) :: u16) ! (i - 16)
     else if 42 \<le> i \<and> i < 46 \<or> i = 48 \<or> i = 49 then nx ! i
     else if i = 47 then acc ! 47 OR (nx ! 47 AND TCP_FLAG_PSH)
     else if i < length acc then acc ! i else nx ! (54 + (i - length acc)))"
proof -
  have n: "54 \<le> length nx" using assms(3) by (simp add: tcp_frame_def)
  have l: "length (be_bytes (of_nat (length acc + length nx - 68) :: u16)) = 2" by (rule be16.length_enc)
  have "i = 42 \<or> i = 43 \<or> i = 44 \<or> i = 45" if "42 \<le> i" "i < 46" using that by linarith
  then show ?thesis
    using n assms(1,5) l
    by (auto simp: merge_eq [OF assms(1-4)] Let_def nth_overwrite nth_append nth_list_update less_Suc_eq
        split: if_splits)
qed

text \<open>The bytes that identify a flow: Ethernet endpoints, IP endpoints and TCP ports.\<close>

definition flow_of :: "bytes \<Rightarrow> bytes" where
  "flow_of f = sub f 0 12 @ sub f 26 38"

lemma sub_eqI:
  assumes "b \<le> length xs" "b \<le> length ys" "\<And>i. a \<le> i \<Longrightarrow> i < b \<Longrightarrow> xs ! i = ys ! i"
  shows "sub xs a b = sub ys a b"
proof (cases "a \<le> b")
  case True
  then show ?thesis unfolding sub_def using assms by (intro slice_eqI) auto
qed (simp add: sub_def)

lemma merge_frame:
  assumes acc: "tcp_frame acc" and nx: "tcp_frame nx" and fit: "length acc + length nx - 54 \<le> 65549"
    and m: "m = merge acc (seg_of_frame acc) nx (seg_of_frame nx)"
  shows "tcp_frame m"
    and "seg_of_frame m = (seg_of_frame acc)\<lparr>payload_len := length acc - 54 + (length nx - 54),
      sg_flags := acc ! 47 OR (nx ! 47 AND TCP_FLAG_PSH)\<rparr>"
    and "drop 54 m = drop 54 acc @ drop 54 nx" and "flow_of m = flow_of acc"
proof -
  have la: "54 \<le> length acc" and ln: "54 \<le> length nx" using acc nx by (simp_all add: tcp_frame_def)
  have lm: "length m = length acc + length nx - 54" unfolding m by (rule length_merge) (use la nx in auto)
  obtain x y where w: "be_bytes (of_nat (length acc + length nx - 68) :: u16) = [x, y]"
    using be_bytes16_Cons by blast
  note nm = nth_merge [OF la refl nx refl, folded m, unfolded w]
  have tot: "unat (be16 x y) = length acc + length nx - 68"
    using be16_be_bytes [OF w] fit la ln by (simp only:) (rule unat_of_nat_lt, simp)
  show "tcp_frame m"
    using acc la ln lm tot by (simp add: tcp_frame_def nm w)
  show "seg_of_frame m = (seg_of_frame acc)\<lparr>payload_len := length acc - 54 + (length nx - 54),
      sg_flags := acc ! 47 OR (nx ! 47 AND TCP_FLAG_PSH)\<rparr>"
    using la ln lm by (simp add: seg_of_frame_def nm)
  show "drop 54 m = drop 54 acc @ drop 54 nx"
    using la ln lm by (intro nth_equalityI) (auto simp: nm nth_append less_diff_conv)
  have "sub m 0 12 = sub acc 0 12" "sub m 26 38 = sub acc 26 38"
    using la ln lm by (intro sub_eqI; auto simp: nm)+
  then show "flow_of m = flow_of acc" by (simp add: flow_of_def)
qed

lemma continues_iff:
  assumes "54 \<le> length acc" "54 \<le> length nx"
  shows "continues acc a nx b \<longleftrightarrow> sg_flags a AND TCP_FLAGS_NOT_DATA = 0 \<and> sg_flags b AND TCP_FLAGS_NOT_DATA = 0 \<and>
    payload_len b \<noteq> 0 \<and> flow_of acc = flow_of nx \<and> sg_seq a + of_nat (payload_len a) = sg_seq b"
proof -
  have "sub f 26 38 = sub (drop 14 f) 12 20 @ sub (drop 20 (drop 14 f)) 0 4" for f :: bytes
    using slice_append [of 8 12 26 f] by (simp add: sub_def)
  then have "flow_of acc = flow_of nx \<longleftrightarrow> sub acc 0 12 = sub nx 0 12 \<and>
    sub (drop 14 acc) 12 20 = sub (drop 14 nx) 12 20 \<and>
    sub (drop 20 (drop 14 acc)) 0 4 = sub (drop 20 (drop 14 nx)) 0 4"
    using assms by (auto simp: flow_of_def sub_def)
  then show ?thesis by (auto simp: continues_def Let_def lro_lens)
qed

text \<open>
  A run of data segments of one flow in sequence, starting at \<open>s\<close>.
\<close>

fun in_sequence :: "u32 \<Rightarrow> bytes \<Rightarrow> bytes list \<Rightarrow> bool" where
  "in_sequence s flow [] = True"
| "in_sequence s flow (f # fs) =
     (case parse f of
        None \<Rightarrow> False
      | Some g \<Rightarrow> sg_seq g = s \<and> sg_flags g AND TCP_FLAGS_NOT_DATA = 0 \<and> flow_of f = flow \<and>
          in_sequence (s + of_nat (payload_len g)) flow fs)"

definition payload :: "bytes \<Rightarrow> bytes" where
  "payload f = drop 54 f"

lemma psh_not_data: "(x OR (y AND TCP_FLAG_PSH)) AND TCP_FLAGS_NOT_DATA = x AND TCP_FLAGS_NOT_DATA" for x y :: u8
proof -
  have "TCP_FLAG_PSH AND TCP_FLAGS_NOT_DATA = 0" by (simp add: TCP_FLAG_PSH_def TCP_FLAGS_NOT_DATA_def)
  then show ?thesis by (simp add: bit.conj_disj_distrib2 and.assoc)
qed

lemma coalesce_loop_spec:
  assumes "tcp_frame acc" "sg = seg_of_frame acc" "limit \<le> 65549" "coalesce_loop acc sg limit mg q = (f, mg', q')"
  shows "\<exists>run. q = run @ q' \<and> (run = [] \<longrightarrow> f = acc \<and> mg' = mg) \<and>
    (run \<noteq> [] \<longrightarrow> mg' \<and> length f \<le> limit \<and> tcp_frame f \<and> sg_flags sg AND TCP_FLAGS_NOT_DATA = 0 \<and>
      in_sequence (sg_seq sg + of_nat (payload_len sg)) (flow_of acc) run \<and>
      payload f = payload acc @ concat (map payload run) \<and> flow_of f = flow_of acc \<and>
      sg_seq (seg_of_frame f) = sg_seq sg)"
  using assms
proof (induction q arbitrary: acc sg mg)
  case (Cons nx q)
  show ?case
  proof (cases "\<exists>b. parse nx = Some b \<and> length acc + payload_len b \<le> limit \<and> continues acc sg nx b")
    case False
    then have "coalesce_loop acc sg limit mg (nx # q) = (acc, mg, nx # q)"
      by (auto split: option.split)
    with Cons.prems(4) show ?thesis by auto
  next
    case True
    then obtain b where b: "parse nx = Some b" "length acc + payload_len b \<le> limit" "continues acc sg nx b" by blast
    have nx: "tcp_frame nx" "b = seg_of_frame nx" using parse_SomeD [OF b(1)] by simp_all
    have la: "54 \<le> length acc" "54 \<le> length nx" using Cons.prems(1) nx(1) by (simp_all add: tcp_frame_def)
    have pl: "payload_len b = length nx - 54" "payload_len sg = length acc - 54" using nx(2) Cons.prems(2)
      by (simp_all add: seg_of_frame_def)
    let ?m = "merge acc sg nx b"
    have fit: "length acc + length nx - 54 \<le> 65549" using b(2) pl la Cons.prems(3) by simp
    note mf = merge_frame [OF Cons.prems(1) nx(1) fit, of ?m, folded nx(2) Cons.prems(2), OF refl]
    let ?sg = "sg\<lparr>payload_len := payload_len sg + payload_len b,
        sg_flags := sg_flags sg OR (sg_flags b AND TCP_FLAG_PSH)\<rparr>"
    have sg': "seg_of_frame ?m = ?sg"
      using mf(2) nx(2) Cons.prems(2) by (simp add: seg_of_frame_def)
    have c: "sg_flags sg AND TCP_FLAGS_NOT_DATA = 0" "sg_flags b AND TCP_FLAGS_NOT_DATA = 0"
      "flow_of acc = flow_of nx" "sg_seq sg + of_nat (payload_len sg) = sg_seq b"
      using b(3) unfolding continues_iff [OF la] by simp_all
    have step: "coalesce_loop ?m ?sg limit True q = (f, mg', q')"
      using Cons.prems(4) b by (simp add: not_less)
    from Cons.IH [OF mf(1) sg' [symmetric] Cons.prems(3) step] obtain run where
      run: "q = run @ q'" "run = [] \<longrightarrow> f = ?m \<and> mg'"
      "run \<noteq> [] \<longrightarrow> mg' \<and> length f \<le> limit \<and> tcp_frame f \<and>
        in_sequence (sg_seq ?sg + of_nat (payload_len ?sg)) (flow_of ?m) run \<and>
        payload f = payload ?m @ concat (map payload run) \<and> flow_of f = flow_of ?m \<and>
        sg_seq (seg_of_frame f) = sg_seq ?sg" by auto
    have lm: "length ?m \<le> limit"
      using length_merge [OF la(1) Cons.prems(2) nx] b(2) pl la by simp
    have seq: "sg_seq b + of_nat (payload_len b) = sg_seq ?sg + of_nat (payload_len ?sg)"
      using c(4) by (simp add: algebra_simps flip: c(4))
    have "in_sequence (sg_seq b + of_nat (payload_len b)) (flow_of nx) run"
      unfolding seq using run(3) mf(4) c(3) by (cases "run = []") simp_all
    then have "in_sequence (sg_seq sg + of_nat (payload_len sg)) (flow_of acc) (nx # run)"
      using b(1) c by simp
    moreover have "payload f = payload acc @ concat (map payload (nx # run))" "flow_of f = flow_of acc"
      "tcp_frame f" "length f \<le> limit" "sg_seq (seg_of_frame f) = sg_seq sg" "mg'"
      using run mf sg' lm by (cases "run = []"; simp add: payload_def)+
    ultimately show ?thesis using run(1) c(1) by (intro exI [of _ "nx # run"]) simp
  qed
qed simp

subsection \<open>Checksums of a merged frame\<close>

lemma nth_sub: "b \<le> length xs \<Longrightarrow> i < b - a \<Longrightarrow> sub xs a b ! i = xs ! (a + i)"
  by (simp add: sub_def)

lemma length_sub [simp]: "b \<le> length xs \<Longrightarrow> length (sub xs a b) = b - a"
  by (auto simp: sub_def)

lemma sub_overwrite:
  assumes "a \<le> off" "off + length xs \<le> b" "b \<le> length f"
  shows "sub (overwrite off xs f) a b = overwrite (off - a) xs (sub f a b)"
proof (rule nth_equalityI)
  have l: "off + length xs \<le> length f" "off - a + length xs \<le> length (sub f a b)" using assms by simp_all
  show "length (sub (overwrite off xs f) a b) = length (overwrite (off - a) xs (sub f a b))"
    using assms l by simp
  fix i
  assume "i < length (sub (overwrite off xs f) a b)"
  then have i: "i < b - a" using assms l by simp
  then have "i < length (sub f a b)" using assms by simp
  then show "sub (overwrite off xs f) a b ! i = overwrite (off - a) xs (sub f a b) ! i"
    using i l assms by (auto simp: nth_sub nth_overwrite add.commute)
qed

lemma sub_overwrite_disjoint:
  "off + length xs \<le> length f \<Longrightarrow> b \<le> off \<or> off + length xs \<le> a \<Longrightarrow> sub (overwrite off xs f) a b = sub f a b"
  unfolding sub_def by (cases "a \<le> b") (auto intro: slice_overwrite_disjoint)

lemma drop_sub: "drop a f = sub f a (length f)"
  by (simp add: sub_def)

lemma overwrite_twice: "length xs = length ys \<Longrightarrow> off + length ys \<le> length f \<Longrightarrow>
    overwrite off xs (overwrite off ys f) = overwrite off xs f"
  by (simp add: overwrite_def)

definition tcp_pseudo :: "bytes \<Rightarrow> u32" where
  "tcp_pseudo f = pseudo_sum 0 (sub f 26 34) + (ucast IP_PROTO_TCP + of_nat (length f - 34))"

lemma pseudo_sum_words: "even (length bs) \<Longrightarrow> pseudo_sum s bs = sum_words s bs"
  by (induction s bs rule: sum_words.induct) simp_all

lemma tcp_pseudo_bound:
  assumes "34 \<le> length f" "length f \<le> 65549"
  shows "unat (tcp_pseudo f) \<le> 4 * 65535 + 6 + 65515"
proof -
  have "unat (pseudo_sum 0 (sub f 26 34)) \<le> 4 * 65535"
    using sum_words_bound [of 0 "sub f 26 34"] assms by (simp add: pseudo_sum_words)
  moreover have "unat (of_nat (length f - 34) :: u32) = length f - 34"
    using assms by (intro unat_of_nat_lt) simp
  moreover have "unat (ucast IP_PROTO_TCP :: u32) = 6" by (simp add: IP_PROTO_TCP_def)
  ultimately show ?thesis unfolding tcp_pseudo_def
    using unat_add_le [of "pseudo_sum 0 (sub f 26 34)" "ucast IP_PROTO_TCP + of_nat (length f - 34)"]
      unat_add_le [of "ucast IP_PROTO_TCP" "of_nat (length f - 34) :: u32"] assms by linarith
qed

lemma checksum_ip:
  assumes "54 \<le> length f" "g = checksum_in_place f False"
  shows "g = overwrite 24 (be_bytes (ones_complement (zero_field 10 (sub f 14 34)) 0)) f"
    and "ones_complement (sub g 14 34) 0 = 0" "length g = length f"
proof -
  have l2: "length (be_bytes (w :: u16)) = 2" for w by (rule be16.length_enc)
  have "sub (overwrite 24 [0, 0] f) 14 34 = zero_field 10 (sub f 14 34)"
    using assms(1) by (subst sub_overwrite) (simp_all add: zero_field_def)
  then show g: "g = overwrite 24 (be_bytes (ones_complement (zero_field 10 (sub f 14 34)) 0)) f"
    using assms l2 by (simp add: checksum_in_place_def lro_lens Let_def overwrite_twice)
  show "length g = length f" unfolding g using assms(1) l2 by simp
  have "sub g 14 34 = overwrite 10 (be_bytes (ones_complement (zero_field 10 (sub f 14 34)) 0)) (sub f 14 34)"
    unfolding g using assms(1) l2 by (subst sub_overwrite) simp_all
  then show "ones_complement (sub g 14 34) 0 = 0"
    using assms(1) by (simp add: checksum_verifies)
qed

lemma checksum_tcp:
  assumes "54 \<le> length f" "length f \<le> 65549" "g = checksum_in_place f True" "h = checksum_in_place f False"
  shows "g = overwrite 50 (be_bytes (ones_complement (zero_field 16 (drop 34 h)) (tcp_pseudo h))) h"
    and "ones_complement (drop 34 g) (tcp_pseudo g) = 0" "sub g 14 34 = sub h 14 34" "length g = length f"
proof -
  have l2: "length (be_bytes (w :: u16)) = 2" for w by (rule be16.length_enc)
  have lh: "length h = length f" using checksum_ip(3) [OF assms(1,4)] .
  have z: "drop 34 (overwrite 50 [0, 0] h) = zero_field 16 (drop 34 h)"
    using assms(1) lh unfolding drop_sub by (subst sub_overwrite) (simp_all add: zero_field_def)
  show g: "g = overwrite 50 (be_bytes (ones_complement (zero_field 16 (drop 34 h)) (tcp_pseudo h))) h"
    using assms(1) lh l2 z unfolding assms(3)
    by (simp add: checksum_in_place_def lro_lens Let_def overwrite_twice tcp_pseudo_def assms(4))
  show lg: "length g = length f" unfolding g using assms(1) lh l2 by simp
  show "sub g 14 34 = sub h 14 34" unfolding g using assms(1) lh l2 by (intro sub_overwrite_disjoint) simp_all
  have "sub g 26 34 = sub h 26 34" unfolding g using assms(1) lh l2 by (intro sub_overwrite_disjoint) simp_all
  then have p: "tcp_pseudo g = tcp_pseudo h" using lg lh by (simp add: tcp_pseudo_def)
  have d: "drop 34 g = overwrite 16 (be_bytes (ones_complement (zero_field 16 (drop 34 h)) (tcp_pseudo h))) (drop 34 h)"
    unfolding drop_sub lg lh unfolding g using assms(1) lh l2
    by (subst sub_overwrite) (simp_all add: drop_sub)
  have "unat (tcp_pseudo h) + 65535 * ((length (drop 34 h) + 1) div 2) + 65535 < 2 ^ 32"
  proof -
    have "(length (drop 34 h) + 1) div 2 \<le> 32758" using assms(2) lh by simp
    with tcp_pseudo_bound [of h] assms(1,2) lh show ?thesis by simp
  qed
  then show "ones_complement (drop 34 g) (tcp_pseudo g) = 0"
    unfolding p d using assms(1) lh by (intro checksum_verifies) simp_all
qed


text \<open>Storing the checksums leaves everything else of a frame alone.\<close>

lemma checksum_keeps:
  assumes "tcp_frame f" "length f \<le> 65549" "g = checksum_in_place f t"
  shows "tcp_frame g \<and> seg_of_frame g = seg_of_frame f \<and> payload g = payload f \<and> flow_of g = flow_of f \<and>
    length g = length f"
proof -
  have l54: "54 \<le> length f" using assms(1) by (simp add: tcp_frame_def)
  have l2: "length (be_bytes (w :: u16)) = 2" for w by (rule be16.length_enc)
  let ?h = "checksum_in_place f False"
  note ip = checksum_ip [OF l54 refl]
  note tc = checksum_tcp [OF l54 assms(2) refl refl]
  have "length g = length f \<and> (\<forall>i < length f. i \<notin> {24, 25, 50, 51} \<longrightarrow> g ! i = f ! i)"
  proof (cases t)
    case True
    with assms(3) have "g = checksum_in_place f True" by simp
    then show ?thesis using tc(1,4) ip(1,3) l54 l2 by (auto simp: nth_overwrite)
  next
    case False
    with assms(3) have "g = ?h" by simp
    then show ?thesis using ip(1,3) l54 l2 by (auto simp: nth_overwrite)
  qed
  then have len: "length g = length f" and eq: "\<And>i. i < length f \<Longrightarrow> i \<notin> {24, 25, 50, 51} \<Longrightarrow> g ! i = f ! i" by auto
  have "payload g = payload f" unfolding payload_def
    by (rule nth_equalityI) (use len l54 eq in auto)
  moreover have "sub g 0 12 = sub f 0 12" "sub g 26 38 = sub f 26 38"
    using len l54 eq by (intro sub_eqI; auto)+
  ultimately show ?thesis
    using assms(1) len eq l54 by (simp add: tcp_frame_def seg_of_frame_def flow_of_def)
qed

lemma pop_coalesced_run:
  assumes "pop_coalesced q limit t = Some (f, q')"
  shows "\<exists>x run. q = x # run @ q' \<and> (run = [] \<longrightarrow> f = x) \<and>
    (run \<noteq> [] \<longrightarrow> in_sequence (sg_seq (seg_of_frame x)) (flow_of x) (x # run) \<and>
       parse f = Some (seg_of_frame f) \<and> sg_seq (seg_of_frame f) = sg_seq (seg_of_frame x) \<and>
       flow_of f = flow_of x \<and> payload f = concat (map payload (x # run)) \<and> length f \<le> limit)"
proof -
  obtain x rest where q: "q = x # rest" using assms by (cases q) (auto simp: pop_coalesced_def)
  show ?thesis
  proof (cases "parse x")
    case None
    with assms q show ?thesis by (auto simp: pop_coalesced_def)
  next
    case (Some sg)
    have x: "tcp_frame x" "sg = seg_of_frame x" using parse_SomeD [OF Some] by simp_all
    let ?lim = "min limit (ETH_HDR + IP_MAX_TOTAL)"
    obtain g mg where lp: "coalesce_loop x sg ?lim False rest = (g, mg, q')"
      and f: "f = (if mg then checksum_in_place g t else g)"
      using assms q Some by (auto simp: pop_coalesced_def split: prod.splits)
    have lim: "?lim \<le> 65549" by (simp add: lro_lens)
    from coalesce_loop_spec [OF x lim lp] obtain run where run: "rest = run @ q'"
      "run = [] \<longrightarrow> g = x \<and> \<not> mg"
      "run \<noteq> [] \<longrightarrow> mg \<and> length g \<le> ?lim \<and> tcp_frame g \<and> sg_flags sg AND TCP_FLAGS_NOT_DATA = 0 \<and>
        in_sequence (sg_seq sg + of_nat (payload_len sg)) (flow_of x) run \<and>
        payload g = payload x @ concat (map payload run) \<and> flow_of g = flow_of x \<and>
        sg_seq (seg_of_frame g) = sg_seq sg" by auto
    show ?thesis
    proof (cases "run = []")
      case True
      with run q f show ?thesis by auto
    next
      case False
      with run(3) have g: "mg" "length g \<le> ?lim" "tcp_frame g" by simp_all
      have lg: "length g \<le> 65549" using g(2) lim by linarith
      note k = checksum_keeps [OF g(3) lg refl, of t]
      have "in_sequence (sg_seq (seg_of_frame x)) (flow_of x) (x # run)"
        using Some x False run(3) by simp
      then show ?thesis
        using q run False f g k x(2) by (intro exI [of _ x] exI [of _ run]) (simp add: parse_iff)
    qed
  qed
qed

subsection \<open>Properties\<close>

text \<open>
  C12. Coalescing delivers the byte stream: it consumes a non-empty prefix of the backlog and
  nothing else. A prefix of one frame is delivered as it is. A longer prefix consists of data
  segments of one flow in sequence, and is delivered as one segment of that flow with the
  sequence number of the first, the payloads concatenated, and at most \<open>limit\<close> bytes.
\<close>

theorem pop_coalesced_stream:
  assumes "pop_coalesced q limit t = Some (f, q')"
  shows "\<exists>x run. q = x # run @ q' \<and> (run = [] \<longrightarrow> f = x) \<and>
    (run \<noteq> [] \<longrightarrow> in_sequence (sg_seq (seg_of_frame x)) (flow_of x) (x # run) \<and>
       parse f = Some (seg_of_frame f) \<and> sg_seq (seg_of_frame f) = sg_seq (seg_of_frame x) \<and>
       flow_of f = flow_of x \<and> payload f = concat (map payload (x # run)) \<and> length f \<le> limit)"
  using assms by (rule pop_coalesced_run)

text \<open>Two segments of one flow, two payload bytes each, the second where the first ends.\<close>

definition demo_frame :: "u8 \<Rightarrow> bytes \<Rightarrow> bytes" where
  "demo_frame sq data = [2, 0, 0, 0, 0, 1, 2, 0, 0, 0, 0, 2, 8, 0,
     0x45, 0, 0, 42, 0, 0, 0, 0, 64, 6, 0, 0, 10, 0, 0, 1, 10, 0, 0, 2,
     0, 80, 200, 0, 0, 0, 0, sq, 0, 0, 0, 0, 0x50, 0x10, 1, 0, 0, 0, 0, 0] @ data"

lemma demo_frame_parse:
  "length data = 2 \<Longrightarrow> parse (demo_frame sq data) = Some \<lparr>payload_at = 54, payload_len = 2, sg_seq = ucast sq, sg_flags = 0x10\<rparr>"
  by (simp add: parse_iff tcp_frame_def seg_of_frame_def demo_frame_def be16_def of_be_bytes_def)

lemma demo_coalesce:
  "\<exists>f. pop_coalesced [demo_frame 0 [1, 2], demo_frame 2 [3, 4]] 1500 t = Some (f, [])"
proof -
  let ?a = "demo_frame 0 [1, 2]" and ?b = "demo_frame 2 [3, 4]"
  have p: "parse ?a = Some \<lparr>payload_at = 54, payload_len = 2, sg_seq = 0, sg_flags = 0x10\<rparr>"
    "parse ?b = Some \<lparr>payload_at = 54, payload_len = 2, sg_seq = 2, sg_flags = 0x10\<rparr>"
    by (simp_all add: demo_frame_parse)
  have "length ?a = 56" "flow_of ?a = flow_of ?b" "54 \<le> length ?b" by (simp_all add: demo_frame_def flow_of_def sub_def)
  then have "continues ?a \<lparr>payload_at = 54, payload_len = 2, sg_seq = 0, sg_flags = 0x10\<rparr>
      ?b \<lparr>payload_at = 54, payload_len = 2, sg_seq = 2, sg_flags = 0x10\<rparr>"
    by (simp add: continues_iff TCP_FLAGS_NOT_DATA_def)
  then show ?thesis using p \<open>length ?a = 56\<close>
    by (simp add: pop_coalesced_def lro_lens)
qed

theorem pop_coalesced_stream_witness:
  "\<exists>f. pop_coalesced [demo_frame 0 [1, 2], demo_frame 2 [3, 4]] 1500 True = Some (f, []) \<and>
     payload f = [1, 2, 3, 4] \<and> length f \<le> 1500"
proof -
  obtain f where f: "pop_coalesced [demo_frame 0 [1, 2], demo_frame 2 [3, 4]] 1500 True = Some (f, [])"
    using demo_coalesce by blast
  have "payload (demo_frame 0 [1, 2]) = [1, 2]" "payload (demo_frame 2 [3, 4]) = [3, 4]"
    by (simp_all add: payload_def demo_frame_def)
  then show ?thesis using pop_coalesced_stream [OF f] f by auto
qed



end
