(* ===== verification/Net.thy ===== *)
theory Net
  imports Lro
begin

text \<open>
  The virtio-net device (\<^verbatim>\<open>src/hypervisor/src/hvf/virtio/net.rs\<close>): the receive backlog, the burst
  service of the responder, and the minimal responder that answers ARP requests and pings for a
  synthetic gateway. The trait \<^verbatim>\<open>NetResponder\<close> is a record of its two data-path operations over an
  arbitrary responder state; the policy and audit pass-throughs carry no frames and are left
  to the model of the NAT.
\<close>

subsection \<open>Constants\<close>

definition VIRTIO_NET_HDR_LEN :: nat where "VIRTIO_NET_HDR_LEN = 12"
definition SERVICE_BURST_PASSES :: nat where "SERVICE_BURST_PASSES = 32"
definition VIRTIO_NET_HDR_F_DATA_VALID :: u8 where "VIRTIO_NET_HDR_F_DATA_VALID = 2"
definition VIRTIO_NET_F_GUEST_CSUM :: u64 where "VIRTIO_NET_F_GUEST_CSUM = push_bit 1 1"
definition ETHERTYPE_ARP :: u16 where "ETHERTYPE_ARP = 0x0806"
definition ARP_OP_REQUEST :: u16 where "ARP_OP_REQUEST = 1"
definition ARP_OP_REPLY :: u16 where "ARP_OP_REPLY = 2"
definition IP_PROTO_ICMP :: u8 where "IP_PROTO_ICMP = 1"
definition ICMP_ECHO_REQUEST :: u8 where "ICMP_ECHO_REQUEST = 8"
definition ICMP_ECHO_REPLY :: u8 where "ICMP_ECHO_REPLY = 0"

lemmas net_consts [eval_simps] = VIRTIO_NET_HDR_LEN_def SERVICE_BURST_PASSES_def
  VIRTIO_NET_HDR_F_DATA_VALID_def VIRTIO_NET_F_GUEST_CSUM_def ETHERTYPE_ARP_def ARP_OP_REQUEST_def
  ARP_OP_REPLY_def IP_PROTO_ICMP_def ICMP_ECHO_REQUEST_def ICMP_ECHO_REPLY_def

subsection \<open>The echo responder\<close>

record echo_responder =
  gateway_ip :: bytes
  gateway_mac :: bytes
  replies :: "bytes list"

definition echo_new :: "bytes \<Rightarrow> bytes \<Rightarrow> echo_responder" where
  "echo_new ip mac = \<lparr>gateway_ip = ip, gateway_mac = mac, replies = []\<rparr>"

definition handle_arp :: "echo_responder \<Rightarrow> bytes \<Rightarrow> bytes option" where
  "handle_arp r frame =
     (if length frame < 14 + 28 then None
      else let arp = sub frame 14 (14 + 28)
           in if be16 (arp ! 6) (arp ! 7) \<noteq> ARP_OP_REQUEST then None
              else let sha = sub arp 8 14; spa = sub arp 14 18; tpa = sub arp 24 28
                   in if tpa \<noteq> gateway_ip r then None
                      else Some (sha @ gateway_mac r @ be_bytes ETHERTYPE_ARP @
                             be_bytes (1 :: u16) @ be_bytes ETHERTYPE_IPV4 @ [6] @ [4] @ be_bytes ARP_OP_REPLY @
                             gateway_mac r @ gateway_ip r @ sha @ spa))"

text \<open>
  The reply packet of an echo request \<open>ip\<close> with a header of \<open>ihl\<close> bytes: addresses swapped, type
  changed, both checksums recomputed.
\<close>

definition echo_rewrite :: "bytes \<Rightarrow> nat \<Rightarrow> bytes" where
  "echo_rewrite ip ihl =
     (let o1 = overwrite 12 (sub ip 16 20) ip;
          o2 = overwrite 16 (sub ip 12 16) o1;
          o3 = o2[10 := 0, 11 := 0];
          o4 = overwrite 10 (be_bytes (checksum (take ihl o3))) o3;
          o5 = o4[ihl := ICMP_ECHO_REPLY, ihl + 2 := 0, ihl + 3 := 0]
      in overwrite (ihl + 2) (be_bytes (checksum (drop ihl o5))) o5)"

definition handle_ipv4 :: "echo_responder \<Rightarrow> bytes \<Rightarrow> bytes option" where
  "handle_ipv4 r frame =
     (if length frame < 14 + 20 then None
      else let eth_src = sub frame 6 12; ip = drop 14 frame; ihl = unat (ip ! 0 AND 0x0f) * 4
           in if ihl < 20 \<or> length ip < ihl then None
              else if ip ! 9 \<noteq> IP_PROTO_ICMP then None
              else if sub ip 16 20 \<noteq> gateway_ip r then None
              else let icmp = drop ihl ip
                   in if length icmp < 8 \<or> icmp ! 0 \<noteq> ICMP_ECHO_REQUEST then None
                      else Some (eth_src @ gateway_mac r @ be_bytes ETHERTYPE_IPV4 @ echo_rewrite ip ihl))"

definition echo_accept :: "echo_responder \<Rightarrow> bytes \<Rightarrow> echo_responder" where
  "echo_accept r frame =
     (if length frame < 14 then r
      else let ethertype = be16 (frame ! 12) (frame ! 13);
               reply = (if ethertype = ETHERTYPE_ARP then handle_arp r frame
                        else if ethertype = ETHERTYPE_IPV4 then handle_ipv4 r frame
                        else None)
           in r\<lparr>replies := replies r @ (case reply of None \<Rightarrow> [] | Some x \<Rightarrow> [x])\<rparr>)"

definition echo_service :: "echo_responder \<Rightarrow> bytes list \<times> echo_responder" where
  "echo_service r = (replies r, r\<lparr>replies := []\<rparr>)"

subsection \<open>The device\<close>

record 'r responder_ops =
  nr_accept :: "'r \<Rightarrow> bytes \<Rightarrow> 'r"
  nr_service :: "'r \<Rightarrow> bytes list \<times> 'r"

definition echo_ops :: "echo_responder responder_ops" where
  "echo_ops = \<lparr>nr_accept = echo_accept, nr_service = echo_service\<rparr>"

record 'r net_device =
  nd_responder :: 'r
  pending_rx :: "bytes list"
  rx_capacity :: "nat option"
  guest_csum :: bool

definition net_new :: "'r \<Rightarrow> 'r net_device" where
  "net_new r = \<lparr>nd_responder = r, pending_rx = [], rx_capacity = None, guest_csum = False\<rparr>"

definition apply_features :: "'r net_device \<Rightarrow> u64 \<Rightarrow> 'r net_device" where
  "apply_features d acked = d\<lparr>guest_csum := (acked AND VIRTIO_NET_F_GUEST_CSUM \<noteq> 0)\<rparr>"

definition with_features :: "'r net_device \<Rightarrow> u64 \<Rightarrow> 'r net_device" where
  "with_features d acked = apply_features d acked"

definition rx_header_flags :: "'r net_device \<Rightarrow> u8" where
  "rx_header_flags d = (if guest_csum d then VIRTIO_NET_HDR_F_DATA_VALID else 0)"

definition observe_rx_capacity :: "'r net_device \<Rightarrow> nat \<Rightarrow> 'r net_device" where
  "observe_rx_capacity d n =
     d\<lparr>rx_capacity := Some (case rx_capacity d of Some prev \<Rightarrow> min prev n | None \<Rightarrow> n)\<rparr>"

definition handle_tx_frame :: "'r responder_ops \<Rightarrow> 'r net_device \<Rightarrow> bytes \<Rightarrow> 'r net_device" where
  "handle_tx_frame ops d frame = d\<lparr>nd_responder := nr_accept ops (nd_responder d) frame\<rparr>"

definition rx_limit :: "'r net_device \<Rightarrow> nat" where
  "rx_limit d = (case rx_capacity d of None \<Rightarrow> 0 | Some cap \<Rightarrow> cap - VIRTIO_NET_HDR_LEN)"

fun service_passes ::
  "'r responder_ops \<Rightarrow> nat \<Rightarrow> nat \<Rightarrow> nat \<Rightarrow> bool \<Rightarrow> 'r net_device \<Rightarrow> bool \<times> 'r net_device" where
  "service_passes ops 0 target pending_bytes produced d = (produced, d)"
| "service_passes ops (Suc n) target pending_bytes produced d =
     (case nr_service ops (nd_responder d) of
        (frames, r) \<Rightarrow>
          (let d' = d\<lparr>nd_responder := r, pending_rx := pending_rx d @ frames\<rparr>;
               pending_bytes' = pending_bytes + sum_list (map length frames);
               any = (frames \<noteq> []);
               produced' = (produced \<or> any)
           in if \<not> any \<or> target \<le> pending_bytes' then (produced', d')
              else service_passes ops n target pending_bytes' produced' d'))"

definition net_service :: "'r responder_ops \<Rightarrow> 'r net_device \<Rightarrow> bool \<times> 'r net_device" where
  "net_service ops d =
     service_passes ops SERVICE_BURST_PASSES (rx_limit d) (sum_list (map length (pending_rx d))) False d"

definition has_pending_rx :: "'r net_device \<Rightarrow> bool" where
  "has_pending_rx d \<longleftrightarrow> pending_rx d \<noteq> []"

definition pop_rx :: "'r net_device \<Rightarrow> (bytes \<times> 'r net_device) option" where
  "pop_rx d =
     (case pop_coalesced (pending_rx d) (rx_limit d) (\<not> guest_csum d) of
        None \<Rightarrow> None
      | Some (f, q) \<Rightarrow> Some (f, d\<lparr>pending_rx := q\<rparr>))"

definition requeue_rx :: "'r net_device \<Rightarrow> bytes \<Rightarrow> 'r net_device" where
  "requeue_rx d frame = d\<lparr>pending_rx := frame # pending_rx d\<rparr>"

subsection \<open>The echo reply\<close>

lemma update_pair: "i + 2 \<le> length xs \<Longrightarrow> xs[i := a, i + 1 := b] = overwrite i [a, b] xs"
  by (intro nth_equalityI) (auto simp: nth_overwrite nth_list_update)

lemma take_sub: "take n f = sub f 0 n"
  by (simp add: sub_def)

text \<open>Setting a checksum field inside the part \<open>[a, b)\<close> of a packet makes that part verify.\<close>

lemma store_checksum:
  assumes "even p" "a + p + 2 \<le> b" "b \<le> length f" "b - a \<le> 65549"
    and g: "g = overwrite (a + p) (be_bytes (checksum (sub (overwrite (a + p) [0, 0] f) a b))) (overwrite (a + p) [0, 0] f)"
  shows "checksum (sub g a b) = 0" "length g = length f"
    "\<And>i. i < length f \<Longrightarrow> i \<noteq> a + p \<Longrightarrow> i \<noteq> a + p + 1 \<Longrightarrow> g ! i = f ! i"
proof -
  have l2: "length (be_bytes (w :: u16)) = 2" for w by (rule be16.length_enc)
  have z: "sub (overwrite (a + p) [0, 0] f) a b = zero_field p (sub f a b)"
    using assms(2,3) by (subst sub_overwrite) (simp_all add: zero_field_def)
  have g': "g = overwrite (a + p) (be_bytes (checksum (zero_field p (sub f a b)))) f"
    unfolding g z using assms(2,3) l2 by (intro overwrite_twice) simp_all
  have "sub g a b = overwrite p (be_bytes (checksum (zero_field p (sub f a b)))) (sub f a b)"
    unfolding g' using assms(2,3) l2 by (subst sub_overwrite) simp_all
  moreover have "unat (0 :: u32) + 65535 * ((length (sub f a b) + 1) div 2) + 65535 < 2 ^ 32"
  proof -
    have "(length (sub f a b) + 1) div 2 \<le> 32775" using assms(3,4) by simp
    then show ?thesis by simp
  qed
  ultimately show "checksum (sub g a b) = 0"
    using assms(1-3) by (simp add: checksum_ones_complement checksum_verifies)
  show "length g = length f" unfolding g' using assms(2,3) l2 by simp
  show "g ! i = f ! i" if "i < length f" "i \<noteq> a + p" "i \<noteq> a + p + 1" for i
    unfolding g' using that assms(2,3) l2 by (auto simp: nth_overwrite)
qed

lemma handle_ipv4_SomeD:
  assumes "handle_ipv4 r frame = Some reply" "ihl = unat (frame ! 14 AND 0x0f) * 4" "ip = drop 14 frame"
  shows "20 \<le> ihl \<and> ihl + 8 \<le> length ip \<and> sub ip 16 20 = gateway_ip r \<and>
    reply = sub frame 6 12 @ gateway_mac r @ be_bytes ETHERTYPE_IPV4 @ echo_rewrite ip ihl"
proof -
  have "34 \<le> length frame" using assms(1) by (auto simp: handle_ipv4_def split: if_splits)
  then have "frame ! 14 = ip ! 0" unfolding assms(3) by simp
  then show ?thesis
    using assms(1) unfolding handle_ipv4_def Let_def assms(3) [symmetric] assms(2)
    by (auto split: if_splits)
qed

text \<open>The rewritten packet with its two-byte updates as slices.\<close>

definition echo_ip :: "bytes \<Rightarrow> nat \<Rightarrow> bytes" where
  "echo_ip ip ihl =
     (let o2 = overwrite 16 (sub ip 12 16) (overwrite 12 (sub ip 16 20) ip);
          o3 = overwrite 10 [0, 0] o2;
          o4 = overwrite 10 (be_bytes (checksum (sub o3 0 ihl))) o3;
          o5 = overwrite (ihl + 2) [0, 0] (o4[ihl := ICMP_ECHO_REPLY])
      in overwrite (ihl + 2) (be_bytes (checksum (sub o5 ihl (length o5)))) o5)"

lemma echo_rewrite_ip:
  assumes "20 \<le> ihl" "ihl + 8 \<le> length ip"
  shows "echo_rewrite ip ihl = echo_ip ip ihl"
proof -
  let ?o2 = "overwrite 16 (sub ip 12 16) (overwrite 12 (sub ip 16 20) ip)"
  have l2: "length (be_bytes (w :: u16)) = 2" for w by (rule be16.length_enc)
  have lo: "length ?o2 = length ip" using assms by simp
  have u1: "?o2[10 := 0, 11 := 0] = overwrite 10 [0, 0] ?o2"
    using update_pair [of 10 ?o2 0 0] lo assms by simp
  let ?o4 = "overwrite 10 (be_bytes (checksum (sub (overwrite 10 [0, 0] ?o2) 0 ihl))) (overwrite 10 [0, 0] ?o2)"
  have l4: "length ?o4 = length ip" using lo assms l2 by simp
  have u2: "?o4[ihl := ICMP_ECHO_REPLY, ihl + 2 := 0, ihl + 3 := 0] =
      overwrite (ihl + 2) [0, 0] (?o4[ihl := ICMP_ECHO_REPLY])"
    using update_pair [of "ihl + 2" "?o4[ihl := ICMP_ECHO_REPLY]" 0 0] l4 assms by (simp add: numeral_3_eq_3)
  show ?thesis unfolding echo_rewrite_def echo_ip_def Let_def u1 take_sub u2 by (simp only: drop_sub)
qed

lemma echo_ip_spec:
  assumes "20 \<le> ihl" "even ihl" "ihl + 8 \<le> length ip" "length ip \<le> 65535" "p = echo_ip ip ihl"
  shows "length p = length ip" "checksum (take ihl p) = 0" "checksum (drop ihl p) = 0" "p ! ihl = 0"
    "sub p 12 16 = sub ip 16 20" "sub p 16 20 = sub ip 12 16" "drop (ihl + 4) p = drop (ihl + 4) ip"
proof -
  let ?o2 = "overwrite 16 (sub ip 12 16) (overwrite 12 (sub ip 16 20) ip)"
  let ?o4 = "overwrite 10 (be_bytes (checksum (sub (overwrite 10 [0, 0] ?o2) 0 ihl))) (overwrite 10 [0, 0] ?o2)"
  let ?i4 = "?o4[ihl := ICMP_ECHO_REPLY]"
  have lo: "length ?o2 = length ip" using assms(1,3) by simp
  note c4 = store_checksum [of 10 0 ihl ?o2 ?o4, simplified]
  have l4: "length ?o4 = length ip" "checksum (sub ?o4 0 ihl) = 0"
    "\<And>i. i < length ip \<Longrightarrow> i \<noteq> 10 \<Longrightarrow> i \<noteq> 11 \<Longrightarrow> ?o4 ! i = ?o2 ! i"
    using c4 lo assms(1,3,4) by simp_all
  have p: "p = overwrite (ihl + 2) (be_bytes (checksum (sub (overwrite (ihl + 2) [0, 0] ?i4) ihl (length ip))))
      (overwrite (ihl + 2) [0, 0] ?i4)"
    using assms(3) l4(1) unfolding assms(5) echo_ip_def Let_def by simp
  note c6 = store_checksum [of 2 ihl "length ip" ?i4 p, OF _ _ _ _ p]
  have l6: "length p = length ip" "checksum (sub p ihl (length ip)) = 0"
    "\<And>i. i < length ip \<Longrightarrow> i \<noteq> ihl + 2 \<Longrightarrow> i \<noteq> ihl + 3 \<Longrightarrow> p ! i = ?i4 ! i"
    using c6 l4(1) assms(3,4) by (simp_all add: numeral_3_eq_3)
  show "length p = length ip" by (rule l6(1))
  have "sub p 0 ihl = sub ?o4 0 ihl" using l6 l4(1) assms(3) by (intro sub_eqI) simp_all
  then show "checksum (take ihl p) = 0" using l4(2) by (simp add: take_sub)
  show "checksum (drop ihl p) = 0" using l6(1,2) by (simp add: drop_sub)
  show "p ! ihl = 0" using l6(3) [of ihl] l4(1) assms(3) by (simp add: ICMP_ECHO_REPLY_def)
  have nth: "p ! i = ?o2 ! i" if "i < length ip" "i \<notin> {10, 11, ihl, ihl + 2, ihl + 3}" for i
    using that l6(3) l4(3) by simp
  have "sub p 12 16 = sub ?o2 12 16" "sub p 16 20 = sub ?o2 16 20"
    using l6(1) lo assms(1,3) by (intro sub_eqI; simp add: nth)+
  moreover have "sub ?o2 12 16 = sub ip 16 20" "sub ?o2 16 20 = sub ip 12 16"
  proof -
    have "sub ?o2 12 16 = sub (overwrite 12 (sub ip 16 20) ip) 12 16"
      using assms(1,3) by (intro sub_overwrite_disjoint) simp_all
    also have "\<dots> = sub ip 16 20"
      using assms(1,3) slice_overwrite_same [of 12 "sub ip 16 20" ip] by (simp add: sub_def)
    finally show "sub ?o2 12 16 = sub ip 16 20" .
    show "sub ?o2 16 20 = sub ip 12 16"
      using assms(1,3) slice_overwrite_same [of 16 "sub ip 12 16" "overwrite 12 (sub ip 16 20) ip"]
      by (simp add: sub_def)
  qed
  ultimately show "sub p 12 16 = sub ip 16 20" "sub p 16 20 = sub ip 12 16" by simp_all
  show "drop (ihl + 4) p = drop (ihl + 4) ip"
    by (rule nth_equalityI) (use l6(1) assms(1,3) in \<open>auto simp: nth nth_overwrite\<close>)
qed

subsection \<open>The backlog\<close>

lemma service_passes_backlog:
  "\<exists>fs. pending_rx (snd (service_passes ops n target k p d)) = pending_rx d @ fs \<and>
     fst (service_passes ops n target k p d) = (p \<or> fs \<noteq> []) \<and>
     rx_capacity (snd (service_passes ops n target k p d)) = rx_capacity d \<and>
     guest_csum (snd (service_passes ops n target k p d)) = guest_csum d"
proof (induction n arbitrary: k p d)
  case (Suc n)
  obtain frames r where r: "nr_service ops (nd_responder d) = (frames, r)" by (cases "nr_service ops (nd_responder d)")
  let ?d = "d\<lparr>nd_responder := r, pending_rx := pending_rx d @ frames\<rparr>"
  from Suc.IH [of "k + sum_list (map length frames)" "p \<or> frames \<noteq> []" ?d] obtain fs where
    "pending_rx (snd (service_passes ops n target (k + sum_list (map length frames)) (p \<or> frames \<noteq> []) ?d)) =
       pending_rx d @ frames @ fs"
    "fst (service_passes ops n target (k + sum_list (map length frames)) (p \<or> frames \<noteq> []) ?d) =
       ((p \<or> frames \<noteq> []) \<or> fs \<noteq> [])"
    "rx_capacity (snd (service_passes ops n target (k + sum_list (map length frames)) (p \<or> frames \<noteq> []) ?d)) =
       rx_capacity d"
    "guest_csum (snd (service_passes ops n target (k + sum_list (map length frames)) (p \<or> frames \<noteq> []) ?d)) =
       guest_csum d"
    by auto
  then show ?case using r by (auto simp: Let_def intro: exI [of _ "frames @ fs"] exI [of _ frames])
qed simp

lemma pop_rx_capacity:
  assumes "pop_rx d = Some (f, d')"
  shows "length f \<le> max (rx_limit d) (length (hd (pending_rx d)))" and "length (pending_rx d') < length (pending_rx d)"
proof -
  obtain q where p: "pop_coalesced (pending_rx d) (rx_limit d) (\<not> guest_csum d) = Some (f, q)"
    and d': "d' = d\<lparr>pending_rx := q\<rparr>"
    using assms by (auto simp: pop_rx_def split: option.splits)
  from pop_coalesced_run [OF p] obtain x run where
    "pending_rx d = x # run @ q" "run = [] \<longrightarrow> f = x" "run \<noteq> [] \<longrightarrow> length f \<le> rx_limit d" by blast
  then show "length f \<le> max (rx_limit d) (length (hd (pending_rx d)))" "length (pending_rx d') < length (pending_rx d)"
    using d' by (cases "run = []"; simp)+
qed

subsection \<open>Properties\<close>

text \<open>
  C14. A ping of the gateway is answered correctly: the reply goes to the asking station from
  the gateway's addresses, is an echo reply that repeats the identifier, the sequence number and
  the data of the request, has the request's length, and both its IP header and its ICMP
  message carry checksums that verify.
\<close>

theorem echo_reply_correct:
  assumes "handle_ipv4 r frame = Some reply" "length (gateway_mac r) = 6" "length frame \<le> 65549"
    "ihl = unat (frame ! 14 AND 0x0f) * 4"
  shows "length reply = length frame \<and> sub reply 0 6 = sub frame 6 12 \<and> sub reply 6 12 = gateway_mac r \<and>
    sub (drop 14 reply) 12 16 = gateway_ip r \<and> sub (drop 14 reply) 16 20 = sub (drop 14 frame) 12 16 \<and>
    checksum (take ihl (drop 14 reply)) = 0 \<and> checksum (drop ihl (drop 14 reply)) = 0 \<and>
    drop 14 reply ! ihl = ICMP_ECHO_REPLY \<and> drop (14 + ihl + 4) reply = drop (14 + ihl + 4) frame"
proof -
  let ?ip = "drop 14 frame"
  have h: "20 \<le> ihl" "ihl + 8 \<le> length ?ip" "sub ?ip 16 20 = gateway_ip r"
    "reply = sub frame 6 12 @ gateway_mac r @ be_bytes ETHERTYPE_IPV4 @ echo_rewrite ?ip ihl"
    using handle_ipv4_SomeD [OF assms(1,4) refl] by simp_all
  have l2: "length (be_bytes ETHERTYPE_IPV4) = 2" by (rule be16.length_enc)
  have l6: "length (sub frame 6 12) = 6" using h(2) by simp
  have ip: "drop 14 reply = echo_ip ?ip ihl"
    using h l2 l6 assms(2) by (simp add: echo_rewrite_ip)
  have "even ihl" using assms(4) by simp
  note e = echo_ip_spec [OF h(1) this h(2) _ ip]
  have len: "length (drop 14 reply) = length ?ip" using e(1) assms(3) by simp
  have "length reply = length frame" using h(2,4) l2 l6 assms(2) len by simp
  moreover have "sub reply 0 6 = sub frame 6 12" "sub reply 6 12 = gateway_mac r"
    using h(4) l6 assms(2) by (simp_all add: sub_def)
  ultimately show ?thesis using e h(3) assms(3) by (simp add: ICMP_ECHO_REPLY_def add.commute add.left_commute)
qed

definition demo_ping :: bytes where
  "demo_ping = [2, 0, 0, 0, 0, 9, 2, 0, 0, 0, 0, 1, 8, 0,
     0x45, 0, 0, 30, 0, 0, 0, 0, 64, 1, 0, 0, 10, 0, 0, 2, 10, 0, 0, 1,
     8, 0, 0, 0, 0, 7, 0, 1, 42, 43]"

theorem echo_reply_correct_witness:
  "\<exists>reply. handle_ipv4 (echo_new [10, 0, 0, 1] [2, 0, 0, 0, 0, 9]) demo_ping = Some reply \<and>
     sub reply 0 6 = [2, 0, 0, 0, 0, 1] \<and> drop 38 reply = [0, 7, 0, 1, 42, 43] \<and>
     checksum (take 20 (drop 14 reply)) = 0 \<and> checksum (drop 20 (drop 14 reply)) = 0"
proof -
  have "\<exists>reply. handle_ipv4 (echo_new [10, 0, 0, 1] [2, 0, 0, 0, 0, 9]) demo_ping = Some reply"
    by (simp add: handle_ipv4_def demo_ping_def echo_new_def sub_def eval_simps)
  then obtain reply where r: "handle_ipv4 (echo_new [10, 0, 0, 1] [2, 0, 0, 0, 0, 9]) demo_ping = Some reply" ..
  have "20 = unat (demo_ping ! 14 AND 0x0f) * 4" by (simp add: demo_ping_def)
  from echo_reply_correct [OF r _ _ this] r show ?thesis
    by (simp add: echo_new_def demo_ping_def sub_def)
qed

end
