(* ===== verification/Devcore.thy ===== *)
theory Devcore
  imports Overlay Net
begin

text \<open>
  The transport-independent half of a virtio device
  (\<^verbatim>\<open>src/hypervisor/src/hvf/virtio/devcore.rs\<close>) with the entropy device
  (\<^verbatim>\<open>src/hypervisor/src/hvf/virtio/rng.rs\<close>): draining a notified queue through the backend,
  publishing completions, deciding the interrupt and re-arming notification, and the two
  directions of virtio-net. The host sides of the three backends are records of operations. An
  interrupt signal is recorded in the trace \<open>signals\<close>, oldest first. A loop that does not end is
  \<open>None\<close>, a Rust panic is \<open>Panicked\<close>.
\<close>

subsection \<open>The entropy device\<close>

type_synonym 's entropy_fill = "'s \<Rightarrow> bytes \<Rightarrow> bytes \<times> 's"

text \<open>
  The open random device is the stream of bytes still to come. A short read leaves the tail of
  the buffer as it is.
\<close>

definition urandom_fill :: "bytes entropy_fill" where
  "urandom_fill file buf = (take (length buf) file @ drop (length file) buf, drop (length buf) file)"

fun rng_segs ::
  "'s entropy_fill \<Rightarrow> 's \<Rightarrow> guest_memory \<Rightarrow> u32 \<Rightarrow> segment list \<Rightarrow> u32 \<times> 's \<times> guest_memory" where
  "rng_segs fill s m written [] = (written, s, m)"
| "rng_segs fill s m written (seg # segs) =
     (case fill s (replicate (unat (seg_len seg)) 0) of
        (buf, s') \<Rightarrow>
          (case gm_write m (seg_gpa seg) buf of
             Inl e \<Rightarrow> (written, s', m)
           | Inr m' \<Rightarrow> rng_segs fill s' m' (sat_add written (seg_len seg)) segs))"

definition rng_process ::
  "'s entropy_fill \<Rightarrow> 's \<Rightarrow> guest_memory \<Rightarrow> desc_chain \<Rightarrow> u32 \<times> 's \<times> guest_memory" where
  "rng_process fill s m chain = rng_segs fill s m 0 (writable chain)"

subsection \<open>State\<close>

definition DEVICE_STATUS_DRIVER_OK :: u8 where "DEVICE_STATUS_DRIVER_OK = 0x04"
definition NET_RX_QUEUE :: u16 where "NET_RX_QUEUE = 0"
definition NET_TX_QUEUE :: u16 where "NET_TX_QUEUE = 1"

lemmas devcore_consts [eval_simps] = DEVICE_STATUS_DRIVER_OK_def NET_RX_QUEUE_def NET_TX_QUEUE_def

datatype ('b, 's, 'r) backend = Block "'b block_device" | Rng 's | Net "'r net_device"

record ('b, 's, 'r) host_ops =
  ho_block :: "'b backend_ops"
  ho_fill :: "'s entropy_fill"
  ho_net :: "'r responder_ops"

record virtio_config =
  device_feature_select :: u32
  driver_feature_select :: u32
  device_features :: u64
  driver_features :: u64
  msix_config :: u16
  num_queues :: u16
  device_status :: u8
  config_generation :: u8
  queue_select :: u16

record ('b, 's, 'r) device_core =
  common :: virtio_config
  queues :: "queue list"
  queue_vectors :: "u16 list"
  dc_backend :: "('b, 's, 'r) backend"
  device_config :: bytes
  isr_status :: u8
  dc_mem :: guest_memory
  signals :: "u16 list"
  transport_signals :: bool

subsection \<open>Injectors\<close>

definition msi_spi_signal :: "u32 list \<Rightarrow> u16 \<Rightarrow> u32 option" where
  "msi_spi_signal vector_intids vector =
     (if unat vector < length vector_intids then Some (vector_intids ! unat vector) else None)"

subsection \<open>Draining a queue\<close>

definition is_net :: "('b, 's, 'r) backend \<Rightarrow> bool" where
  "is_net b = (case b of Net _ \<Rightarrow> True | _ \<Rightarrow> False)"

definition backend_process ::
  "('b, 's, 'r) host_ops \<Rightarrow> ('b, 's, 'r) backend \<Rightarrow> guest_memory \<Rightarrow> desc_chain \<Rightarrow>
     (u32 \<times> ('b, 's, 'r) backend \<times> guest_memory) option" where
  "backend_process ops bk m chain =
     (case bk of
        Block d \<Rightarrow>
          (case process (ho_block ops) d m chain of
             None \<Rightarrow> None
           | Some (c, d', m') \<Rightarrow> Some (c_used_len c, Block d', m'))
      | Rng s \<Rightarrow> (case rng_process (ho_fill ops) s m chain of (n, s', m') \<Rightarrow> Some (n, Rng s', m'))
      | Net n \<Rightarrow> Some (0, Net n, m))"

text \<open>The inner loop of \<^verbatim>\<open>notify\<close>: pop and process until the ring is empty or unreadable.\<close>

partial_function (option) drain ::
  "('b, 's, 'r) host_ops \<Rightarrow> queue \<Rightarrow> ('b, 's, 'r) backend \<Rightarrow> guest_memory \<Rightarrow> bool \<Rightarrow>
     (queue \<times> ('b, 's, 'r) backend \<times> guest_memory \<times> bool) outcome option"
where
  "drain ops q bk m completed_any =
     (case pop q m of
        None \<Rightarrow> None
      | Some (Inl Panic) \<Rightarrow> Some Panicked
      | Some (Inl (MemFault e)) \<Rightarrow> Some (Done (q, bk, m, completed_any))
      | Some (Inr None) \<Rightarrow> Some (Done (q, bk, m, completed_any))
      | Some (Inr (Some (chain, q1))) \<Rightarrow>
          (case backend_process ops bk m chain of
             None \<Rightarrow> None
           | Some (used_len, bk', m1) \<Rightarrow>
               (case add_used q1 m1 (head chain) used_len of
                  (r, q2, m2) \<Rightarrow>
                    (if r = Inl Panic then Some Panicked else drain ops q2 bk' m2 True))))"

definition vector_of :: "('b, 's, 'r) device_core \<Rightarrow> nat \<Rightarrow> u16" where
  "vector_of c i = (if i < length (queue_vectors c) then queue_vectors c ! i else 0)"

text \<open>What follows a batch of completions: the ISR bit, then the interrupt unless suppressed.\<close>

definition after_completion ::
  "('b, 's, 'r) device_core \<Rightarrow> nat \<Rightarrow> u16 \<Rightarrow> ('b, 's, 'r) device_core" where
  "after_completion c i old_used =
     (let q = queues c ! i;
          needs = (case needs_interrupt q (dc_mem c) old_used (next_used q) of Inl e \<Rightarrow> True | Inr b \<Rightarrow> b);
          c' = c\<lparr>isr_status := isr_status c OR 0x1\<rparr>
      in if needs \<and> \<not> transport_signals c' then c'\<lparr>signals := signals c' @ [vector_of c' i]\<rparr> else c')"

definition arm_queue :: "('b, 's, 'r) device_core \<Rightarrow> nat \<Rightarrow> ('b, 's, 'r) device_core" where
  "arm_queue c i =
     (case arm_notification (queues c ! i) (dc_mem c) of
        Inl e \<Rightarrow> c
      | Inr m \<Rightarrow> c\<lparr>dc_mem := m\<rparr>)"

partial_function (option) notify_loop ::
  "('b, 's, 'r) host_ops \<Rightarrow> ('b, 's, 'r) device_core \<Rightarrow> nat \<Rightarrow> ('b, 's, 'r) device_core outcome option"
where
  "notify_loop ops c i =
     (if length (queues c) \<le> i then Some (Done c)
      else (case drain ops (queues c ! i) (dc_backend c) (dc_mem c) False of
              None \<Rightarrow> None
            | Some Panicked \<Rightarrow> Some Panicked
            | Some (Done (q, bk, m, completed_any)) \<Rightarrow>
                (let old_used = next_used (queues c ! i);
                     c1 = c\<lparr>queues := (queues c)[i := q], dc_backend := bk, dc_mem := m\<rparr>;
                     c2 = (if completed_any then after_completion c1 i old_used else c1);
                     c3 = arm_queue c2 i
                 in if has_pending q (dc_mem c3) = Inr True then notify_loop ops c3 i
                    else Some (Done c3))))"

subsection \<open>virtio-net\<close>

definition read_frame :: "guest_memory \<Rightarrow> segment list \<Rightarrow> bytes" where
  "read_frame m segs =
     concat (map (\<lambda>s. case gm_read m (seg_gpa s) (unat (seg_len s)) of Inl e \<Rightarrow> [] | Inr bs \<Rightarrow> bs) segs)"

definition tx_frame ::
  "('b, 's, 'r) host_ops \<Rightarrow> ('b, 's, 'r) backend \<Rightarrow> bytes \<Rightarrow> ('b, 's, 'r) backend" where
  "tx_frame ops bk buf =
     (case bk of
        Net n \<Rightarrow> if VIRTIO_NET_HDR_LEN < length buf
                 then Net (handle_tx_frame (ho_net ops) n (drop VIRTIO_NET_HDR_LEN buf)) else bk
      | _ \<Rightarrow> bk)"

partial_function (option) drain_tx ::
  "('b, 's, 'r) host_ops \<Rightarrow> queue \<Rightarrow> ('b, 's, 'r) backend \<Rightarrow> guest_memory \<Rightarrow> bool \<Rightarrow>
     (queue \<times> ('b, 's, 'r) backend \<times> guest_memory \<times> bool) outcome option"
where
  "drain_tx ops q bk m completed =
     (case pop q m of
        None \<Rightarrow> None
      | Some (Inl Panic) \<Rightarrow> Some Panicked
      | Some (Inl (MemFault e)) \<Rightarrow> Some (Done (q, bk, m, completed))
      | Some (Inr None) \<Rightarrow> Some (Done (q, bk, m, completed))
      | Some (Inr (Some (chain, q1))) \<Rightarrow>
          (case add_used q1 m (head chain) 0 of
             (r, q2, m2) \<Rightarrow>
               (if r = Inl Panic then Some Panicked
                else drain_tx ops q2 (tx_frame ops bk (read_frame m (readable chain))) m2 True)))"

text \<open>Spreading header and frame over the chain's writable segments.\<close>

fun spread :: "guest_memory \<Rightarrow> bytes \<Rightarrow> nat \<Rightarrow> segment list \<Rightarrow> nat \<times> guest_memory" where
  "spread m pl offset [] = (offset, m)"
| "spread m pl offset (seg # segs) =
     (if length pl \<le> offset then (offset, m)
      else let n = min (unat (seg_len seg)) (length pl - offset)
           in case gm_write m (seg_gpa seg) (take n (drop offset pl)) of
                Inl e \<Rightarrow> (offset, m)
              | Inr m' \<Rightarrow> spread m' pl (offset + n) segs)"

definition rx_payload :: "u8 \<Rightarrow> bytes \<Rightarrow> bytes" where
  "rx_payload hdr_flags frame = (replicate VIRTIO_NET_HDR_LEN 0)[0 := hdr_flags, 10 := 1] @ frame"

partial_function (option) flush_loop ::
  "queue \<Rightarrow> 'r net_device \<Rightarrow> guest_memory \<Rightarrow> bool \<Rightarrow>
     (queue \<times> 'r net_device \<times> guest_memory \<times> bool) outcome option"
where
  "flush_loop q n m delivered =
     (if \<not> has_pending_rx n then Some (Done (q, n, m, delivered))
      else (case pop q m of
              None \<Rightarrow> None
            | Some (Inl Panic) \<Rightarrow> Some Panicked
            | Some (Inl (MemFault e)) \<Rightarrow> Some (Done (q, n, m, delivered))
            | Some (Inr None) \<Rightarrow> Some (Done (q, n, m, delivered))
            | Some (Inr (Some (chain, q1))) \<Rightarrow>
                (let n1 = observe_rx_capacity n (unat (writable_len chain))
                 in case pop_rx n1 of
                      None \<Rightarrow> Some (Done (q1, n1, m, delivered))
                    | Some (frame, n2) \<Rightarrow>
                        (case spread m (rx_payload (rx_header_flags n2) frame) 0 (writable chain) of
                           (written, m1) \<Rightarrow>
                             (case add_used q1 m1 (head chain) (of_nat written) of
                                (r, q2, m2) \<Rightarrow>
                                  (if r = Inl Panic then Some Panicked
                                   else flush_loop q2 n2 m2 True))))))"

definition flush_rx ::
  "('b, 's, 'r) device_core \<Rightarrow> (bool \<times> ('b, 's, 'r) device_core) outcome option" where
  "flush_rx c =
     (case dc_backend c of
        Net n \<Rightarrow>
          (if queues c = [] then Some (Done (False, c))
           else (case flush_loop (queues c ! 0) n (dc_mem c) False of
                   None \<Rightarrow> None
                 | Some Panicked \<Rightarrow> Some Panicked
                 | Some (Done (q, n', m, delivered)) \<Rightarrow>
                     (let old_used = next_used (queues c ! 0);
                          c1 = c\<lparr>queues := (queues c)[0 := q], dc_backend := Net n', dc_mem := m\<rparr>
                      in Some (Done (delivered,
                           if delivered then arm_queue (after_completion c1 0 old_used) 0 else c1)))))
      | _ \<Rightarrow> Some (Done (False, c)))"

definition notify_net ::
  "('b, 's, 'r) host_ops \<Rightarrow> ('b, 's, 'r) device_core \<Rightarrow> u16 \<Rightarrow> ('b, 's, 'r) device_core outcome option" where
  "notify_net ops c queue_index =
     (let tx = unat NET_TX_QUEUE;
          r = (if queue_index = NET_TX_QUEUE
               then (if length (queues c) \<le> tx then Some (Done (True, c))
                     else (case drain_tx ops (queues c ! tx) (dc_backend c) (dc_mem c) False of
                             None \<Rightarrow> None
                           | Some Panicked \<Rightarrow> Some Panicked
                           | Some (Done (q, bk, m, completed)) \<Rightarrow>
                               (let old_used = next_used (queues c ! tx);
                                    c1 = c\<lparr>queues := (queues c)[tx := q], dc_backend := bk, dc_mem := m\<rparr>;
                                    c2 = (if completed then after_completion c1 tx old_used else c1)
                                in Some (Done (False, arm_queue c2 tx)))))
               else if queue_index = NET_RX_QUEUE \<and> queues c \<noteq> []
               then Some (Done (False, arm_queue c 0))
               else Some (Done (False, c)))
      in case r of
           None \<Rightarrow> None
         | Some Panicked \<Rightarrow> Some Panicked
         | Some (Done (returned, c1)) \<Rightarrow>
             (if returned then Some (Done c1)
              else (case flush_rx c1 of
                      None \<Rightarrow> None
                    | Some Panicked \<Rightarrow> Some Panicked
                    | Some (Done (delivered, c2)) \<Rightarrow> Some (Done c2))))"

definition notify ::
  "('b, 's, 'r) host_ops \<Rightarrow> ('b, 's, 'r) device_core \<Rightarrow> u16 \<Rightarrow> ('b, 's, 'r) device_core outcome option" where
  "notify ops c queue_index =
     (if is_net (dc_backend c) then notify_net ops c queue_index
      else notify_loop ops c (unat queue_index))"

definition service_net ::
  "('b, 's, 'r) host_ops \<Rightarrow> ('b, 's, 'r) device_core \<Rightarrow> (bool \<times> ('b, 's, 'r) device_core) outcome option" where
  "service_net ops c =
     (case dc_backend c of
        Net n \<Rightarrow> flush_rx (c\<lparr>dc_backend := Net (snd (net_service (ho_net ops) n))\<rparr>)
      | _ \<Rightarrow> Some (Done (False, c)))"

subsection \<open>Register helpers\<close>

definition driver_ok :: "u8 \<Rightarrow> bool" where
  "driver_ok status \<longleftrightarrow> status AND DEVICE_STATUS_DRIVER_OK \<noteq> 0"

text \<open>\<^verbatim>\<open>fill_le\<close> overwrites a buffer of \<open>n\<close> bytes; bytes past the eighth are zero.\<close>

definition fill_le :: "nat \<Rightarrow> u64 \<Rightarrow> bytes" where
  "fill_le n value = map (\<lambda>i. if i < 8 then le_bytes value ! i else 0) [0..<n]"

definition parse_le :: "bytes \<Rightarrow> u64" where
  "parse_le data = of_le_bytes (overwrite 0 (take 8 data) (replicate 8 0))"

subsection \<open>Well-formed guest memory is kept\<close>

text \<open>Host operations fill the slice they are given, they cannot change its length.\<close>

definition ops_sane :: "('b, 's, 'r) host_ops \<Rightarrow> bool" where
  "ops_sane ops \<longleftrightarrow> (\<forall>b off buf. length (fst (snd (be_read_at (ho_block ops) b off buf))) = length buf) \<and>
     (\<forall>s buf. length (fst (ho_fill ops s buf)) = length buf)"

lemma with_slice_mut_ok:
  assumes "gm_ok m" "with_slice_mut m a n f = Inr (r, m')" "\<And>bs. length bs = n \<Longrightarrow> length (snd (f bs)) = n"
  shows "gm_ok m'"
proof -
  obtain i off where w: "with_ptr m a n = Inr (i, off)"
    using assms(2) by (auto simp: with_slice_mut_def split: sum.splits)
  note b = with_ptr_InrD [OF assms(1) w]
  let ?bs = "take n (drop off (r_bytes (m ! i)))"
  have "length ?bs = n" using gm_read_length [OF assms(1), of a n ?bs] w by (simp add: gm_read_def)
  then have l: "length (snd (f ?bs)) = n" by (rule assms(3))
  have "m' = m[i := (m ! i)\<lparr>r_bytes := overwrite off (snd (f ?bs)) (r_bytes (m ! i))\<rparr>]"
    using assms(2) w by (auto simp: with_slice_mut_def split: prod.splits)
  then show ?thesis using gm_ok_update [OF assms(1)] b l by (simp only: length_overwrite)
qed

lemma read_segs_gm_ok:
  assumes "\<And>b off buf. length (fst (snd (be_read_at ops b off buf))) = length buf"
  shows "gm_ok m \<Longrightarrow> gm_ok (snd (snd (snd (read_segs ops b m off w segs))))"
proof (induction segs arbitrary: b m off w)
  case (Cons s segs)
  let ?f = "\<lambda>buf. let (ok, buf', b') = be_read_at ops b off buf in ((ok, b'), buf')"
  show ?case
  proof (cases "with_slice_mut m (seg_gpa s) (unat (seg_len s)) ?f")
    case (Inr p)
    obtain ok b' m' where p: "p = ((ok, b'), m')" by (cases p) auto
    have "gm_ok m'"
    proof (rule with_slice_mut_ok [OF Cons.prems Inr [unfolded p]])
      show "length (snd (?f bs)) = unat (seg_len s)" if "length bs = unat (seg_len s)" for bs
        using assms [of b off bs] that by (cases "be_read_at ops b off bs") simp
    qed
    with Inr p Cons.IH Cons.prems show ?thesis by simp
  qed (use Cons.prems in simp)
qed simp

lemma gm_write_keep: "gm_ok m \<Longrightarrow> gm_ok (case gm_write m a bs of Inl e \<Rightarrow> m | Inr m' \<Rightarrow> m')"
  using ram.wr_ok by (auto split: sum.split)

lemma dispatch_type_gm_ok:
  assumes "\<And>b off buf. length (fst (snd (be_read_at ops b off buf))) = length buf"
    "gm_ok m" "dispatch_type ops d m chain t off = Some (r, d', m')"
  shows "gm_ok m'"
proof -
  have rd: "gm_ok m1" if "do_read ops (bd_backend d) m chain off = (st, n, b', m1)" for st n b' m1
    using read_segs_gm_ok [OF assms(1,2), of "bd_backend d" off 0 "butlast (writable chain)"] that
    by (simp add: do_read_def)
  have id: "gm_ok m1" if "do_get_id (bd_serial d) m chain = (st, n, m1)" for st n m1
    using that assms(2) ram.wr_ok [OF assms(2)]
    by (auto simp: do_get_id_def Let_def split: if_splits list.splits sum.splits)
  show ?thesis
    using assms(2,3) rd id
    by (auto simp: dispatch_type_def Let_def split: if_splits prod.splits option.splits)
qed

lemma process_gm_ok:
  assumes "\<And>b off buf. length (fst (snd (be_read_at ops b off buf))) = length buf"
    "gm_ok m" "process ops d m chain = Some (c, d', m')"
  shows "gm_ok m'"
proof -
  obtain r m1 where ds: "dispatch ops d m chain = Some (r, d', m1)" and m': "\<exists>st. m' = put_status m1 chain st"
    using assms(3) by (auto simp: process_def Let_def split: option.splits prod.splits)
  have "gm_ok m1"
    using ds assms(2) dispatch_type_gm_ok [OF assms(1,2)]
    by (auto simp: dispatch_def split: list.splits if_splits sum.splits option.splits)
  with m' show ?thesis by (auto simp: put_status_def Let_def intro: gm_write_keep)
qed

lemma rng_segs_gm_ok:
  assumes "\<And>s buf. length (fst (fill s buf)) = length buf"
  shows "gm_ok m \<Longrightarrow> gm_ok (snd (snd (rng_segs fill s m w segs)))"
  by (induction segs arbitrary: s m w) (auto split: prod.split sum.split dest: ram.wr_ok)

lemma backend_process_gm_ok:
  assumes "ops_sane ops" "gm_ok m" "backend_process ops bk m chain = Some (n, bk', m')"
  shows "gm_ok m'"
proof (cases bk)
  case (Block d)
  then show ?thesis using assms process_gm_ok [of "ho_block ops" m d chain]
    by (auto simp: backend_process_def ops_sane_def split: option.splits)
next
  case (Rng s)
  then show ?thesis using assms rng_segs_gm_ok [of "ho_fill ops" m s 0 "writable chain"]
    by (auto simp: backend_process_def ops_sane_def rng_process_def split: prod.splits)
next
  case (Net n)
  then show ?thesis using assms by (simp add: backend_process_def)
qed

lemma add_used_gm_ok: "gm_ok m \<Longrightarrow> gm_ok (snd (snd (add_used q m h len)))"
  by (simp add: add_used_def Let_def split: sum.split) (meson ram32.put_ok ram16.put_ok)

lemma arm_gm_ok: "gm_ok m \<Longrightarrow> arm_notification q m = Inr m' \<Longrightarrow> gm_ok m'"
  by (auto simp: arm_notification_def split: if_splits sum.splits dest: ram16.put_ok)

lemma drain_gm_ok:
  assumes "drain ops q bk m cp = Some y"
  shows "ops_sane ops \<longrightarrow> gm_ok m \<longrightarrow> (\<forall>q' bk' m' c'. y = Done (q', bk', m', c') \<longrightarrow> gm_ok m')"
proof (rule drain.raw_induct [OF _ assms], goal_cases)
  case (1 loop ops q bk m cp y)
  show ?case
  proof (intro impI)
    assume sane: "ops_sane ops" and ok: "gm_ok m"
    show "\<forall>q' bk' m' c'. y = Done (q', bk', m', c') \<longrightarrow> gm_ok m'"
    proof (cases "\<exists>chain q1 used_len bk1 m1. pop q m = Some (Inr (Some (chain, q1))) \<and>
        backend_process ops bk m chain = Some (used_len, bk1, m1)")
      case True
      then obtain chain q1 used_len bk1 m1 where p: "pop q m = Some (Inr (Some (chain, q1)))"
        "backend_process ops bk m chain = Some (used_len, bk1, m1)" by blast
      obtain r q2 m2 where a: "add_used q1 m1 (head chain) used_len = (r, q2, m2)" by (cases "add_used q1 m1 (head chain) used_len")
      have "gm_ok m2"
        using add_used_gm_ok [OF backend_process_gm_ok [OF sane ok p(2)], of q1 "head chain" used_len] a by simp
      with 1 p a sane show ?thesis by (auto split: if_splits)
    next
      case False
      with 1(2) ok show ?thesis
        by (auto split: option.splits sum.splits fault.splits prod.splits)
    qed
  qed
qed


subsection \<open>What notify leaves behind\<close>

lemma after_completion_fields [simp]:
  "queues (after_completion c i u) = queues c" "dc_mem (after_completion c i u) = dc_mem c"
  "transport_signals (after_completion c i u) = transport_signals c"
  "dc_backend (after_completion c i u) = dc_backend c"
  by (simp_all add: after_completion_def Let_def)

lemma arm_queue_fields [simp]:
  "queues (arm_queue c i) = queues c" "signals (arm_queue c i) = signals c"
  "transport_signals (arm_queue c i) = transport_signals c" "dc_backend (arm_queue c i) = dc_backend c"
  by (simp_all add: arm_queue_def split: sum.split)

lemma notify_loop_post:
  assumes "notify_loop ops c i = Some y"
  shows "ops_sane ops \<and> gm_ok (dc_mem c) \<longrightarrow> (\<forall>c'. y = Done c' \<longrightarrow> i < length (queues c') \<longrightarrow>
    has_pending (queues c' ! i) (dc_mem c') \<noteq> Inr True \<and> gm_ok (dc_mem c') \<and>
    (\<exists>m. gm_ok m \<and> (arm_notification (queues c' ! i) m = Inr (dc_mem c') \<or>
       (\<exists>e. arm_notification (queues c' ! i) m = Inl e \<and> dc_mem c' = m))))"
proof (rule notify_loop.raw_induct [OF _ assms], goal_cases)
  case (1 loop ops c i y)
  show ?case
  proof (cases "length (queues c) \<le> i")
    case True
    with 1(2) show ?thesis by auto
  next
    case False
    then have i: "i < length (queues c)" by simp
    show ?thesis
    proof (intro impI, elim conjE)
      assume sane: "ops_sane ops" and ok: "gm_ok (dc_mem c)"
      show "\<forall>c'. y = Done c' \<longrightarrow> i < length (queues c') \<longrightarrow>
        has_pending (queues c' ! i) (dc_mem c') \<noteq> Inr True \<and> gm_ok (dc_mem c') \<and>
        (\<exists>m. gm_ok m \<and> (arm_notification (queues c' ! i) m = Inr (dc_mem c') \<or>
           (\<exists>e. arm_notification (queues c' ! i) m = Inl e \<and> dc_mem c' = m)))"
      proof (cases "drain ops (queues c ! i) (dc_backend c) (dc_mem c) False")
        case None
        with 1(2) False show ?thesis by simp
      next
        case (Some r)
        show ?thesis
        proof (cases r)
          case Panicked
          with 1(2) False Some show ?thesis by auto
        next
          case (Done x)
          obtain q bk m completed where x: "x = (q, bk, m, completed)" by (cases x)
          let ?c1 = "c\<lparr>queues := (queues c)[i := q], dc_backend := bk, dc_mem := m\<rparr>"
          let ?c2 = "if completed then after_completion ?c1 i (next_used (queues c ! i)) else ?c1"
          let ?c3 = "arm_queue ?c2 i"
          have okm: "gm_ok m" using drain_gm_ok [OF Some] sane ok Done x by auto
          have q3: "queues ?c3 ! i = q" "queues ?c2 ! i = q" "dc_mem ?c2 = m" using i by simp_all
          have arm: "arm_notification q m = Inr (dc_mem ?c3) \<or> (\<exists>e. arm_notification q m = Inl e \<and> dc_mem ?c3 = m)"
            using q3 by (cases "arm_notification q m") (auto simp: arm_queue_def)
          have ok3: "gm_ok (dc_mem ?c3)" using arm okm arm_gm_ok [OF okm] by auto
          show ?thesis
          proof (cases "has_pending q (dc_mem ?c3) = Inr True")
            case True
            with 1(2) False Some Done x have "loop ops ?c3 i = Some y" by (simp add: Let_def)
            from 1(1) [OF this] sane ok3 show ?thesis by blast
          next
            case pend: False
            with 1(2) False Some Done x have "y = outcome.Done ?c3" by (simp add: Let_def)
            with pend q3 ok3 okm arm show ?thesis by auto
          qed
        qed
      qed
    qed
  qed
qed

lemma spread_parts:
  assumes "gm_ok m" "segs_backed m segs" "segs_disjoint segs" "length pl \<le> offset + seg_lens segs" "offset \<le> length pl"
  shows "\<exists>m' parts. spread m pl offset segs = (length pl, m') \<and> gm_ok m' \<and> concat parts = drop offset pl \<and>
    length parts \<le> length segs \<and>
    (\<forall>k < length parts. gm_read m' (seg_gpa (segs ! k)) (length (parts ! k)) = Inr (parts ! k) \<and>
       length (parts ! k) \<le> unat (seg_len (segs ! k))) \<and>
    (\<forall>t. list_all (\<lambda>s. segs_apart s t) segs \<longrightarrow> (\<forall>n \<le> unat (seg_len t). gm_read m' (seg_gpa t) n = gm_read m (seg_gpa t) n))"
  using assms
proof (induction segs arbitrary: m offset)
  case Nil
  then show ?case by (auto intro: exI [of _ "[]"])
next
  case (Cons s segs)
  show ?case
  proof (cases "length pl \<le> offset")
    case True
    with Cons.prems show ?thesis by (auto intro!: exI [of _ "[]"])
  next
    case False
    let ?n = "min (unat (seg_len s)) (length pl - offset)" and ?p = "take (min (unat (seg_len s)) (length pl - offset)) (drop offset pl)"
    have lp: "length ?p = ?n" by simp
    obtain bs where bs: "gm_read m (seg_gpa s) (unat (seg_len s)) = Inr bs"
      using Cons.prems(2) by (cases "gm_read m (seg_gpa s) (unat (seg_len s))") (auto simp: segs_backed_def seg_data_def)
    then have "\<exists>cs. gm_read m (seg_gpa s) (length ?p) = Inr cs"
      using lp by (intro gm_read_sub [OF Cons.prems(1) bs]) simp_all
    then obtain m1 where m1: "gm_write m (seg_gpa s) ?p = Inr m1" using ram.wr_backed [OF Cons.prems(1)] by blast
    have ok1: "gm_ok m1" using ram.wr_ok [OF Cons.prems(1) m1] .
    have isl1: "isl (gm_read m1 a k) = isl (gm_read m a k)" for a k
      using ram.rd_wr_backed [OF Cons.prems(1) m1, of a k] by (cases "gm_read m1 a k"; cases "gm_read m a k") auto
    have pre: "segs_backed m1 segs" "segs_disjoint segs" "length pl \<le> offset + ?n + seg_lens segs" "offset + ?n \<le> length pl"
      using Cons.prems isl1 False by (auto simp: segs_backed_def seg_data_def min_def)
    obtain m' parts where r: "spread m1 pl (offset + ?n) segs = (length pl, m')" "gm_ok m'"
      "concat parts = drop (offset + ?n) pl" "length parts \<le> length segs"
      and rd: "\<And>k. k < length parts \<Longrightarrow> gm_read m' (seg_gpa (segs ! k)) (length (parts ! k)) = Inr (parts ! k) \<and>
        length (parts ! k) \<le> unat (seg_len (segs ! k))"
      and fr: "\<And>t n. list_all (\<lambda>s. segs_apart s t) segs \<Longrightarrow> n \<le> unat (seg_len t) \<Longrightarrow>
        gm_read m' (seg_gpa t) n = gm_read m1 (seg_gpa t) n"
      using Cons.IH [OF ok1 pre] by blast
    have "list_all (\<lambda>t. segs_apart t s) segs"
      using Cons.prems(3) by (simp add: list_all_iff segs_apart_def disjoint_ranges_sym)
    then have first: "gm_read m' (seg_gpa s) (length ?p) = Inr ?p"
      using fr [of s "length ?p"] lp ram.rd_wr_same [OF Cons.prems(1) m1] by simp
    have cc: "concat (?p # parts) = drop offset pl"
      using r(3) by simp (metis append_take_drop_id drop_drop add.commute)
    have fr': "gm_read m' (seg_gpa t) n = gm_read m (seg_gpa t) n"
      if t: "list_all (\<lambda>s. segs_apart s t) (s # segs)" "n \<le> unat (seg_len t)" for t n
    proof -
      have "disjoint_ranges (seg_gpa s) (length ?p) (seg_gpa t) n"
        using t lp by (auto simp: segs_apart_def disjoint_ranges_def)
      with fr t ram.rd_wr_disjoint [OF Cons.prems(1) m1] show ?thesis by simp
    qed
    have "spread m pl offset (s # segs) = (length pl, m')" using False m1 r(1) by (simp add: Let_def)
    moreover have "\<forall>k < length (?p # parts). gm_read m' (seg_gpa ((s # segs) ! k)) (length ((?p # parts) ! k)) =
        Inr ((?p # parts) ! k) \<and> length ((?p # parts) ! k) \<le> unat (seg_len ((s # segs) ! k))"
      using first rd by (auto simp: nth_Cons split: nat.split)
    ultimately show ?thesis using r(2,4) cc fr' by (intro exI [of _ m'] exI [of _ "?p # parts"]) simp
  qed
qed

lemma notify_loop_stuck:
  assumes "i < length (queues c)" "pop (queues c ! i) (dc_mem c) = Some (Inl (MemFault e))"
    "has_pending (queues c ! i) (dc_mem c) = Inr True" "arm_notification (queues c ! i) (dc_mem c) = Inl e'"
  shows "notify_loop ops c i = None"
proof (rule ccontr)
  assume "notify_loop ops c i \<noteq> None"
  then obtain y where y: "notify_loop ops c i = Some y" by blast
  let ?H = "\<lambda>c :: ('a, 'b, 'c) device_core. \<lambda>i. i < length (queues c) \<and> pop (queues c ! i) (dc_mem c) = Some (Inl (MemFault e)) \<and>
    has_pending (queues c ! i) (dc_mem c) = Inr True \<and> arm_notification (queues c ! i) (dc_mem c) = Inl e'"
  have "\<not> ?H c i"
  proof (rule notify_loop.raw_induct [where P = "\<lambda>ops c i y. \<not> ?H c i", OF _ y], intro notI, elim conjE, goal_cases)
    case (1 loop ops c i y)
    have d: "drain ops (queues c ! i) (dc_backend c) (dc_mem c) False =
        Some (Done (queues c ! i, dc_backend c, dc_mem c, False))"
      using 1(4) by (subst drain.simps) simp
    have "c\<lparr>queues := (queues c)[i := queues c ! i], dc_backend := dc_backend c, dc_mem := dc_mem c\<rparr> = c" by simp
    then have "loop ops c i = Some y" using 1(2-6) d by (simp add: Let_def arm_queue_def)
    from 1(1) [OF this] 1 show False by simp
  qed
  with assms show False by blast
qed

subsection \<open>Properties\<close>


definition demo_core :: "guest_memory \<Rightarrow> queue \<Rightarrow> (overlay_backend, bytes, echo_responder) device_core" where
  "demo_core m q = \<lparr>common = \<lparr>device_feature_select = 0, driver_feature_select = 0, device_features = 0,
       driver_features = 0, msix_config = 0, num_queues = 1, device_status = 0, config_generation = 0,
       queue_select = 0\<rparr>, queues = [q], queue_vectors = [5],
     dc_backend = Rng [1, 2, 3, 4], device_config = [], isr_status = 0, dc_mem = m,
     signals = [], transport_signals = False\<rparr>"

definition demo_ops :: "(overlay_backend, bytes, echo_responder) host_ops" where
  "demo_ops = \<lparr>ho_block = overlay_ops, ho_fill = urandom_fill, ho_net = echo_ops\<rparr>"

lemma demo_pop:
  "pop demo_queue demo_mem = Some (Inr (Some
     (\<lparr>head = 0, segments = [\<lparr>seg_gpa = 0x2000, seg_len = 16, seg_write = False\<rparr>,
                            \<lparr>seg_gpa = 0x3000, seg_len = 32, seg_write = True\<rparr>]\<rparr>,
      demo_queue\<lparr>next_avail := 1\<rparr>)))"
proof -
  have "avail_idx demo_queue demo_mem = Inr 1" by (simp add: demo_simps avail_idx_def)
  moreover have "avail_ring demo_queue demo_mem 0 = Inr 0" by (simp add: demo_simps avail_ring_def)
  moreover have "chain_path demo_mem demo_queue [(0, []), (1, [])] =
    Some [\<lparr>seg_gpa = 0x2000, seg_len = 16, seg_write = False\<rparr>,
          \<lparr>seg_gpa = 0x3000, seg_len = 32, seg_write = True\<rparr>]"
    by (simp add: demo_simps desc_path_def read_desc_def seg_of_def word_le_nat_alt)
  ultimately show ?thesis
    using pop_chain [of demo_queue demo_mem 1 "[(0, []), (1, [])]"]
    by (simp add: ind_short_def demo_queue_def)
qed

lemma demo_rng: "backend_process demo_ops (Rng s) demo_mem
    \<lparr>head = 0, segments = [\<lparr>seg_gpa = 0x2000, seg_len = 16, seg_write = False\<rparr>,
       \<lparr>seg_gpa = 0x3000, seg_len = 32, seg_write = True\<rparr>]\<rparr> =
   Some (0, Rng (snd (urandom_fill s (replicate 32 0))), demo_mem)"
proof -
  have "length (fst (urandom_fill s (replicate 32 0))) = 32"
    by (simp add: urandom_fill_def)
  then have "\<exists>e. gm_write demo_mem 0x3000 (fst (urandom_fill s (replicate 32 0))) = Inl e"
    by (simp add: gm_write_def demo_mem_def region_holds_def)
  then show ?thesis
    by (auto simp: backend_process_def demo_ops_def rng_process_def writable_def split: prod.split)
qed

definition demo_mem1 :: guest_memory where
  "demo_mem1 = snd (snd (add_used (demo_queue\<lparr>next_avail := 1\<rparr>) demo_mem 0 0))"

lemma demo_mem1: "add_used (demo_queue\<lparr>next_avail := 1\<rparr>) demo_mem 0 0 =
    (Inr (), demo_queue\<lparr>next_avail := 1, next_used := 1\<rparr>, demo_mem1)"
  by (simp add: demo_mem1_def add_used_def demo_simps Let_def le_bytes_def upt_rec)


lemma demo_mem1_bytes: "demo_mem1 = [\<lparr>r_gpa = 0x1000, r_bytes =
    [0, 32, 0, 0, 0, 0, 0, 0, 16, 0, 0, 0, 1, 0, 1, 0, 0, 48, 0, 0, 0,
     0, 0, 0, 32, 0, 0, 0, 2, 0, 0, 0, 0, 0, 1, 0, 0, 0, 0, 0, 0, 0,
     0, 0, 0, 0, 0, 0, 0, 0, 1, 0, 0, 0, 0, 0, 0, 0, 0, 0, 0, 0, 0, 0,
     0, 0, 0, 0, 0, 0, 0, 0]\<rparr>]"
  by (simp add: demo_mem1_def add_used_def demo_simps Let_def le_bytes_def upt_rec)

abbreviation demo_queue1 :: queue where
  "demo_queue1 \<equiv> demo_queue\<lparr>next_avail := 1, next_used := 1\<rparr>"

lemma demo_mem1_facts:
  "gm_ok demo_mem1" "read_u16 demo_mem1 0x1022 = Inr 1" "\<exists>m. arm_notification demo_queue1 demo_mem1 = Inr m"
proof -
  have ok: "gm_ok demo_mem" "used_ring_fits (demo_queue\<lparr>next_avail := 1\<rparr>)"
    using demo_ok by (simp_all add: used_ring_fits_def)
  show ok1: "gm_ok demo_mem1" using add_used_elem(1) [OF ok demo_mem1] .
  have "gm_read demo_mem1 0x1022 2 = gm_read demo_mem 0x1022 2"
    using add_used_frame [OF ok demo_mem1, of "0x1022" 2]
    by (simp add: disjoint_ranges_def used_slot_def demo_queue_def)
  then show "read_u16 demo_mem1 0x1022 = Inr 1" by (simp add: read_u16_def) (simp add: demo_simps)
  show "\<exists>m. arm_notification demo_queue1 demo_mem1 = Inr m"
    by (simp add: arm_notification_def demo_mem1_bytes demo_simps)
qed

lemma demo_notify:
  assumes c: "queues c = [demo_queue]" "dc_backend c = Rng s" "dc_mem c = demo_mem"
  shows "\<exists>c'. notify demo_ops c 0 = Some (Done c') \<and> queues c' = [demo_queue1] \<and>
    read_u16 (dc_mem c') 0x1032 = Inr 1"
proof -
  have p1: "pop demo_queue1 demo_mem1 = Some (Inr None)"
    using demo_mem1_facts(2) by (simp add: pop_def avail_idx_def demo_queue_def)
  have "drain demo_ops demo_queue1 bk demo_mem1 True = Some (Done (demo_queue1, bk, demo_mem1, True))" for bk
    using p1 by (subst drain.simps) simp
  then have d: "drain demo_ops demo_queue (Rng s) demo_mem False =
      Some (Done (demo_queue1, Rng (snd (urandom_fill s (replicate 32 0))), demo_mem1, True))"
    using demo_pop demo_rng demo_mem1 by (subst drain.simps) simp
  obtain m where m: "arm_notification demo_queue1 demo_mem1 = Inr m" using demo_mem1_facts(3) by blast
  have "write_u16 demo_mem1 0x1044 1 = Inr m" using m by (simp add: arm_notification_def demo_queue_def)
  then have "gm_read m 0x1022 2 = gm_read demo_mem1 0x1022 2" "gm_read m 0x1032 2 = gm_read demo_mem1 0x1032 2"
    using ram16.rd_put_disjoint [OF demo_mem1_facts(1)] by (simp_all add: disjoint_ranges_def)
  then have "has_pending demo_queue1 m = Inr False" "read_u16 m 0x1032 = read_u16 demo_mem1 0x1032"
    using demo_mem1_facts(2) by (simp_all add: has_pending_def avail_idx_def read_u16_def demo_queue_def)
  moreover have "read_u16 demo_mem1 0x1032 = Inr 1" by (simp add: demo_mem1_bytes demo_simps)
  ultimately show ?thesis
    using d m c unfolding notify_def
    by (subst notify_loop.simps) (simp add: is_net_def Let_def arm_queue_def)
qed


text \<open>
  A guest can make the notification spin for ever: when the available index is readable and
  ahead of the cursor but popping fails, because the descriptor table is not backed by guest
  memory, and the used ring is not backed either, the re-check after re-arming sees the same
  pending entry each time and the loop never ends.
\<close>

theorem notify_spins:
  assumes "\<not> is_net (dc_backend c)" "unat qi < length (queues c)"
    "pop (queues c ! unat qi) (dc_mem c) = Some (Inl (MemFault e))"
    "has_pending (queues c ! unat qi) (dc_mem c) = Inr True"
    "arm_notification (queues c ! unat qi) (dc_mem c) = Inl e'"
  shows "notify ops c qi = None"
  using assms notify_loop_stuck unfolding notify_def by simp

theorem notify_spins_witness:
  "notify demo_ops (demo_core demo_mem (demo_queue\<lparr>q_desc := 0x9000, q_used := 0x9100\<rparr>)) 0 = None"
proof -
  let ?q = "demo_queue\<lparr>q_desc := 0x9000, q_used := 0x9100\<rparr>"
  have a: "avail_idx ?q demo_mem = Inr 1" "avail_ring ?q demo_mem 0 = Inr 0"
    by (simp_all add: demo_simps avail_idx_def avail_ring_def)
  have "\<exists>e. read_desc demo_mem 0x9000 0 = Inl e" by (simp add: demo_simps read_desc_def)
  then obtain e where "read_desc demo_mem 0x9000 0 = Inl e" ..
  then have "collect_chain demo_mem ?q 0 = Some (Inl (MemFault e))"
    unfolding collect_chain_def by (subst collect_loop.simps) (simp add: demo_queue_def max_chain_def)
  then have "pop ?q demo_mem = Some (Inl (MemFault e))"
    using a by (simp add: pop_def demo_queue_def)
  moreover have "has_pending ?q demo_mem = Inr True" using a by (simp add: has_pending_def demo_queue_def)
  moreover have "\<exists>e'. arm_notification ?q demo_mem = Inl e'" by (simp add: demo_simps arm_notification_def)
  then obtain e' where "arm_notification ?q demo_mem = Inl e'" ..
  ultimately show ?thesis
    by (intro notify_spins) (simp_all add: demo_core_def is_net_def)
qed

text \<open>
  C16. A received frame reaches the guest whole: with a chain of backed, non-overlapping writable
  buffers that can hold the 12-byte header and the frame, every byte of both is written, in
  order across the buffers, and the length reported in the used ring is the sum.
\<close>

theorem rx_spread_delivers:
  assumes "gm_ok m" "segs_backed m segs" "segs_disjoint segs" "12 + length frame \<le> seg_lens segs"
  shows "\<exists>m' parts. spread m (rx_payload flags frame) 0 segs = (12 + length frame, m') \<and>
    concat parts = rx_payload flags frame \<and> length parts \<le> length segs \<and>
    (\<forall>k < length parts. gm_read m' (seg_gpa (segs ! k)) (length (parts ! k)) = Inr (parts ! k))"
proof -
  have l: "length (rx_payload flags frame) = 12 + length frame" by (simp add: rx_payload_def VIRTIO_NET_HDR_LEN_def)
  with spread_parts [OF assms(1-3), of "rx_payload flags frame" 0] assms(4) show ?thesis by fastforce
qed

theorem rx_spread_delivers_witness:
  "\<exists>m' parts. spread [\<lparr>r_gpa = 0x1000, r_bytes = replicate 32 0\<rparr>] (rx_payload 2 [7, 8, 9]) 0
      [\<lparr>seg_gpa = 0x1000, seg_len = 10, seg_write = True\<rparr>, \<lparr>seg_gpa = 0x1010, seg_len = 10, seg_write = True\<rparr>] = (15, m') \<and>
    concat parts = ([2, 0, 0, 0, 0, 0, 0, 0, 0, 0, 1, 0, 7, 8, 9] :: bytes) \<and> length parts \<le> 2"
proof -
  let ?m = "[\<lparr>r_gpa = 0x1000, r_bytes = replicate 32 0\<rparr>]"
  let ?s = "[\<lparr>seg_gpa = 0x1000, seg_len = 10, seg_write = True\<rparr>, \<lparr>seg_gpa = 0x1010, seg_len = 10, seg_write = True\<rparr>]"
  have a: "gm_ok ?m" by (simp add: gm_ok_def)
  have b: "segs_backed ?m ?s" by (simp add: segs_backed_def seg_data_def gm_read_def region_holds_def)
  have c: "segs_disjoint ?s" by (simp add: segs_apart_def disjoint_ranges_def)
  have d: "12 + length [7, 8, 9 :: u8] \<le> seg_lens ?s" by simp
  obtain m' parts where r: "spread ?m (rx_payload 2 [7, 8, 9]) 0 ?s = (12 + length [7, 8, 9 :: u8], m')"
    "concat parts = rx_payload 2 [7, 8, 9]" "length parts \<le> length ?s"
    using rx_spread_delivers [OF a b c d, of 2] by blast
  have "12 + length [7, 8, 9 :: u8] = 15" "length ?s = 2" by simp_all
  note r = r [unfolded this]
  moreover have "rx_payload 2 [7, 8, 9] = [2, 0, 0, 0, 0, 0, 0, 0, 0, 0, 1, 0, 7, 8, 9]"
    by (simp add: rx_payload_def VIRTIO_NET_HDR_LEN_def eval_nat_numeral)
  ultimately show ?thesis by metis
qed

end
