(* ===== verification/Devices.thy ===== *)
theory Devices
  imports Prelude
begin

text \<open>
  The MMIO bus and its two simple devices (\<^verbatim>\<open>src/hypervisor/src/hvf/devices.rs\<close>): address
  routing over a list of windows, the PL011 serial port in both directions, and the PL031
  real-time clock. Shared device objects are handles into a store, so two windows of one device
  see the same state. The host's wall clock is an argument of the clock's operations.
\<close>

subsection \<open>The bus\<close>

record 'd mmio_ops =
  dev_read :: "'d \<Rightarrow> u64 \<Rightarrow> nat \<Rightarrow> bytes \<times> 'd"
  dev_write :: "'d \<Rightarrow> u64 \<Rightarrow> bytes \<Rightarrow> 'd outcome option"

record bus_entry =
  e_base :: u64
  e_size :: u64
  e_dev :: nat

record 'd mmio_bus =
  entries :: "bus_entry list"
  devs :: "nat \<Rightarrow> 'd"

definition bus_new :: "(nat \<Rightarrow> 'd) \<Rightarrow> 'd mmio_bus" where
  "bus_new store = \<lparr>entries = [], devs = store\<rparr>"

definition bus_add :: "'d mmio_bus \<Rightarrow> u64 \<Rightarrow> u64 \<Rightarrow> nat \<Rightarrow> 'd mmio_bus" where
  "bus_add bus base sz dev =
     bus\<lparr>entries := entries bus @ [\<lparr>e_base = base, e_size = sz, e_dev = dev\<rparr>]\<rparr>"

definition bus_find :: "'d mmio_bus \<Rightarrow> u64 \<Rightarrow> (nat \<times> u64) option" where
  "bus_find bus gpa =
     map_option (\<lambda>e. (e_dev e, gpa - e_base e))
       (List.find (\<lambda>e. e_base e \<le> gpa \<and> gpa < e_base e + e_size e) (entries bus))"

definition mmio_read :: "'d mmio_ops \<Rightarrow> 'd mmio_bus \<Rightarrow> u64 \<Rightarrow> nat \<Rightarrow> bytes \<times> 'd mmio_bus" where
  "mmio_read ops bus gpa n =
     (case bus_find bus gpa of
        Some (dev, offset) \<Rightarrow>
          (case dev_read ops (devs bus dev) offset n of
             (data, d) \<Rightarrow> (data, bus\<lparr>devs := (devs bus)(dev := d)\<rparr>))
      | None \<Rightarrow> (replicate n 0, bus))"

definition mmio_write :: "'d mmio_ops \<Rightarrow> 'd mmio_bus \<Rightarrow> u64 \<Rightarrow> bytes \<Rightarrow> 'd mmio_bus outcome option" where
  "mmio_write ops bus gpa data =
     (case bus_find bus gpa of
        Some (dev, offset) \<Rightarrow>
          (case dev_write ops (devs bus dev) offset data of
             None \<Rightarrow> None
           | Some Panicked \<Rightarrow> Some Panicked
           | Some (Done d) \<Rightarrow> Some (Done (bus\<lparr>devs := (devs bus)(dev := d)\<rparr>)))
      | None \<Rightarrow> Some (Done bus))"

subsection \<open>Register values in byte buffers\<close>

definition read_u32_reg :: "nat \<Rightarrow> u32 \<Rightarrow> bytes" where
  "read_u32_reg n value = map (\<lambda>i. if i < 4 then le_bytes value ! i else 0) [0..<n]"

definition write_u32_reg :: "bytes \<Rightarrow> u32" where
  "write_u32_reg data = of_le_bytes (overwrite 0 (take 4 data) (replicate 4 0))"

subsection \<open>PL011\<close>

definition UARTDR :: u64 where "UARTDR = 0x000"
definition UARTRSR_ECR :: u64 where "UARTRSR_ECR = 0x004"
definition UARTFR :: u64 where "UARTFR = 0x018"
definition UARTIBRD :: u64 where "UARTIBRD = 0x024"
definition UARTFBRD :: u64 where "UARTFBRD = 0x028"
definition UARTLCR_H :: u64 where "UARTLCR_H = 0x02c"
definition UARTCR :: u64 where "UARTCR = 0x030"
definition UARTIFLS :: u64 where "UARTIFLS = 0x034"
definition UARTIMSC :: u64 where "UARTIMSC = 0x038"
definition UARTRIS :: u64 where "UARTRIS = 0x03c"
definition UARTMIS :: u64 where "UARTMIS = 0x040"
definition UARTICR :: u64 where "UARTICR = 0x044"
definition UART_ID_LOW :: u64 where "UART_ID_LOW = 0xfe0"
definition FR_TXFE :: u32 where "FR_TXFE = push_bit 7 1"
definition FR_RXFF :: u32 where "FR_RXFF = push_bit 6 1"
definition FR_RXFE :: u32 where "FR_RXFE = push_bit 4 1"
definition FR_CTS :: u32 where "FR_CTS = push_bit 0 1"
definition FR_DSR :: u32 where "FR_DSR = push_bit 1 1"
definition FR_DCD :: u32 where "FR_DCD = push_bit 2 1"
definition FR_MODEM_PRESENT :: u32 where "FR_MODEM_PRESENT = FR_CTS OR FR_DSR OR FR_DCD"
definition INT_RX :: u32 where "INT_RX = push_bit 4 1"
definition INT_RT :: u32 where "INT_RT = push_bit 6 1"
definition RX_FIFO_DEPTH :: nat where "RX_FIFO_DEPTH = 16"
definition PL011_ID :: bytes where "PL011_ID = [0x11, 0x10, 0x14, 0x00, 0x0d, 0xf0, 0x05, 0xb1]"

lemmas uart_regs = UARTDR_def UARTRSR_ECR_def UARTFR_def UARTIBRD_def UARTFBRD_def UARTLCR_H_def
  UARTCR_def UARTIFLS_def UARTIMSC_def UARTRIS_def UARTMIS_def UARTICR_def UART_ID_LOW_def

record pl011 =
  ibrd :: u32
  fbrd :: u32
  lcr_h :: u32
  cr :: u32
  ifls :: u32
  imsc :: u32
  uart_tx :: bytes
  read_fifo :: bytes

record serial_regs =
  sr_imsc :: u32
  sr_cr :: u32
  sr_lcr_h :: u32
  sr_ibrd :: u32
  sr_fbrd :: u32
  sr_ifls :: u32

definition pl011_new :: pl011 where
  "pl011_new = \<lparr>ibrd = 0, fbrd = 0, lcr_h = 0, cr = 0, ifls = 0, imsc = 0, uart_tx = [], read_fifo = []\<rparr>"

definition take_output :: "pl011 \<Rightarrow> bytes \<times> pl011" where
  "take_output st = (uart_tx st, st\<lparr>uart_tx := []\<rparr>)"

definition pl011_restore :: "pl011 \<Rightarrow> serial_regs \<Rightarrow> pl011" where
  "pl011_restore st r = st\<lparr>imsc := sr_imsc r, cr := sr_cr r, lcr_h := sr_lcr_h r, ibrd := sr_ibrd r,
     fbrd := sr_fbrd r, ifls := sr_ifls r\<rparr>"

definition pl011_capture :: "pl011 \<Rightarrow> serial_regs" where
  "pl011_capture st = \<lparr>sr_imsc = imsc st, sr_cr = cr st, sr_lcr_h = lcr_h st, sr_ibrd = ibrd st,
     sr_fbrd = fbrd st, sr_ifls = ifls st\<rparr>"

definition rx_irq_pending :: "pl011 \<Rightarrow> bool" where
  "rx_irq_pending st \<longleftrightarrow> read_fifo st \<noteq> [] \<and> imsc st AND (INT_RX OR INT_RT) \<noteq> 0"

definition push_input :: "pl011 \<Rightarrow> bytes \<Rightarrow> bool \<times> pl011" where
  "push_input st bs =
     (let st' = st\<lparr>read_fifo := read_fifo st @ bs\<rparr>
      in (read_fifo st' \<noteq> [] \<and> imsc st' AND (INT_RX OR INT_RT) \<noteq> 0, st'))"

definition raw_interrupt_status :: "pl011 \<Rightarrow> u32" where
  "raw_interrupt_status st = (if read_fifo st = [] then 0 else INT_RX OR INT_RT)"

definition uart_flags :: "pl011 \<Rightarrow> u32" where
  "uart_flags st =
     (let fr = FR_TXFE OR FR_MODEM_PRESENT
      in if read_fifo st = [] then fr OR FR_RXFE
         else if RX_FIFO_DEPTH \<le> length (read_fifo st) then fr OR FR_RXFF
         else fr)"

definition pl011_value :: "pl011 \<Rightarrow> u64 \<Rightarrow> u32" where
  "pl011_value st offset =
     (if offset = UARTDR then (case read_fifo st of [] \<Rightarrow> 0 | b # bs \<Rightarrow> ucast b)
      else if offset = UARTRSR_ECR then 0
      else if offset = UARTFR then uart_flags st
      else if offset = UARTIBRD then ibrd st
      else if offset = UARTFBRD then fbrd st
      else if offset = UARTLCR_H then lcr_h st
      else if offset = UARTCR then cr st
      else if offset = UARTIFLS then ifls st
      else if offset = UARTIMSC then imsc st
      else if offset = UARTRIS then raw_interrupt_status st
      else if offset = UARTMIS then raw_interrupt_status st AND imsc st
      else if UART_ID_LOW \<le> offset \<and> offset < 0x1000 then
        (let idx = unat ((offset - UART_ID_LOW) div 4)
         in if idx < length PL011_ID then ucast (PL011_ID ! idx) else 0)
      else 0)"

definition pl011_read :: "pl011 \<Rightarrow> u64 \<Rightarrow> nat \<Rightarrow> bytes \<times> pl011" where
  "pl011_read st offset n =
     (read_u32_reg n (pl011_value st offset),
      if offset = UARTDR then st\<lparr>read_fifo := tl (read_fifo st)\<rparr> else st)"

definition pl011_write :: "pl011 \<Rightarrow> u64 \<Rightarrow> bytes \<Rightarrow> pl011" where
  "pl011_write st offset data =
     (let val = write_u32_reg data
      in if offset = UARTDR then st\<lparr>uart_tx := uart_tx st @ [ucast val]\<rparr>
         else if offset = UARTIBRD then st\<lparr>ibrd := val\<rparr>
         else if offset = UARTFBRD then st\<lparr>fbrd := val\<rparr>
         else if offset = UARTLCR_H then st\<lparr>lcr_h := val\<rparr>
         else if offset = UARTCR then st\<lparr>cr := val\<rparr>
         else if offset = UARTIFLS then st\<lparr>ifls := val\<rparr>
         else if offset = UARTIMSC then st\<lparr>imsc := val\<rparr>
         else st)"

definition pl011_ops :: "pl011 mmio_ops" where
  "pl011_ops = \<lparr>dev_read = pl011_read, dev_write = \<lambda>st off data. Some (Done (pl011_write st off data))\<rparr>"

subsection \<open>PL031\<close>

definition RTCDR :: u64 where "RTCDR = 0x000"
definition RTCMR :: u64 where "RTCMR = 0x004"
definition RTCLR :: u64 where "RTCLR = 0x008"
definition RTCCR :: u64 where "RTCCR = 0x00c"
definition RTCIMSC :: u64 where "RTCIMSC = 0x010"
definition RTCRIS :: u64 where "RTCRIS = 0x014"
definition RTCMIS :: u64 where "RTCMIS = 0x018"
definition RTCICR :: u64 where "RTCICR = 0x01c"
definition RTC_ID_LOW :: u64 where "RTC_ID_LOW = 0xfe0"
definition PL031_ID :: bytes where "PL031_ID = [0x31, 0x10, 0x14, 0x00, 0x0d, 0xf0, 0x05, 0xb1]"

lemmas rtc_regs = RTCDR_def RTCMR_def RTCLR_def RTCCR_def RTCIMSC_def RTCRIS_def RTCMIS_def RTCICR_def
  RTC_ID_LOW_def

record pl031 =
  rtc_offset :: int
  rtc_mr :: u32
  rtc_imsc :: u32
  rtc_ris :: u32

definition pl031_new :: pl031 where
  "pl031_new = \<lparr>rtc_offset = 0, rtc_mr = 0, rtc_imsc = 0, rtc_ris = 0\<rparr>"

definition rtc_now :: "int \<Rightarrow> pl031 \<Rightarrow> u32" where
  "rtc_now host st = of_int (max 0 (min (2 ^ 32 - 1) (i64_sat_add host (rtc_offset st))))"

definition pl031_read :: "int \<Rightarrow> pl031 \<Rightarrow> u64 \<Rightarrow> nat \<Rightarrow> bytes \<times> pl031" where
  "pl031_read host st0 offset n =
     (let now = rtc_now host st0;
          st = (if rtc_mr st0 \<le> now then st0\<lparr>rtc_ris := 1\<rparr> else st0);
          val = (if offset = RTCDR then now
                 else if offset = RTCMR then rtc_mr st
                 else if offset = RTCLR then now
                 else if offset = RTCCR then 1
                 else if offset = RTCIMSC then rtc_imsc st
                 else if offset = RTCRIS then rtc_ris st
                 else if offset = RTCMIS then rtc_ris st AND rtc_imsc st
                 else if RTC_ID_LOW \<le> offset \<and> offset < 0x1000
                 then ucast (PL031_ID ! unat (drop_bit 2 (offset - RTC_ID_LOW) AND 7))
                 else 0)
      in (read_u32_reg n val, st))"

definition pl031_write :: "int \<Rightarrow> pl031 \<Rightarrow> u64 \<Rightarrow> bytes \<Rightarrow> pl031" where
  "pl031_write host st offset data =
     (let val = write_u32_reg data
      in if offset = RTCLR then st\<lparr>rtc_offset := i64_wrap (uint val - host)\<rparr>
         else if offset = RTCMR then st\<lparr>rtc_mr := val\<rparr>
         else if offset = RTCIMSC then st\<lparr>rtc_imsc := val AND 1\<rparr>
         else if offset = RTCICR then (if val AND 1 \<noteq> 0 then st\<lparr>rtc_ris := 0\<rparr> else st)
         else st)"

definition pl031_ops :: "int \<Rightarrow> pl031 mmio_ops" where
  "pl031_ops host = \<lparr>dev_read = pl031_read host,
     dev_write = \<lambda>st off data. Some (Done (pl031_write host st off data))\<rparr>"

subsection \<open>The contract of a bus device\<close>

text \<open>What the bus relies on: a read fills exactly the buffer it is given.\<close>

locale mmio_device =
  fixes ops :: "'d mmio_ops"
  assumes read_fills: "length (fst (dev_read ops d offset n)) = n"
begin

lemma mmio_read_fills: "length (fst (mmio_read ops bus gpa n)) = n"
  using read_fills by (auto simp: mmio_read_def split: option.split prod.split) (metis fst_conv)

lemma mmio_read_entries: "entries (snd (mmio_read ops bus gpa n)) = entries bus"
  by (auto simp: mmio_read_def split: option.split prod.split)

lemma mmio_read_others:
  "(\<And>off. bus_find bus gpa \<noteq> Some (h, off)) \<Longrightarrow>
   devs (snd (mmio_read ops bus gpa n)) h = devs bus h"
  by (auto simp: mmio_read_def split: option.split prod.split)

end

lemma length_read_u32_reg [simp]: "length (read_u32_reg n v) = n"
  by (simp add: read_u32_reg_def)

interpretation uartd: mmio_device pl011_ops
  by unfold_locales (simp add: pl011_ops_def pl011_read_def)

interpretation rtcd: mmio_device "pl031_ops host" for host
  by unfold_locales (simp add: pl031_ops_def pl031_read_def Let_def)

lemma read_u32_reg_4: "read_u32_reg 4 v = le_bytes v"
  by (rule nth_equalityI) (simp_all add: read_u32_reg_def)

lemma write_u32_reg_le_bytes: "write_u32_reg (le_bytes v) = v"
  by (simp add: write_u32_reg_def overwrite_def of_le_bytes_le_bytes)

subsection \<open>Routing\<close>

definition covers :: "bus_entry \<Rightarrow> u64 \<Rightarrow> bool" where
  "covers e gpa \<longleftrightarrow> unat (e_base e) \<le> unat gpa \<and> unat gpa < unat (e_base e) + unat (e_size e)"

definition windows_ok :: "bus_entry list \<Rightarrow> bool" where
  "windows_ok es \<longleftrightarrow> (\<forall>e \<in> set es. unat (e_base e) + unat (e_size e) < 2 ^ 64) \<and>
     (\<forall>i < length es. \<forall>j < i. \<forall>gpa. \<not> (covers (es ! i) gpa \<and> covers (es ! j) gpa))"

lemma covers_iff:
  "unat (e_base e) + unat (e_size e) < 2 ^ 64 \<Longrightarrow>
   (e_base e \<le> gpa \<and> gpa < e_base e + e_size e) = covers e gpa"
  using unat_add_no_wrap [of "e_base e" "e_size e"]
  by (simp add: covers_def word_le_nat_alt word_less_nat_alt)

lemma find_covers:
  assumes "windows_ok es" "i < length es" "covers (es ! i) gpa"
  shows "List.find (\<lambda>e. e_base e \<le> gpa \<and> gpa < e_base e + e_size e) es = Some (es ! i)"
proof -
  let ?P = "\<lambda>e. e_base e \<le> gpa \<and> gpa < e_base e + e_size e"
  have c: "?P (es ! k) = covers (es ! k) gpa" if "k < length es" for k
    using assms(1) that by (intro covers_iff) (auto simp: windows_ok_def)
  have "?P (es ! i)" "\<forall>j < i. \<not> ?P (es ! j)"
    using c assms unfolding windows_ok_def by (auto dest: order_less_trans)
  then show ?thesis unfolding find_Some_iff using assms(2) by blast
qed

lemma find_uncovered:
  assumes "windows_ok es" "\<forall>e \<in> set es. \<not> covers e gpa"
  shows "List.find (\<lambda>e. e_base e \<le> gpa \<and> gpa < e_base e + e_size e) es = None"
  unfolding find_None_iff using assms covers_iff by (fastforce simp: windows_ok_def)

text \<open>
  Address routing: when the windows do not overlap, an access inside a window reaches that
  window's device at the offset from its base, below the window's size; an access outside every
  window reads zeroes and writes nothing.
\<close>

theorem bus_routes:
  assumes "windows_ok (entries bus)"
  shows "(\<forall>e \<in> set (entries bus). covers e gpa \<longrightarrow>
      bus_find bus gpa = Some (e_dev e, gpa - e_base e) \<and> unat (gpa - e_base e) < unat (e_size e)) \<and>
    ((\<forall>e \<in> set (entries bus). \<not> covers e gpa) \<longrightarrow>
      mmio_read ops bus gpa n = (replicate n 0, bus) \<and> mmio_write ops bus gpa data = Some (Done bus))"
proof (intro conjI ballI impI)
  fix e assume e: "e \<in> set (entries bus)" "covers e gpa"
  then obtain i where i: "i < length (entries bus)" "entries bus ! i = e" by (auto simp: in_set_conv_nth)
  show "bus_find bus gpa = Some (e_dev e, gpa - e_base e)"
    using find_covers [OF assms i(1)] e(2) i(2) by (simp add: bus_find_def)
  show "unat (gpa - e_base e) < unat (e_size e)"
    using e(2) by (auto simp: covers_def unat_sub word_le_nat_alt)
next
  assume "\<forall>e \<in> set (entries bus). \<not> covers e gpa"
  then have "bus_find bus gpa = None" using find_uncovered [OF assms] by (simp add: bus_find_def)
  then show "mmio_read ops bus gpa n = (replicate n 0, bus)" "mmio_write ops bus gpa data = Some (Done bus)"
    by (simp_all add: mmio_read_def mmio_write_def)
qed

definition demo_bus :: "pl011 mmio_bus" where
  "demo_bus = bus_add (bus_add (bus_new (\<lambda>h. pl011_new)) 0x9000000 0x1000 0) 0xa000000 0x200 1"

theorem bus_routes_witness:
  "bus_find demo_bus 0xa000010 = Some (1, 0x10) \<and>
   mmio_read pl011_ops demo_bus 0xa000200 2 = (replicate 2 0, demo_bus)"
proof -
  have w: "windows_ok (entries demo_bus)"
    by (auto simp: windows_ok_def demo_bus_def bus_add_def bus_new_def covers_def less_Suc_eq nth_Cons')
  have e: "entries demo_bus = [\<lparr>e_base = 0x9000000, e_size = 0x1000, e_dev = 0\<rparr>,
      \<lparr>e_base = 0xa000000, e_size = 0x200, e_dev = 1\<rparr>]"
    by (simp add: demo_bus_def bus_add_def bus_new_def)
  show ?thesis
    using bus_routes [OF w, of "0xa000010" pl011_ops 0 "[]"] bus_routes [OF w, of "0xa000200" pl011_ops 2 "[]"]
    by (simp add: e covers_def)
qed

subsection \<open>Serial traffic\<close>

text \<open>
  A history of the serial port: host input, host collection of output, guest register reads and
  writes. \<open>uart_run\<close> gives the bytes the guest took from the data register while the receive FIFO
  was not empty, the output the host collected, and the final state.
\<close>

datatype uart_event = PushInput bytes | TakeOutput | RegRead u64 nat | RegWrite u64 bytes

fun uart_run :: "pl011 \<Rightarrow> uart_event list \<Rightarrow> bytes \<times> bytes \<times> pl011" where
  "uart_run st [] = ([], [], st)"
| "uart_run st (PushInput bs # evs) = uart_run (snd (push_input st bs)) evs"
| "uart_run st (TakeOutput # evs) =
     (case take_output st of (o1, st') \<Rightarrow>
       (case uart_run st' evs of (i2, o2, st'') \<Rightarrow> (i2, o1 @ o2, st'')))"
| "uart_run st (RegRead off n # evs) =
     (case pl011_read st off n of (data, st') \<Rightarrow>
       (case uart_run st' evs of (i2, o2, st'') \<Rightarrow>
         ((if off = UARTDR \<and> read_fifo st \<noteq> [] then take 1 data else []) @ i2, o2, st'')))"
| "uart_run st (RegWrite off data # evs) = uart_run (pl011_write st off data) evs"

fun uart_typed :: "uart_event list \<Rightarrow> bytes" where
  "uart_typed [] = []"
| "uart_typed (PushInput bs # evs) = bs @ uart_typed evs"
| "uart_typed (e # evs) = uart_typed evs"

fun uart_sent :: "uart_event list \<Rightarrow> bytes" where
  "uart_sent [] = []"
| "uart_sent (RegWrite off data # evs) =
     (if off = UARTDR then [case data of [] \<Rightarrow> 0 | b # bs \<Rightarrow> b] else []) @ uart_sent evs"
| "uart_sent (e # evs) = uart_sent evs"

fun sized_reads :: "uart_event list \<Rightarrow> bool" where
  "sized_reads [] = True"
| "sized_reads (RegRead off n # evs) \<longleftrightarrow> 0 < n \<and> sized_reads evs"
| "sized_reads (e # evs) = sized_reads evs"

lemma byte_in_u32: "(ucast (ucast (b :: u8) :: u32) :: u8) = b"
  by (rule bit_word_eqI) (simp add: bit_simps)

lemma low_byte_read: "0 < n \<Longrightarrow> take 1 (read_u32_reg n (ucast (b :: u8))) = [b]"
  by (cases n) (auto simp: read_u32_reg_def upt_conv_Cons le_bytes_def byte_in_u32 simp del: upt_Suc)

lemma low_byte_write: "(ucast (write_u32_reg data) :: u8) = (case data of [] \<Rightarrow> 0 | b # bs \<Rightarrow> b)"
proof (cases data)
  case Nil
  then show ?thesis by (simp add: write_u32_reg_def overwrite_def eval_nat_numeral)
next
  case (Cons b bs)
  have "bit (ucast (write_u32_reg data) :: u8) i \<longleftrightarrow> bit b i" if "i < 8" for i
    using that Cons by (auto simp: write_u32_reg_def bit_simps bit_of_le_bytes overwrite_def nth_append)
  then show ?thesis using Cons by (auto intro: bit_word_eqI)
qed

lemma uart_read_state:
  "read_fifo (snd (pl011_read st off n)) = (if off = UARTDR then tl (read_fifo st) else read_fifo st)"
  "uart_tx (snd (pl011_read st off n)) = uart_tx st"
  by (simp_all add: pl011_read_def)

lemma uart_write_state:
  "read_fifo (pl011_write st off data) = read_fifo st"
  "uart_tx (pl011_write st off data) =
     uart_tx st @ (if off = UARTDR then [case data of [] \<Rightarrow> 0 | b # bs \<Rightarrow> b] else [])"
  by (simp_all add: pl011_write_def Let_def low_byte_write)

lemma uart_run_conserves:
  assumes "sized_reads evs" "uart_run st evs = (got, out, st')"
  shows "got @ read_fifo st' = read_fifo st @ uart_typed evs" "out @ uart_tx st' = uart_tx st @ uart_sent evs"
  using assms
proof (induction st evs arbitrary: got out st' rule: uart_run.induct)
  case (2 st bs evs)
  note IH = 2
  { case 1 with IH show ?case by (simp add: push_input_def) }
  { case 2 with IH show ?case by (simp add: push_input_def) }
next
  case (3 st evs)
  obtain i2 o2 s2 where r: "uart_run (st\<lparr>uart_tx := []\<rparr>) evs = (i2, o2, s2)" by (cases "uart_run (st\<lparr>uart_tx := []\<rparr>) evs") auto
  { case 1 with 3(1) [of "uart_tx st" "st\<lparr>uart_tx := []\<rparr>"] r show ?case by (simp add: take_output_def) }
  { case 2 with 3(2) [of "uart_tx st" "st\<lparr>uart_tx := []\<rparr>"] r show ?case by (auto simp: take_output_def) }
next
  case (4 st off n evs)
  obtain data s1 where p: "pl011_read st off n = (data, s1)" by (cases "pl011_read st off n")
  obtain i2 o2 s2 where r: "uart_run s1 evs = (i2, o2, s2)" by (cases "uart_run s1 evs") auto
  have s1: "read_fifo s1 = (if off = UARTDR then tl (read_fifo st) else read_fifo st)" "uart_tx s1 = uart_tx st"
    using uart_read_state [of st off n] p by simp_all
  have d: "take 1 data = [b]" if "off = UARTDR" "read_fifo st = b # bs" "0 < n" for b bs
    using p that low_byte_read by (auto simp: pl011_read_def pl011_value_def)
  { case 1
    with 4(1) [OF p [symmetric]] r s1 d show ?case
      by (cases "read_fifo st") (auto simp: p split: if_splits) }
  { case 2
    with 4(2) [OF p [symmetric]] r s1 show ?case by (auto simp: p) }
next
  case (5 st off data evs)
  { case 1 with 5 show ?case by (simp add: uart_write_state) }
  { case 2 with 5 show ?case by (simp add: uart_write_state) }
qed auto

text \<open>
  C17. No byte of the serial line is lost, duplicated or reordered, in any interleaving of host
  input, host collection and guest register accesses: what the guest has read followed by what
  still waits is what was typed, and what the host has collected followed by what still waits is
  what the guest wrote to the data register.
\<close>

theorem uart_conserves:
  assumes "sized_reads evs"
  shows "case uart_run pl011_new evs of (got, out, st) \<Rightarrow>
    got @ read_fifo st = uart_typed evs \<and> out @ uart_tx st = uart_sent evs \<and>
    (rx_irq_pending st \<longleftrightarrow> (read_fifo st \<noteq> [] \<and> pl011_value st UARTMIS \<noteq> 0))"
  using uart_run_conserves [OF assms, of pl011_new]
  by (auto simp: pl011_new_def rx_irq_pending_def pl011_value_def uart_regs raw_interrupt_status_def
      and.commute split: prod.split)

theorem uart_conserves_witness:
  "case uart_run pl011_new [PushInput [104, 105], RegWrite UARTIMSC [0x50], RegRead UARTDR 4, RegWrite UARTDR [33, 0, 0, 0]] of
     (got, out, st) \<Rightarrow> got @ read_fifo st = [104, 105] \<and> out @ uart_tx st = [33]"
  using uart_conserves [of "[PushInput [104, 105], RegWrite UARTIMSC [0x50], RegRead UARTDR 4, RegWrite UARTDR [33, 0, 0, 0]]"]
  by (simp add: case_prod_unfold del: uart_run.simps) (simp add: uart_regs)

subsection \<open>The clock\<close>

lemma i64_wrap_id: "- (2 ^ 63) \<le> x \<Longrightarrow> x < 2 ^ 63 \<Longrightarrow> i64_wrap x = x"
  by (simp add: i64_wrap_def)

text \<open>
  The clock the guest sets is the clock it reads, carried forward by the host's: after a
  load at host time \<open>t\<close> a later read of the data register at host time \<open>t'\<close> gives the loaded value
  plus the host seconds elapsed, clamped to the 32-bit range instead of wrapping.
\<close>

theorem rtc_set_then_get:
  fixes v :: u32
  assumes "0 \<le> t" "t \<le> t'" "t' < 2 ^ 62"
  shows "fst (pl031_read t' (pl031_write t st RTCLR (le_bytes v)) RTCDR 4) =
    le_bytes (of_int (min (2 ^ 32 - 1) (uint v + (t' - t))) :: u32)"
proof -
  have v: "0 \<le> uint v" "uint v < 2 ^ 32" using uint_lt2p [of v] by simp_all
  have "- (2 ^ 63) \<le> uint v - t" "uint v - t < 2 ^ 63"
  proof -
    have "(2 :: int) ^ 62 < 2 ^ 63" "(2 :: int) ^ 32 < 2 ^ 63" by simp_all
    then show "- (2 ^ 63) \<le> uint v - t" "uint v - t < 2 ^ 63" using assms v by linarith+
  qed
  then have "i64_wrap (uint v - t) = uint v - t" by (rule i64_wrap_id)
  moreover have "i64_sat_add t' (uint v - t) = uint v + (t' - t)"
  proof -
    have "(2 :: int) ^ 62 + 2 ^ 32 < 2 ^ 63" by simp
    then show ?thesis using assms v unfolding i64_sat_add_def by linarith
  qed
  ultimately have "rtc_now t' (pl031_write t st RTCLR (le_bytes v)) = of_int (min (2 ^ 32 - 1) (uint v + (t' - t)))"
    using assms v max_absorb2 [of 0 "min (2 ^ 32 - 1) (uint v + (t' - t))"]
    by (simp add: rtc_now_def pl031_write_def write_u32_reg_le_bytes)
  then show ?thesis by (simp add: pl031_read_def Let_def read_u32_reg_4)
qed

theorem rtc_set_then_get_witness:
  "fst (pl031_read 1700000060 (pl031_write 1700000000 pl031_new RTCLR (le_bytes (100 :: u32))) RTCDR 4) =
   le_bytes (160 :: u32)"
  using rtc_set_then_get [of 1700000000 1700000060 pl031_new 100] by simp

text \<open>
  Clearing the alarm has no lasting effect once the match time is reached: whatever was
  written before, the first read after the clear reports the alarm again, although the counter
  has not passed the match value since the clear. A clock whose match register was never
  programmed reports an alarm as well.
\<close>

theorem rtc_alarm_returns:
  assumes "rtc_mr st \<le> rtc_now t st"
  shows "fst (pl031_read t (pl031_write t st RTCICR (le_bytes (1 :: u32))) RTCRIS 4) = le_bytes (1 :: u32) \<and>
    fst (pl031_read t pl031_new RTCRIS 4) = le_bytes (1 :: u32)"
proof -
  have "rtc_now t (st\<lparr>rtc_ris := 0\<rparr>) = rtc_now t st" by (simp add: rtc_now_def)
  then show ?thesis using assms
    by (simp add: pl031_read_def pl031_write_def write_u32_reg_le_bytes read_u32_reg_4 rtc_regs pl031_new_def Let_def)
qed

theorem rtc_alarm_returns_witness:
  "fst (pl031_read 50 (pl031_write 50 (pl031_new\<lparr>rtc_mr := 50, rtc_ris := 1\<rparr>) RTCICR (le_bytes (1 :: u32))) RTCRIS 4) =
     le_bytes (1 :: u32)"
proof -
  have "rtc_now 50 (pl031_new\<lparr>rtc_mr := 50, rtc_ris := 1\<rparr>) = 50"
    by (simp add: rtc_now_def i64_sat_add_def pl031_new_def)
  then show ?thesis using rtc_alarm_returns [of "pl031_new\<lparr>rtc_mr := 50, rtc_ris := 1\<rparr>" 50] by simp
qed

end
