(* ===== verification/Mmio.thy ===== *)
theory Mmio
  imports Devcore Devices
begin

text \<open>
  The \<^verbatim>\<open>virtio-mmio\<close> transport of a cold-booted guest
  (\<^verbatim>\<open>src/hypervisor/src/hvf/virtio/mmio.rs\<close>): the register map through which a driver negotiates
  features, programs its queues and notifies them, the interrupt status, and the transport state
  that a snapshot records and a resume rebuilds. The wake handle of the network service thread
  (\<^verbatim>\<open>NetKick\<close> of \<^verbatim>\<open>net.rs\<close>) is its pending flag.
\<close>

subsection \<open>State\<close>

definition MAGIC_VALUE :: u32 where "MAGIC_VALUE = 0x74726976"
definition VERSION :: u32 where "VERSION = 2"
definition VENDOR_ID :: u32 where "VENDOR_ID = 0x43484D00"
definition QUEUE_NUM_MAX :: u32 where "QUEUE_NUM_MAX = 256"
definition CONFIG_OFFSET :: u64 where "CONFIG_OFFSET = 0x100"
definition DEVICE_STATUS_FEATURES_OK :: u8 where "DEVICE_STATUS_FEATURES_OK = 0x08"
definition INT_USED_RING :: u32 where "INT_USED_RING = 0x1"
definition RING_INDIRECT_DESC :: u64 where "RING_INDIRECT_DESC = push_bit 28 1"
definition RING_EVENT_IDX :: u64 where "RING_EVENT_IDX = push_bit 29 1"
definition VERSION_1 :: u64 where "VERSION_1 = push_bit 32 1"

lemmas mmio_consts [eval_simps] = MAGIC_VALUE_def VERSION_def VENDOR_ID_def QUEUE_NUM_MAX_def
  CONFIG_OFFSET_def DEVICE_STATUS_FEATURES_OK_def INT_USED_RING_def

record queue_setup =
  qs_size :: u16
  qs_desc :: u64
  qs_driver :: u64
  qs_device :: u64
  qs_ready :: bool

definition setup_default :: queue_setup where
  "setup_default = \<lparr>qs_size = 0, qs_desc = 0, qs_driver = 0, qs_device = 0, qs_ready = False\<rparr>"

record mmio_regs =
  device_features_sel :: u32
  driver_features_sel :: u32
  r_driver_features :: u64
  queue_sel :: u16
  setups :: "queue_setup list"
  interrupt_status :: u32

record mmio_queue_state =
  mq_size :: u16
  mq_desc :: u64
  mq_driver :: u64
  mq_device :: u64
  mq_ready :: bool

record mmio_transport_state =
  ts_name :: string
  ts_device_id :: u32
  ts_device_features :: u64
  ts_driver_features :: u64
  ts_device_features_sel :: u32
  ts_driver_features_sel :: u32
  ts_queue_sel :: u16
  ts_interrupt_status :: u32
  ts_device_status :: u8
  ts_config_generation :: u8
  ts_queues :: "mmio_queue_state list"
  ts_device_config :: bytes

record ('b, 's, 'r) virtio_mmio =
  vm_name :: string
  vm_device_id :: u32
  vm_device_features :: u64
  core :: "('b, 's, 'r) device_core"
  regs :: mmio_regs
  kick :: "bool option"

record mmio_params =
  mp_device_id :: u32
  mp_features :: u64
  mp_num_queues :: u16
  mp_device_config :: bytes

subsection \<open>Construction and snapshot\<close>

definition vmmio_new ::
  "string \<Rightarrow> ('b, 's, 'r) backend \<Rightarrow> guest_memory \<Rightarrow> mmio_params \<Rightarrow> ('b, 's, 'r) virtio_mmio" where
  "vmmio_new name bk m params =
     (let features = mp_features params OR VERSION_1;
          n = unat (mp_num_queues params)
      in \<lparr>vm_name = name, vm_device_id = mp_device_id params, vm_device_features = features,
          core = \<lparr>common = \<lparr>device_feature_select = 0, driver_feature_select = 0, device_features = features,
                     driver_features = 0, msix_config = 0, num_queues = mp_num_queues params,
                     device_status = 0, config_generation = 0, queue_select = 0\<rparr>,
                   queues = replicate n queue_default, queue_vectors = replicate n 0, dc_backend = bk,
                   device_config = mp_device_config params, isr_status = 0, dc_mem = m, signals = [],
                   transport_signals = True\<rparr>,
          regs = \<lparr>device_features_sel = 0, driver_features_sel = 0, r_driver_features = 0, queue_sel = 0,
                  setups = replicate n setup_default, interrupt_status = 0\<rparr>,
          kick = None\<rparr>)"

text \<open>The queue a setup stands for, with the ring features the driver acknowledged.\<close>

definition derived_queue :: "u64 \<Rightarrow> u16 \<Rightarrow> u64 \<Rightarrow> u64 \<Rightarrow> u64 \<Rightarrow> queue" where
  "derived_queue acked sz desc driver device =
     \<lparr>q_size = sz, q_desc = desc, q_avail = driver, q_used = device,
      event_idx = (acked AND RING_EVENT_IDX \<noteq> 0), indirect = (acked AND RING_INDIRECT_DESC \<noteq> 0),
      next_avail = 0, next_used = 0\<rparr>"

definition restored_queue :: "guest_memory \<Rightarrow> u64 \<Rightarrow> mmio_queue_state \<Rightarrow> queue" where
  "restored_queue m acked qs =
     (let q = derived_queue acked (mq_size qs) (mq_desc qs) (mq_driver qs) (mq_device qs)
      in if mq_ready qs then (case restore q m of Inl e \<Rightarrow> q | Inr q' \<Rightarrow> q') else q)"

definition vmmio_restored ::
  "('b, 's, 'r) backend \<Rightarrow> guest_memory \<Rightarrow> mmio_transport_state \<Rightarrow> ('b, 's, 'r) virtio_mmio" where
  "vmmio_restored bk m st =
     (let acked = ts_driver_features st;
          n = length (ts_queues st)
      in \<lparr>vm_name = ts_name st, vm_device_id = ts_device_id st, vm_device_features = ts_device_features st,
          core = \<lparr>common = \<lparr>device_feature_select = ts_device_features_sel st,
                     driver_feature_select = ts_driver_features_sel st,
                     device_features = ts_device_features st, driver_features = acked, msix_config = 0,
                     num_queues = of_nat n, device_status = ts_device_status st,
                     config_generation = ts_config_generation st, queue_select = ts_queue_sel st\<rparr>,
                   queues = map (restored_queue m acked) (ts_queues st), queue_vectors = replicate n 0,
                   dc_backend = bk, device_config = ts_device_config st, isr_status = 0, dc_mem = m,
                   signals = [], transport_signals = True\<rparr>,
          regs = \<lparr>device_features_sel = ts_device_features_sel st,
                  driver_features_sel = ts_driver_features_sel st, r_driver_features = acked,
                  queue_sel = ts_queue_sel st,
                  setups = map (\<lambda>q. \<lparr>qs_size = mq_size q, qs_desc = mq_desc q, qs_driver = mq_driver q,
                    qs_device = mq_device q, qs_ready = mq_ready q\<rparr>) (ts_queues st),
                  interrupt_status = ts_interrupt_status st\<rparr>,
          kick = None\<rparr>)"

definition vmmio_state :: "('b, 's, 'r) virtio_mmio \<Rightarrow> mmio_transport_state" where
  "vmmio_state d =
     \<lparr>ts_name = vm_name d, ts_device_id = vm_device_id d, ts_device_features = vm_device_features d,
      ts_driver_features = r_driver_features (regs d), ts_device_features_sel = device_features_sel (regs d),
      ts_driver_features_sel = driver_features_sel (regs d), ts_queue_sel = queue_sel (regs d),
      ts_interrupt_status = interrupt_status (regs d), ts_device_status = device_status (common (core d)),
      ts_config_generation = config_generation (common (core d)),
      ts_queues = map (\<lambda>s. \<lparr>mq_size = qs_size s, mq_desc = qs_desc s, mq_driver = qs_driver s,
        mq_device = qs_device s, mq_ready = qs_ready s\<rparr>) (setups (regs d)),
      ts_device_config = device_config (core d)\<rparr>"

subsection \<open>Wake handle, status, interrupts\<close>

definition kick_wake :: "bool option \<Rightarrow> bool option" where
  "kick_wake k = (case k of None \<Rightarrow> None | Some pending \<Rightarrow> Some True)"

definition set_net_kick :: "('b, 's, 'r) virtio_mmio \<Rightarrow> bool \<Rightarrow> ('b, 's, 'r) virtio_mmio" where
  "set_net_kick d pending = d\<lparr>kick := Some pending\<rparr>"

definition vmmio_driver_ok :: "('b, 's, 'r) virtio_mmio \<Rightarrow> bool" where
  "vmmio_driver_ok d \<longleftrightarrow> device_status (common (core d)) AND DEVICE_STATUS_DRIVER_OK \<noteq> 0"

definition raise_irq :: "('b, 's, 'r) virtio_mmio \<Rightarrow> ('b, 's, 'r) virtio_mmio" where
  "raise_irq d =
     (if isr_status (core d) = 0 then d
      else d\<lparr>core := (core d)\<lparr>isr_status := 0, signals := signals (core d) @ [0]\<rparr>,
             regs := (regs d)\<lparr>interrupt_status := interrupt_status (regs d) OR INT_USED_RING\<rparr>\<rparr>)"

definition vmmio_service_net ::
  "('b, 's, 'r) host_ops \<Rightarrow> ('b, 's, 'r) virtio_mmio \<Rightarrow> (bool \<times> ('b, 's, 'r) virtio_mmio) outcome option" where
  "vmmio_service_net ops d =
     (if device_status (common (core d)) AND DEVICE_STATUS_DRIVER_OK = 0 then Some (Done (False, d))
      else (case service_net ops (core d) of
              None \<Rightarrow> None
            | Some Panicked \<Rightarrow> Some Panicked
            | Some (Done (delivered, c)) \<Rightarrow>
                Some (Done (delivered, if delivered then raise_irq (d\<lparr>core := c\<rparr>) else d\<lparr>core := c\<rparr>))))"

subsection \<open>Register writes\<close>

definition publish_queue :: "('b, 's, 'r) virtio_mmio \<Rightarrow> u16 \<Rightarrow> ('b, 's, 'r) virtio_mmio" where
  "publish_queue d index =
     (let i = unat index
      in if length (setups (regs d)) \<le> i \<or> length (queues (core d)) \<le> i then d
         else let s = setups (regs d) ! i
              in d\<lparr>core := (core d)\<lparr>queues := (queues (core d))[i :=
                     derived_queue (r_driver_features (regs d)) (qs_size s) (qs_desc s) (qs_driver s) (qs_device s)]\<rparr>\<rparr>)"

definition commit_features :: "('b, 's, 'r) virtio_mmio \<Rightarrow> u64 \<Rightarrow> ('b, 's, 'r) virtio_mmio" where
  "commit_features d acked =
     (let c = (core d)\<lparr>common := (common (core d))\<lparr>driver_features := acked\<rparr>\<rparr>
      in d\<lparr>core := (case dc_backend c of
                      Net n \<Rightarrow> c\<lparr>dc_backend := Net (apply_features n acked)\<rparr>
                    | _ \<Rightarrow> c)\<rparr>)"

definition vmmio_reset :: "('b, 's, 'r) virtio_mmio \<Rightarrow> ('b, 's, 'r) virtio_mmio" where
  "vmmio_reset d =
     d\<lparr>regs := (regs d)\<lparr>r_driver_features := 0, driver_features_sel := 0, device_features_sel := 0,
                queue_sel := 0, interrupt_status := 0, setups := map (\<lambda>s. setup_default) (setups (regs d))\<rparr>,
       core := (core d)\<lparr>common := (common (core d))\<lparr>device_status := 0, driver_features := 0\<rparr>,
                isr_status := 0, queues := map (\<lambda>q. queue_default) (queues (core d))\<rparr>\<rparr>"

definition with_setup :: "('b, 's, 'r) virtio_mmio \<Rightarrow> (queue_setup \<Rightarrow> queue_setup) \<Rightarrow> ('b, 's, 'r) virtio_mmio" where
  "with_setup d f =
     (let sel = unat (queue_sel (regs d))
      in if sel < length (setups (regs d))
         then d\<lparr>regs := (regs d)\<lparr>setups := (setups (regs d))[sel := f (setups (regs d) ! sel)]\<rparr>\<rparr>
         else d)"

definition write_status :: "('b, 's, 'r) virtio_mmio \<Rightarrow> u8 \<Rightarrow> ('b, 's, 'r) virtio_mmio" where
  "write_status d status =
     (if status = 0 then vmmio_reset d
      else let features_ok = (status AND DEVICE_STATUS_FEATURES_OK \<noteq> 0);
               was_features_ok = (device_status (common (core d)) AND DEVICE_STATUS_FEATURES_OK \<noteq> 0);
               d1 = (if features_ok \<and> \<not> was_features_ok then commit_features d (r_driver_features (regs d)) else d)
           in d1\<lparr>core := (core d1)\<lparr>common := (common (core d1))\<lparr>device_status := status\<rparr>\<rparr>\<rparr>)"

definition queue_ready :: "('b, 's, 'r) virtio_mmio \<Rightarrow> nat \<Rightarrow> bool" where
  "queue_ready d i \<longleftrightarrow> i < length (setups (regs d)) \<and> qs_ready (setups (regs d) ! i)"

definition vmmio_notify ::
  "('b, 's, 'r) host_ops \<Rightarrow> ('b, 's, 'r) virtio_mmio \<Rightarrow> u16 \<Rightarrow> ('b, 's, 'r) virtio_mmio outcome option" where
  "vmmio_notify ops d index =
     (if \<not> queue_ready d (unat index) then Some (Done d)
      else (case notify ops (core d) index of
              None \<Rightarrow> None
            | Some Panicked \<Rightarrow> Some Panicked
            | Some (Done c) \<Rightarrow>
                (let d1 = raise_irq (d\<lparr>core := c\<rparr>)
                 in Some (Done (if is_net (dc_backend (core d1)) then d1\<lparr>kick := kick_wake (kick d1)\<rparr> else d1)))))"

fun notify_all ::
  "('b, 's, 'r) host_ops \<Rightarrow> ('b, 's, 'r) virtio_mmio \<Rightarrow> u16 list \<Rightarrow> ('b, 's, 'r) virtio_mmio outcome option" where
  "notify_all ops d [] = Some (Done d)"
| "notify_all ops d (qi # qis) =
     (case vmmio_notify ops d qi of
        None \<Rightarrow> None
      | Some Panicked \<Rightarrow> Some Panicked
      | Some (Done d') \<Rightarrow> notify_all ops d' qis)"

definition vmmio_drain_on_resume ::
  "('b, 's, 'r) host_ops \<Rightarrow> ('b, 's, 'r) virtio_mmio \<Rightarrow> ('b, 's, 'r) virtio_mmio outcome option" where
  "vmmio_drain_on_resume ops d =
     notify_all ops d (map of_nat [0..<unat (of_nat (length (queues (core d))) :: u16)])"

definition low32 :: "u64 \<Rightarrow> u64 \<Rightarrow> u64" where
  "low32 a v = (a AND NOT 0xffffffff) OR (v AND 0xffffffff)"

definition high32 :: "u64 \<Rightarrow> u64 \<Rightarrow> u64" where
  "high32 a v = (a AND 0xffffffff) OR push_bit 32 v"

fun put_config :: "bytes \<Rightarrow> u64 \<Rightarrow> bytes \<Rightarrow> bytes" where
  "put_config cfg base [] = cfg"
| "put_config cfg base (b # bs) =
     put_config (if unat base < length cfg then cfg[unat base := b] else cfg) (base + 1) bs"

definition write_driver_features :: "mmio_regs \<Rightarrow> u64 \<Rightarrow> mmio_regs" where
  "write_driver_features r v =
     (let sel = driver_features_sel r;
          half = shl64 (v AND 0xffffffff) (sel * 32);
          msk = shl64 0xffffffff (sel * 32)
      in r\<lparr>r_driver_features := (r_driver_features r AND NOT msk) OR half\<rparr>)"

definition vmmio_write ::
  "('b, 's, 'r) host_ops \<Rightarrow> ('b, 's, 'r) virtio_mmio \<Rightarrow> u64 \<Rightarrow> bytes \<Rightarrow> ('b, 's, 'r) virtio_mmio outcome option" where
  "vmmio_write ops d offset data =
     (let v = parse_le data; r = regs d; c = core d
      in if CONFIG_OFFSET \<le> offset
         then Some (Done (d\<lparr>core := c\<lparr>device_config := put_config (device_config c) (offset - CONFIG_OFFSET) data\<rparr>\<rparr>))
         else if offset = 0x014 then Some (Done (d\<lparr>regs := r\<lparr>device_features_sel := ucast v\<rparr>\<rparr>))
         else if offset = 0x020 then Some (Done (d\<lparr>regs := write_driver_features r v\<rparr>))
         else if offset = 0x024 then Some (Done (d\<lparr>regs := r\<lparr>driver_features_sel := ucast v\<rparr>\<rparr>))
         else if offset = 0x030
         then Some (Done (d\<lparr>regs := r\<lparr>queue_sel := ucast v\<rparr>,
                core := c\<lparr>common := (common c)\<lparr>queue_select := ucast v\<rparr>\<rparr>\<rparr>))
         else if offset = 0x038 then Some (Done (with_setup d (\<lambda>s. s\<lparr>qs_size := ucast v\<rparr>)))
         else if offset = 0x044
         then (let ready = (v AND 1 \<noteq> 0);
                   d1 = with_setup d (\<lambda>s. s\<lparr>qs_ready := ready\<rparr>)
               in Some (Done (if ready then publish_queue d1 (queue_sel r) else d1)))
         else if offset = 0x050 then vmmio_notify ops d (ucast v)
         else if offset = 0x064
         then Some (Done (d\<lparr>regs := r\<lparr>interrupt_status := interrupt_status r AND NOT (ucast v)\<rparr>\<rparr>))
         else if offset = 0x070 then Some (Done (write_status d (ucast v)))
         else if offset = 0x080 then Some (Done (with_setup d (\<lambda>s. s\<lparr>qs_desc := low32 (qs_desc s) v\<rparr>)))
         else if offset = 0x084 then Some (Done (with_setup d (\<lambda>s. s\<lparr>qs_desc := high32 (qs_desc s) v\<rparr>)))
         else if offset = 0x090 then Some (Done (with_setup d (\<lambda>s. s\<lparr>qs_driver := low32 (qs_driver s) v\<rparr>)))
         else if offset = 0x094 then Some (Done (with_setup d (\<lambda>s. s\<lparr>qs_driver := high32 (qs_driver s) v\<rparr>)))
         else if offset = 0x0a0 then Some (Done (with_setup d (\<lambda>s. s\<lparr>qs_device := low32 (qs_device s) v\<rparr>)))
         else if offset = 0x0a4 then Some (Done (with_setup d (\<lambda>s. s\<lparr>qs_device := high32 (qs_device s) v\<rparr>)))
         else Some (Done d))"

subsection \<open>Register reads\<close>

definition vmmio_value :: "('b, 's, 'r) virtio_mmio \<Rightarrow> u64 \<Rightarrow> u64" where
  "vmmio_value d offset =
     (if offset = 0x000 then ucast MAGIC_VALUE
      else if offset = 0x004 then ucast VERSION
      else if offset = 0x008 then ucast (vm_device_id d)
      else if offset = 0x00c then ucast VENDOR_ID
      else if offset = 0x010 then shr64 (vm_device_features d) (device_features_sel (regs d) * 32) AND 0xffffffff
      else if offset = 0x034 then ucast QUEUE_NUM_MAX
      else if offset = 0x044 then (if queue_ready d (unat (queue_sel (regs d))) then 1 else 0)
      else if offset = 0x060 then ucast (interrupt_status (regs d))
      else if offset = 0x070 then ucast (device_status (common (core d)))
      else if offset = 0x0fc then ucast (config_generation (common (core d)))
      else 0)"

definition vmmio_read :: "('b, 's, 'r) virtio_mmio \<Rightarrow> u64 \<Rightarrow> nat \<Rightarrow> bytes" where
  "vmmio_read d offset n =
     (if CONFIG_OFFSET \<le> offset
      then map (\<lambda>i. let j = unat (offset - CONFIG_OFFSET + of_nat i); cfg = device_config (core d)
                    in if j < length cfg then cfg ! j else 0) [0..<n]
      else fill_le n (vmmio_value d offset))"

definition vmmio_ops :: "('b, 's, 'r) host_ops \<Rightarrow> ('b, 's, 'r) virtio_mmio mmio_ops" where
  "vmmio_ops ops = \<lparr>dev_read = \<lambda>d off n. (vmmio_read d off n, d), dev_write = vmmio_write ops\<rparr>"

definition blk_config :: "u64 \<Rightarrow> bytes" where
  "blk_config nsectors = overwrite 0 (le_bytes nsectors) (replicate 0x40 0)"

definition net_config :: "bytes \<Rightarrow> bytes" where
  "net_config mac = overwrite 0 mac (replicate 0x20 0)"

subsection \<open>What servicing a queue keeps\<close>

text \<open>
  Servicing a queue moves its cursors and nothing else of it. \<open>serviced\<close> collects what every
  service path of the device core keeps: the queues up to their cursors, the configuration, and
  either nothing was completed or the used-ring interrupt bit is set.
\<close>

definition geom :: "queue \<Rightarrow> queue" where
  "geom q = q\<lparr>next_avail := 0, next_used := 0\<rparr>"

definition serviced :: "('b, 's, 'r) device_core \<Rightarrow> ('b, 's, 'r) device_core \<Rightarrow> bool" where
  "serviced c c' \<longleftrightarrow> map geom (queues c') = map geom (queues c) \<and> common c' = common c \<and>
     device_config c' = device_config c \<and> transport_signals c' = transport_signals c \<and>
     is_net (dc_backend c') = is_net (dc_backend c) \<and>
     (transport_signals c \<longrightarrow> signals c' = signals c) \<and>
     (bit (isr_status c) 0 \<longrightarrow> bit (isr_status c') 0) \<and>
     (isr_status c' = isr_status c \<and> map next_used (queues c') = map next_used (queues c) \<or>
      bit (isr_status c') 0)"

lemma serviced_refl [simp]: "serviced c c"
  by (simp add: serviced_def)

lemma serviced_trans: "serviced a b \<Longrightarrow> serviced b c \<Longrightarrow> serviced a c"
  by (auto simp: serviced_def)

lemma serviced_queues: "serviced c c' \<Longrightarrow> length (queues c') = length (queues c)"
  unfolding serviced_def by (metis length_map)

lemma pop_geom: "pop q m = Some (Inr (Some (ch, q'))) \<Longrightarrow> geom q' = geom q \<and> next_used q' = next_used q"
  by (auto simp: pop_def geom_def split: sum.splits option.splits if_splits)

lemma add_used_geom: "add_used q m h l = (r, q', m') \<Longrightarrow> geom q' = geom q"
  by (auto simp: add_used_def geom_def Let_def split: sum.splits if_splits)

lemma serviced_drained:
  assumes "i < length (queues c)" "geom q = geom (queues c ! i)"
    "\<not> done_any \<longrightarrow> next_used q = next_used (queues c ! i)" "is_net bk = is_net (dc_backend c)"
  shows "serviced c (arm_queue (if done_any
      then after_completion (c\<lparr>queues := (queues c)[i := q], dc_backend := bk, dc_mem := m\<rparr>) i old
      else c\<lparr>queues := (queues c)[i := q], dc_backend := bk, dc_mem := m\<rparr>) i)"
    "serviced c (if done_any
      then arm_queue (after_completion (c\<lparr>queues := (queues c)[i := q], dc_backend := bk, dc_mem := m\<rparr>) i old) i
      else c\<lparr>queues := (queues c)[i := q], dc_backend := bk, dc_mem := m\<rparr>)"
proof -
  have g: "map geom ((queues c)[i := q]) = map geom (queues c)"
    using assms(1,2) by (metis list_update_id map_update nth_map)
  have u: "\<not> done_any \<Longrightarrow> map next_used ((queues c)[i := q]) = map next_used (queues c)"
    using assms(1,3) by (metis list_update_id map_update nth_map)
  show "serviced c (arm_queue (if done_any
      then after_completion (c\<lparr>queues := (queues c)[i := q], dc_backend := bk, dc_mem := m\<rparr>) i old
      else c\<lparr>queues := (queues c)[i := q], dc_backend := bk, dc_mem := m\<rparr>) i)"
    using g u assms(4)
    by (auto simp: serviced_def arm_queue_def after_completion_def Let_def bit_simps split: sum.splits)
  show "serviced c (if done_any
      then arm_queue (after_completion (c\<lparr>queues := (queues c)[i := q], dc_backend := bk, dc_mem := m\<rparr>) i old) i
      else c\<lparr>queues := (queues c)[i := q], dc_backend := bk, dc_mem := m\<rparr>)"
    using g u assms(4)
    by (auto simp: serviced_def arm_queue_def after_completion_def Let_def bit_simps split: sum.splits)
qed

lemma serviced_armed: "serviced c (arm_queue c i)"
  by (auto simp: serviced_def arm_queue_def split: sum.splits)

lemma backend_process_net: "backend_process ops bk m ch = Some (n, bk', m') \<Longrightarrow> is_net bk' = is_net bk"
  by (auto simp: backend_process_def is_net_def split: backend.splits option.splits prod.splits)

lemma tx_frame_net: "is_net (tx_frame ops bk buf) = is_net bk"
  by (simp add: tx_frame_def is_net_def split: backend.splits)

lemma drain_geom:
  assumes "drain ops q bk m cp = Some y"
  shows "\<forall>q' bk' m' cp'. y = Done (q', bk', m', cp') \<longrightarrow> geom q' = geom q \<and> is_net bk' = is_net bk \<and>
    (cp \<longrightarrow> cp') \<and> (\<not> cp' \<longrightarrow> next_used q' = next_used q)"
proof (rule drain.raw_induct [OF _ assms], goal_cases)
  case (1 loop ops q bk m cp y)
  show ?case
  proof (cases "\<exists>chain q1 used_len bk1 m1. pop q m = Some (Inr (Some (chain, q1))) \<and>
      backend_process ops bk m chain = Some (used_len, bk1, m1)")
    case True
    then obtain chain q1 used_len bk1 m1 where p: "pop q m = Some (Inr (Some (chain, q1)))"
      "backend_process ops bk m chain = Some (used_len, bk1, m1)" by blast
    obtain r q2 m2 where a: "add_used q1 m1 (head chain) used_len = (r, q2, m2)" by (cases "add_used q1 m1 (head chain) used_len")
    show ?thesis
    proof (cases "r = Inl Panic")
      case True
      with 1(2) p a show ?thesis by (auto simp: Let_def)
    next
      case False
      then have "loop ops q2 bk1 m2 True = Some y" using 1(2) p a by (simp add: Let_def)
      from 1(1) [OF this] show ?thesis using pop_geom [OF p(1)] add_used_geom [OF a] backend_process_net [OF p(2)] by auto
    qed
  next
    case False
    with 1(2) show ?thesis by (auto split: option.splits sum.splits fault.splits prod.splits)
  qed
qed

lemma drain_tx_geom:
  assumes "drain_tx ops q bk m cp = Some y"
  shows "\<forall>q' bk' m' cp'. y = Done (q', bk', m', cp') \<longrightarrow> geom q' = geom q \<and> is_net bk' = is_net bk \<and>
    (cp \<longrightarrow> cp') \<and> (\<not> cp' \<longrightarrow> next_used q' = next_used q)"
proof (rule drain_tx.raw_induct [OF _ assms], goal_cases)
  case (1 loop ops q bk m cp y)
  show ?case
  proof (cases "\<exists>chain q1. pop q m = Some (Inr (Some (chain, q1)))")
    case True
    then obtain chain q1 where p: "pop q m = Some (Inr (Some (chain, q1)))" by blast
    obtain r q2 m2 where a: "add_used q1 m (head chain) 0 = (r, q2, m2)" by (cases "add_used q1 m (head chain) 0")
    show ?thesis
    proof (cases "r = Inl Panic")
      case True
      with 1(2) p a show ?thesis by (auto simp: Let_def)
    next
      case False
      then have "loop ops q2 (tx_frame ops bk (read_frame m (readable chain))) m2 True = Some y" using 1(2) p a by (simp add: Let_def)
      from 1(1) [OF this] show ?thesis using pop_geom [OF p] add_used_geom [OF a] tx_frame_net [of ops bk] by auto
    qed
  next
    case False
    with 1(2) show ?thesis by (auto split: option.splits sum.splits fault.splits prod.splits)
  qed
qed

lemma flush_loop_geom:
  assumes "flush_loop q n m dl = Some y"
  shows "\<forall>q' n' m' dl'. y = Done (q', n', m', dl') \<longrightarrow> geom q' = geom q \<and>
    (dl \<longrightarrow> dl') \<and> (\<not> dl' \<longrightarrow> next_used q' = next_used q)"
proof (rule flush_loop.raw_induct [OF _ assms], goal_cases)
  case (1 loop q n m dl y)
  show ?case
  proof (cases "\<exists>chain q1 frame n2. has_pending_rx n \<and> pop q m = Some (Inr (Some (chain, q1))) \<and>
      pop_rx (observe_rx_capacity n (unat (writable_len chain))) = Some (frame, n2)")
    case True
    then obtain chain q1 frame n2 where p: "has_pending_rx n" "pop q m = Some (Inr (Some (chain, q1)))"
      "pop_rx (observe_rx_capacity n (unat (writable_len chain))) = Some (frame, n2)" by blast
    obtain w m1 where s: "spread m (rx_payload (rx_header_flags n2) frame) 0 (writable chain) = (w, m1)"
      by (cases "spread m (rx_payload (rx_header_flags n2) frame) 0 (writable chain)")
    obtain r q2 m2 where a: "add_used q1 m1 (head chain) (of_nat w) = (r, q2, m2)" by (cases "add_used q1 m1 (head chain) (of_nat w)")
    show ?thesis
    proof (cases "r = Inl Panic")
      case True
      with 1(2) p a s show ?thesis by (auto simp: Let_def)
    next
      case False
      then have "loop q2 n2 m2 True = Some y" using 1(2) p a s by (simp add: Let_def)
      from 1(1) [OF this] show ?thesis using  pop_geom [OF p(2)] add_used_geom [OF a] by auto
    qed
  next
    case False
    with 1(2) pop_geom show ?thesis
      by (auto simp: Let_def split: option.splits sum.splits fault.splits prod.splits if_splits)
  qed
qed


lemma notify_loop_serviced:
  assumes "notify_loop ops c i = Some y"
  shows "\<forall>c'. y = Done c' \<longrightarrow> serviced c c'"
proof (rule notify_loop.raw_induct [OF _ assms], goal_cases)
  case (1 loop ops c i y)
  show ?case
  proof (cases "\<exists>q bk m dn. i < length (queues c) \<and>
      drain ops (queues c ! i) (dc_backend c) (dc_mem c) False = Some (Done (q, bk, m, dn))")
    case True
    then obtain q bk m dn where i: "i < length (queues c)"
      and d: "drain ops (queues c ! i) (dc_backend c) (dc_mem c) False = Some (Done (q, bk, m, dn))" by blast
    let ?c1 = "c\<lparr>queues := (queues c)[i := q], dc_backend := bk, dc_mem := m\<rparr>"
    let ?c3 = "arm_queue (if dn then after_completion ?c1 i (next_used (queues c ! i)) else ?c1) i"
    have s: "serviced c ?c3" using drain_geom [OF d] i by (intro serviced_drained(1)) auto
    show ?thesis
    proof (cases "has_pending q (dc_mem ?c3) = Inr True")
      case True
      then have "loop ops ?c3 i = Some y" using 1(2) d i by (simp add: Let_def)
      from 1(1) [OF this] s show ?thesis using serviced_trans by blast
    next
      case False
      with 1(2) d i s show ?thesis by (auto simp: Let_def)
    qed
  next
    case False
    with 1(2) show ?thesis by (auto simp: Let_def split: option.splits outcome.splits prod.splits if_splits)
  qed
qed

lemma flush_rx_serviced:
  assumes "flush_rx c = Some (Done (dl, c'))"
  shows "serviced c c'"
proof (cases "\<exists>n q n' m dn. dc_backend c = Net n \<and> queues c \<noteq> [] \<and>
    flush_loop (queues c ! 0) n (dc_mem c) False = Some (Done (q, n', m, dn))")
  case True
  then obtain n q n' m dn where f: "dc_backend c = Net n" "queues c \<noteq> []"
    "flush_loop (queues c ! 0) n (dc_mem c) False = Some (Done (q, n', m, dn))" by blast
  show ?thesis
    using assms f flush_loop_geom [OF f(3)] serviced_drained(2) [of 0 c q dn "Net n'" m "next_used (queues c ! 0)"]
    by (auto simp: flush_rx_def Let_def is_net_def)
next
  case False
  with assms show ?thesis
    by (auto simp: flush_rx_def Let_def split: backend.splits option.splits outcome.splits prod.splits if_splits)
qed

lemma after_flush:
  assumes "(case flush_rx c of None \<Rightarrow> None | Some Panicked \<Rightarrow> Some Panicked
      | Some (Done (delivered, c2)) \<Rightarrow> Some (Done c2)) = Some (Done c')"
  shows "serviced c c'"
proof -
  obtain dl where "flush_rx c = Some (Done (dl, c'))"
    using assms by (auto split: option.splits outcome.splits prod.splits)
  then show ?thesis by (rule flush_rx_serviced)
qed

lemma notify_net_serviced:
  assumes "notify_net ops c qi = Some (Done c')"
  shows "serviced c c'"
proof -
  let ?t = "unat NET_TX_QUEUE"
  consider "qi = NET_TX_QUEUE" "length (queues c) \<le> ?t"
    | "qi = NET_TX_QUEUE" "?t < length (queues c)" | "qi \<noteq> NET_TX_QUEUE" by linarith
  then show ?thesis
  proof cases
    case 1
    then show ?thesis using assms by (simp add: notify_net_def)
  next
    case 2
    then obtain q bk m dn where d: "drain_tx ops (queues c ! ?t) (dc_backend c) (dc_mem c) False = Some (Done (q, bk, m, dn))"
      using assms by (cases "drain_tx ops (queues c ! ?t) (dc_backend c) (dc_mem c) False")
        (auto simp: notify_net_def Let_def split: outcome.splits)
    let ?c1 = "c\<lparr>queues := (queues c)[?t := q], dc_backend := bk, dc_mem := m\<rparr>"
    let ?c3 = "arm_queue (if dn then after_completion ?c1 ?t (next_used (queues c ! ?t)) else ?c1) ?t"
    have "serviced c ?c3" using drain_tx_geom [OF d] 2 by (intro serviced_drained(1)) auto
    moreover have "serviced ?c3 c'" using assms 2 d by (intro after_flush) (simp add: notify_net_def Let_def)
    ultimately show ?thesis by (rule serviced_trans)
  next
    case 3
    let ?c3 = "if qi = NET_RX_QUEUE \<and> queues c \<noteq> [] then arm_queue c 0 else c"
    have "serviced c ?c3" using serviced_armed [of c 0] by simp
    moreover have "serviced ?c3 c'"
      using assms 3 by (intro after_flush) (auto simp: notify_net_def Let_def split: if_splits)
    ultimately show ?thesis by (rule serviced_trans)
  qed
qed

lemma notify_serviced:
  assumes "notify ops c qi = Some (Done c')"
  shows "serviced c c'"
proof (cases "is_net (dc_backend c)")
  case True
  with assms show ?thesis by (simp add: notify_def notify_net_serviced)
next
  case False
  with assms have "notify_loop ops c (unat qi) = Some (Done c')" by (simp add: notify_def)
  from notify_loop_serviced [OF this] show ?thesis by simp
qed

lemma service_net_serviced:
  assumes "service_net ops c = Some (Done (dl, c'))"
  shows "serviced c c'"
proof (cases "dc_backend c")
  case (Net n)
  have "serviced c (c\<lparr>dc_backend := Net (snd (net_service (ho_net ops) n))\<rparr>)"
    using Net by (simp add: serviced_def is_net_def)
  moreover have "serviced (c\<lparr>dc_backend := Net (snd (net_service (ho_net ops) n))\<rparr>) c'"
    using assms Net by (intro flush_rx_serviced) (simp add: service_net_def)
  ultimately show ?thesis by (rule serviced_trans)
qed (use assms in \<open>auto simp: service_net_def\<close>)

interpretation vmmiod: mmio_device "vmmio_ops ops" for ops
  by unfold_locales (simp add: vmmio_ops_def vmmio_read_def fill_le_def)

subsection \<open>Histories of a device\<close>

datatype mmio_event = DriverWrite u64 bytes | ServiceNet

definition mmio_step ::
  "('b, 's, 'r) host_ops \<Rightarrow> ('b, 's, 'r) virtio_mmio \<Rightarrow> mmio_event \<Rightarrow> ('b, 's, 'r) virtio_mmio outcome option" where
  "mmio_step ops d ev =
     (case ev of
        DriverWrite offset data \<Rightarrow> vmmio_write ops d offset data
      | ServiceNet \<Rightarrow>
          (case vmmio_service_net ops d of
             None \<Rightarrow> None
           | Some Panicked \<Rightarrow> Some Panicked
           | Some (Done (delivered, d')) \<Rightarrow> Some (Done d')))"

text \<open>Devices reached from \<open>d0\<close> by events that the discipline \<open>P\<close> permits.\<close>

inductive mmio_reach ::
  "('b, 's, 'r) host_ops \<Rightarrow> (('b, 's, 'r) virtio_mmio \<Rightarrow> mmio_event \<Rightarrow> bool) \<Rightarrow>
   ('b, 's, 'r) virtio_mmio \<Rightarrow> ('b, 's, 'r) virtio_mmio \<Rightarrow> bool"
  for ops P d0
where
  reach_start: "mmio_reach ops P d0 d0"
| reach_step: "mmio_reach ops P d0 d \<Longrightarrow> P d ev \<Longrightarrow> mmio_step ops d ev = Some (Done d') \<Longrightarrow> mmio_reach ops P d0 d'"

definition quiet :: "('b, 's, 'r) virtio_mmio \<Rightarrow> bool" where
  "quiet d \<longleftrightarrow> isr_status (core d) = 0 \<and> transport_signals (core d) \<and>
     length (setups (regs d)) = length (queues (core d))"

text \<open>
  The effect of a step on the parts the invariants speak of: everything but a notification and a
  network service leaves interrupts, guest memory and the cursors alone.
\<close>

lemma with_setup_core [simp]: "core (with_setup d f) = core d" "interrupt_status (regs (with_setup d f)) = interrupt_status (regs d)"
  "r_driver_features (regs (with_setup d f)) = r_driver_features (regs d)" "queue_sel (regs (with_setup d f)) = queue_sel (regs d)"
  "length (setups (regs (with_setup d f))) = length (setups (regs d))"
  by (simp_all add: with_setup_def Let_def)

lemma raise_irq_quiet:
  assumes "transport_signals (core d)" "length (setups (regs d)) = length (queues (core d))"
  shows "quiet (raise_irq d)"
  using assms by (simp add: raise_irq_def quiet_def)

lemma raise_irq_fields [simp]: "queues (core (raise_irq d)) = queues (core d)" "dc_mem (core (raise_irq d)) = dc_mem (core d)"
  "setups (regs (raise_irq d)) = setups (regs d)" "r_driver_features (regs (raise_irq d)) = r_driver_features (regs d)"
  "dc_backend (core (raise_irq d)) = dc_backend (core d)" "transport_signals (core (raise_irq d)) = transport_signals (core d)"
  by (simp_all add: raise_irq_def)

lemma vmmio_notify_cases:
  assumes "vmmio_notify ops d qi = Some (Done d')"
  obtains "\<not> queue_ready d (unat qi)" "d' = d"
  | c k where "queue_ready d (unat qi)" "notify ops (core d) qi = Some (Done c)"
      "d' = (raise_irq (d\<lparr>core := c\<rparr>))\<lparr>kick := k\<rparr>"
proof (cases "queue_ready d (unat qi)")
  case False
  then have "d' = d" using assms by (simp add: vmmio_notify_def)
  with False show ?thesis by (rule that(1))
next
  case True
  have "\<exists>c. notify ops (core d) qi = Some (Done c)"
  proof (cases "notify ops (core d) qi")
    case None
    with True assms show ?thesis by (simp add: vmmio_notify_def)
  next
    case (Some r)
    with True assms show ?thesis by (cases r) (simp_all add: vmmio_notify_def)
  qed
  then obtain c where c: "notify ops (core d) qi = Some (Done c)" by blast
  let ?d1 = "raise_irq (d\<lparr>core := c\<rparr>)"
  have "d' = (if is_net (dc_backend (core ?d1)) then ?d1\<lparr>kick := kick_wake (kick ?d1)\<rparr> else ?d1)"
    using assms True c by (simp add: vmmio_notify_def Let_def)
  moreover have "?d1 = ?d1\<lparr>kick := kick ?d1\<rparr>" by (cases ?d1) simp
  ultimately have "\<exists>k. d' = ?d1\<lparr>kick := k\<rparr>" by metis
  then show ?thesis using that(2) [OF True c] by blast
qed

lemma vmmio_notify_quiet:
  assumes "vmmio_notify ops d qi = Some (Done d')" "quiet d"
  shows "quiet d'"
  using assms(1)
proof (cases rule: vmmio_notify_cases)
  case 1
  with assms(2) show ?thesis by simp
next
  case (2 c k)
  note s = notify_serviced [OF 2(2)]
  have "quiet (raise_irq (d\<lparr>core := c\<rparr>))"
    using s serviced_queues [OF s] assms(2) by (intro raise_irq_quiet) (auto simp: quiet_def serviced_def)
  with 2(3) show ?thesis by (simp add: quiet_def)
qed

lemma flush_rx_undelivered: "flush_rx c = Some (Done (False, c')) \<Longrightarrow> isr_status c' = isr_status c"
  by (auto simp: flush_rx_def Let_def split: backend.splits option.splits outcome.splits prod.splits if_splits)

lemma service_undelivered: "service_net ops c = Some (Done (False, c')) \<Longrightarrow> isr_status c' = isr_status c"
  by (auto simp: service_net_def dest!: flush_rx_undelivered split: backend.splits)

lemma vmmio_service_cases:
  assumes "vmmio_service_net ops d = Some (Done (dl, d'))"
  obtains "d' = d"
  | c where "service_net ops (core d) = Some (Done (dl, c))" "d' = (if dl then raise_irq (d\<lparr>core := c\<rparr>) else d\<lparr>core := c\<rparr>)"
  using assms by (auto simp: vmmio_service_net_def split: option.splits outcome.splits prod.splits if_splits)

lemma service_quiet:
  assumes "vmmio_service_net ops d = Some (Done (dl, d'))" "quiet d"
  shows "quiet d'"
  using assms(1)
proof (cases rule: vmmio_service_cases)
  case 1
  with assms(2) show ?thesis by simp
next
  case (2 c)
  note s = service_net_serviced [OF 2(1)]
  show ?thesis
  proof (cases dl)
    case True
    have "quiet (raise_irq (d\<lparr>core := c\<rparr>))"
      using s serviced_queues [OF s] assms(2) by (intro raise_irq_quiet) (auto simp: quiet_def serviced_def)
    with 2 True show ?thesis by simp
  next
    case False
    with 2 service_undelivered [of ops "core d" c] s serviced_queues [OF s] assms(2) show ?thesis
      by (auto simp: quiet_def serviced_def)
  qed
qed

lemma write_quiet:
  assumes "vmmio_write ops d off data = Some (Done d')" "quiet d"
  shows "quiet d'"
proof (cases "off = 0x50")
  case True
  with assms show ?thesis
    by (simp add: vmmio_write_def CONFIG_OFFSET_def Let_def vmmio_notify_quiet)
next
  case False
  with assms show ?thesis
    by (auto simp: vmmio_write_def Let_def quiet_def write_driver_features_def publish_queue_def write_status_def
        vmmio_reset_def commit_features_def split: if_splits backend.splits)
qed

lemma reach_quiet:
  assumes "mmio_reach ops P d0 d" "quiet d0"
  shows "quiet d"
  using assms
proof (induction rule: mmio_reach.induct)
  case (reach_step d ev d')
  then show ?case
    by (cases ev) (auto simp: mmio_step_def dest: write_quiet service_quiet split: option.splits outcome.splits)
qed

lemma new_quiet: "quiet (vmmio_new name bk m ps)"
  by (simp add: quiet_def vmmio_new_def Let_def)

subsection \<open>No ring access before the queue is ready\<close>

definition idle :: "guest_memory \<Rightarrow> ('b, 's, 'r) virtio_mmio \<Rightarrow> bool" where
  "idle m d \<longleftrightarrow> dc_mem (core d) = m \<and> signals (core d) = [] \<and> interrupt_status (regs d) = 0 \<and>
     (\<forall>i. \<not> queue_ready d i) \<and> set (queues (core d)) \<subseteq> {queue_default}"

lemma setup_at: "setups (regs (with_setup d f)) ! i =
    (if i = unat (queue_sel (regs d)) \<and> i < length (setups (regs d)) then f (setups (regs d) ! i) else setups (regs d) ! i)"
  by (simp add: with_setup_def Let_def)

lemma with_setup_ready:
  assumes "\<not> queue_ready d i" "qs_ready (f (setups (regs d) ! i)) \<longrightarrow> qs_ready (setups (regs d) ! i)"
  shows "\<not> queue_ready (with_setup d f) i"
  using assms by (cases "i = unat (queue_sel (regs d))") (auto simp: setup_at queue_ready_def)

lemma idle_with_setup:
  assumes "idle m d" "\<And>s. qs_ready (f s) \<longrightarrow> qs_ready s"
  shows "idle m (with_setup d f)"
  using assms with_setup_ready [where d = d and f = f] by (simp add: idle_def)

lemma idle_step:
  assumes "idle m d" "\<not> (off = 0x044 \<and> parse_le data AND 1 \<noteq> 0)"
  shows "\<exists>d'. vmmio_write ops d off data = Some (Done d') \<and> idle m d'"
proof (cases "off \<in> {0x038, 0x044, 0x080, 0x084, 0x090, 0x094, 0x0a0, 0x0a4}")
  case True
  with assms(2) idle_with_setup [OF assms(1)] show ?thesis
    by (auto simp: vmmio_write_def CONFIG_OFFSET_def Let_def)
next
  case False
  with assms(1) show ?thesis
    by (auto simp: vmmio_write_def Let_def idle_def queue_ready_def vmmio_notify_def write_driver_features_def
        write_status_def vmmio_reset_def commit_features_def setup_default_def split: backend.splits)
qed

fun vmmio_writes ::
  "('b, 's, 'r) host_ops \<Rightarrow> ('b, 's, 'r) virtio_mmio \<Rightarrow> (u64 \<times> bytes) list \<Rightarrow> ('b, 's, 'r) virtio_mmio outcome option" where
  "vmmio_writes ops d [] = Some (Done d)"
| "vmmio_writes ops d ((off, data) # ws) =
     (case vmmio_write ops d off data of
        None \<Rightarrow> None
      | Some Panicked \<Rightarrow> Some Panicked
      | Some (Done d') \<Rightarrow> vmmio_writes ops d' ws)"

lemma idle_writes:
  "idle m d \<Longrightarrow> \<forall>(off, data) \<in> set ws. \<not> (off = 0x044 \<and> parse_le data AND 1 \<noteq> 0) \<Longrightarrow>
   \<exists>d'. vmmio_writes ops d ws = Some (Done d') \<and> idle m d'"
proof (induction ws arbitrary: d)
  case (Cons w ws)
  obtain off data where w: "w = (off, data)" by (cases w)
  obtain d1 where "vmmio_write ops d off data = Some (Done d1)" "idle m d1"
    using idle_step [of m d off data ops] Cons.prems w by auto
  with Cons w show ?case by simp
qed simp

text \<open>
  C18. No ring is walked before the driver has named it: whatever registers a driver writes, in
  whatever order and with whatever data, notifications included, as long as it never sets a
  queue ready every write returns, guest memory is untouched and no interrupt is raised.
\<close>

theorem mmio_no_dma_before_ready:
  assumes "\<forall>(off, data) \<in> set ws. \<not> (off = 0x044 \<and> parse_le data AND 1 \<noteq> 0)"
  shows "\<exists>d'. vmmio_writes ops (vmmio_new name bk m ps) ws = Some (Done d') \<and>
    dc_mem (core d') = m \<and> signals (core d') = [] \<and> interrupt_status (regs d') = 0"
proof -
  have "idle m (vmmio_new name bk m ps)"
    by (auto simp: idle_def vmmio_new_def Let_def queue_ready_def setup_default_def)
  from idle_writes [OF this assms, of ops] show ?thesis by (auto simp: idle_def)
qed

definition demo_params :: mmio_params where
  "demo_params = \<lparr>mp_device_id = 4, mp_features = RING_EVENT_IDX OR RING_INDIRECT_DESC, mp_num_queues = 1,
     mp_device_config = []\<rparr>"

theorem mmio_no_dma_before_ready_witness:
  "\<exists>d'. vmmio_writes demo_ops (vmmio_new [] (Rng []) demo_mem demo_params)
      [(0x038, [2, 0, 0, 0]), (0x080, [0, 16, 0, 0]), (0x050, [0, 0, 0, 0])] = Some (Done d') \<and>
     dc_mem (core d') = demo_mem \<and> signals (core d') = [] \<and> interrupt_status (regs d') = 0"
  by (rule mmio_no_dma_before_ready) simp

subsection \<open>Snapshot and restore\<close>

text \<open>
  Capturing a device and rebuilding it loses no register: the rebuilt device has the same
  transport state, and every register and every byte of configuration space reads as before,
  whatever backend and memory it is given.
\<close>

theorem mmio_snapshot_registers:
  "vmmio_state (vmmio_restored bk m (vmmio_state d)) = vmmio_state d \<and>
   vmmio_read (vmmio_restored bk m (vmmio_state d)) off n = vmmio_read d off n"
  by (simp add: vmmio_state_def vmmio_restored_def Let_def vmmio_read_def vmmio_value_def queue_ready_def
      comp_def) (auto simp: vmmio_value_def queue_ready_def)

subsection \<open>Programming a queue\<close>

lemma parse_le_u32: "parse_le (le_bytes (v :: u32)) = ucast v"
proof (rule bit_word_eqI)
  fix n assume "n < LENGTH(64)"
  have "n div 8 < 4 \<Longrightarrow> (overwrite 0 (le_bytes v) (replicate 8 0)) ! (n div 8) = le_bytes v ! (n div 8)"
    by (simp add: overwrite_def nth_append)
  moreover have "4 \<le> n div 8 \<Longrightarrow> n div 8 < 8 \<Longrightarrow> (overwrite 0 (le_bytes v) (replicate 8 0)) ! (n div 8) = 0"
    by (simp add: overwrite_def nth_append)
  moreover have "n div 8 < 4 \<longleftrightarrow> n < 32" "n div 8 < 8 \<longleftrightarrow> n < 64" by auto
  moreover have "8 * (n div 8) + n mod 8 = n" by simp
  ultimately show "bit (parse_le (le_bytes v)) n = bit (ucast v :: u64) n"
    by (cases "n div 8 < 4"; cases "n div 8 < 8")
      (auto simp: parse_le_def bit_of_le_bytes bit_simps le_bytes_def add.commute dest: bit_imp_le_length)
qed

abbreviation lo :: "u64 \<Rightarrow> u32" where "lo a \<equiv> ucast a"
abbreviation hi :: "u64 \<Rightarrow> u32" where "hi a \<equiv> ucast (drop_bit 32 a)"

lemma mask32: "(0xffffffff :: u64) = mask 32"
  by (simp add: mask_eq_exp_minus_1)

lemma halves_join: "high32 (low32 a (ucast (lo v))) (ucast (hi v)) = v"
proof (rule bit_word_eqI)
  fix n assume "n < LENGTH(64)"
  then show "bit (high32 (low32 a (ucast (lo v))) (ucast (hi v))) n = bit v n"
    unfolding high32_def low32_def mask32 by (cases "n < 32") (auto simp: bit_simps)
qed

lemma features_join:
  "r_driver_features (write_driver_features ((write_driver_features (r\<lparr>driver_features_sel := 0\<rparr>) (ucast (lo v)))
     \<lparr>driver_features_sel := 1\<rparr>) (ucast (hi v))) = v"
proof (rule bit_word_eqI)
  fix n assume "n < LENGTH(64)"
  then show "bit (r_driver_features (write_driver_features ((write_driver_features (r\<lparr>driver_features_sel := 0\<rparr>)
      (ucast (lo v)))\<lparr>driver_features_sel := 1\<rparr>) (ucast (hi v)))) n = bit v n"
    unfolding write_driver_features_def Let_def shl64_def mask32 by (cases "n < 32") (auto simp: bit_simps)
qed

definition queue_program :: "u64 \<Rightarrow> u16 \<Rightarrow> u16 \<Rightarrow> u64 \<Rightarrow> u64 \<Rightarrow> u64 \<Rightarrow> (u64 \<times> bytes) list" where
  "queue_program features i sz desc driver device =
     [(0x024, le_bytes (0 :: u32)), (0x020, le_bytes (lo features)),
      (0x024, le_bytes (1 :: u32)), (0x020, le_bytes (hi features)),
      (0x030, le_bytes (ucast i :: u32)), (0x038, le_bytes (ucast sz :: u32)),
      (0x080, le_bytes (lo desc)), (0x084, le_bytes (hi desc)),
      (0x090, le_bytes (lo driver)), (0x094, le_bytes (hi driver)),
      (0x0a0, le_bytes (lo device)), (0x0a4, le_bytes (hi device)),
      (0x044, le_bytes (1 :: u32))]"

lemma ucast_u16_u64: "(ucast (ucast (ucast (i :: u16) :: u32) :: u64) :: u16) = i"
  by (rule bit_word_eqI) (simp add: bit_simps)

lemma write_features_fields [simp]:
  "setups (write_driver_features r v) = setups r" "queue_sel (write_driver_features r v) = queue_sel r"
  "interrupt_status (write_driver_features r v) = interrupt_status r"
  by (simp_all add: write_driver_features_def Let_def)

lemma program_queue:
  assumes "unat i < length (setups (regs d))" "length (queues (core d)) = length (setups (regs d))"
  shows "\<exists>d'. vmmio_writes ops d (queue_program features i sz desc driver device) = Some (Done d') \<and>
    queues (core d') = (queues (core d))[unat i := derived_queue features sz desc driver device] \<and>
    queue_ready d' (unat i) \<and> r_driver_features (regs d') = features \<and>
    dc_mem (core d') = dc_mem (core d) \<and> dc_backend (core d') = dc_backend (core d)"
  using assms features_join [of "regs d" features]
  by (simp add: queue_program_def vmmio_write_def CONFIG_OFFSET_def Let_def parse_le_u32 with_setup_def
      ucast_u16_u64 publish_queue_def halves_join queue_ready_def)



subsection \<open>Completions are announced\<close>

lemma reach_writes:
  assumes "mmio_reach ops P d0 d" "vmmio_writes ops d ws = Some (Done d')"
    "\<And>d' off data. P d' (DriverWrite off data)"
  shows "mmio_reach ops P d0 d'"
  using assms(1,2)
proof (induction ws arbitrary: d)
  case (Cons w ws)
  obtain off data where w: "w = (off, data)" by (cases w)
  obtain d1 where d1: "vmmio_write ops d off data = Some (Done d1)" "vmmio_writes ops d1 ws = Some (Done d')"
    using Cons.prems(2) w by (auto split: option.splits outcome.splits)
  have "mmio_reach ops P d0 d1"
    using mmio_reach.reach_step [OF Cons.prems(1) assms(3), of off data d1] d1 by (simp add: mmio_step_def)
  from Cons.IH [OF this d1(2)] show ?case .
qed simp

text \<open>
  C20. Every completion is announced: in any history of a device, network service included, when
  a queue notification publishes a used-ring entry, the used-ring bit of the interrupt status is
  set afterwards and the interrupt line has been pulsed once more.
\<close>

theorem mmio_completion_interrupts:
  assumes "mmio_reach ops (\<lambda>d ev. True) (vmmio_new name bk m ps) d"
    "vmmio_write ops d 0x050 data = Some (Done d')"
    "map next_used (queues (core d')) \<noteq> map next_used (queues (core d))"
  shows "bit (interrupt_status (regs d')) 0 \<and> signals (core d') = signals (core d) @ [0]"
proof -
  have q: "quiet d" using reach_quiet [OF assms(1) new_quiet] .
  have "vmmio_notify ops d (ucast (parse_le data)) = Some (Done d')"
    using assms(2) by (simp add: vmmio_write_def CONFIG_OFFSET_def Let_def)
  then show ?thesis
  proof (cases rule: vmmio_notify_cases)
    case 1
    with assms(3) show ?thesis by simp
  next
    case (2 c k)
    note s = notify_serviced [OF 2(2)]
    have "map next_used (queues c) \<noteq> map next_used (queues (core d))" using assms(3) 2(3) by simp
    then have "bit (isr_status c) 0" using s by (auto simp: serviced_def)
    then have "isr_status c \<noteq> 0" by auto
    moreover have "signals c = signals (core d)" using s q by (auto simp: serviced_def quiet_def)
    ultimately show ?thesis using 2(3) by (simp add: raise_irq_def INT_USED_RING_def bit_simps)
  qed
qed

definition demo_vmmio :: "(overlay_backend, bytes, echo_responder) virtio_mmio" where
  "demo_vmmio = vmmio_new [] (Rng [1, 2, 3, 4]) demo_mem demo_params"

lemma demo_programmed:
  "\<exists>d. vmmio_writes demo_ops demo_vmmio (queue_program (RING_EVENT_IDX OR RING_INDIRECT_DESC) 0 2 0x1000 0x1020 0x1030) =
     Some (Done d) \<and> queues (core d) = [demo_queue] \<and> queue_ready d 0 \<and> dc_mem (core d) = demo_mem \<and>
     dc_backend (core d) = Rng [1, 2, 3, 4]"
proof -
  have n: "length (setups (regs demo_vmmio)) = 1" "queues (core demo_vmmio) = [queue_default]"
    "dc_mem (core demo_vmmio) = demo_mem" "dc_backend (core demo_vmmio) = Rng [1, 2, 3, 4]"
    by (simp_all add: demo_vmmio_def vmmio_new_def demo_params_def Let_def)
  have "derived_queue (RING_EVENT_IDX OR RING_INDIRECT_DESC) 2 0x1000 0x1020 0x1030 = demo_queue"
    by (simp add: derived_queue_def demo_queue_def RING_EVENT_IDX_def RING_INDIRECT_DESC_def)
  with n program_queue [where d = demo_vmmio and i = 0 and ops = demo_ops and
      features = "RING_EVENT_IDX OR RING_INDIRECT_DESC" and sz = 2 and desc = "0x1000" and driver = "0x1020" and device = "0x1030"]
  show ?thesis by auto
qed

lemma demo_kick:
  assumes "queues (core d) = [demo_queue]" "queue_ready d 0" "dc_mem (core d) = demo_mem" "dc_backend (core d) = Rng s"
  shows "\<exists>d'. vmmio_write demo_ops d 0x050 [0, 0, 0, 0] = Some (Done d') \<and> queues (core d') = [demo_queue1] \<and>
    read_u16 (dc_mem (core d')) 0x1032 = Inr 1 \<and> setups (regs d') = setups (regs d)"
proof -
  obtain c where c: "notify demo_ops (core d) 0 = Some (Done c)" "queues c = [demo_queue1]" "read_u16 (dc_mem c) 0x1032 = Inr 1"
    using demo_notify [of "core d" s] assms by auto
  have "parse_le [0, 0, 0, 0] = 0" by (simp add: parse_le_def overwrite_def eval_nat_numeral)
  then show ?thesis
    using c assms(2) by (auto simp: vmmio_write_def CONFIG_OFFSET_def Let_def vmmio_notify_def)
qed

theorem mmio_completion_interrupts_witness:
  "\<exists>d d'. vmmio_write demo_ops d 0x050 [0, 0, 0, 0] = Some (Done d') \<and> queues (core d) = [demo_queue] \<and>
     bit (interrupt_status (regs d')) 0 \<and> signals (core d') = signals (core d) @ [0]"
proof -
  obtain d where d: "vmmio_writes demo_ops demo_vmmio
      (queue_program (RING_EVENT_IDX OR RING_INDIRECT_DESC) 0 2 0x1000 0x1020 0x1030) = Some (Done d)"
    "queues (core d) = [demo_queue]" "queue_ready d 0" "dc_mem (core d) = demo_mem" "dc_backend (core d) = Rng [1, 2, 3, 4]"
    using demo_programmed by blast
  obtain d' where d': "vmmio_write demo_ops d 0x050 [0, 0, 0, 0] = Some (Done d')" "queues (core d') = [demo_queue1]"
    using demo_kick [OF d(2-5)] by blast
  have "mmio_reach demo_ops (\<lambda>d ev. True) (vmmio_new [] (Rng [1, 2, 3, 4]) demo_mem demo_params) d"
    using reach_writes [OF mmio_reach.reach_start d(1)] by (simp add: demo_vmmio_def)
  from mmio_completion_interrupts [OF this d'(1)] d d' show ?thesis by (auto simp: demo_queue_def)
qed

subsection \<open>What a snapshot relies on\<close>

text \<open>
  A polite driver does not reprogram a queue it has set ready, nor the feature set while a queue
  is ready. The published queue then stays the one the recorded setup describes.
\<close>

definition polite :: "('b, 's, 'r) virtio_mmio \<Rightarrow> mmio_event \<Rightarrow> bool" where
  "polite d ev = (case ev of
     DriverWrite off data \<Rightarrow>
       (off \<in> {0x038, 0x080, 0x084, 0x090, 0x094, 0x0a0, 0x0a4} \<longrightarrow> \<not> queue_ready d (unat (queue_sel (regs d)))) \<and>
       (off = 0x020 \<longrightarrow> (\<forall>i. \<not> queue_ready d i))
   | ServiceNet \<Rightarrow> True)"

definition faithful :: "('b, 's, 'r) virtio_mmio \<Rightarrow> bool" where
  "faithful d \<longleftrightarrow> (\<forall>i. queue_ready d i \<longrightarrow> (let s = setups (regs d) ! i in
     i < length (queues (core d)) \<and> geom (queues (core d) ! i) =
       derived_queue (r_driver_features (regs d)) (qs_size s) (qs_desc s) (qs_driver s) (qs_device s)))"

lemma geom_derived [simp]: "geom (derived_queue f a b c d) = derived_queue f a b c d"
  by (simp add: geom_def derived_queue_def)

lemma faithful_serviced:
  assumes "faithful d" "serviced (core d) c" "queues (core d') = queues c"
    "setups (regs d') = setups (regs d)" "r_driver_features (regs d') = r_driver_features (regs d)"
  shows "faithful d'"
proof -
  have "geom (queues c ! i) = geom (queues (core d) ! i)" if "i < length (queues (core d))" for i
    using assms(2) that serviced_queues [OF assms(2)] unfolding serviced_def by (metis nth_map)
  then show ?thesis
    using assms serviced_queues [OF assms(2)] by (auto simp: faithful_def queue_ready_def Let_def)
qed

lemma faithful_with_setup:
  assumes "faithful d" "\<not> queue_ready d (unat (queue_sel (regs d)))" "\<And>s. qs_ready (f s) \<longrightarrow> qs_ready s"
  shows "faithful (with_setup d f)"
  unfolding faithful_def
proof (intro allI impI)
  fix i assume r: "queue_ready (with_setup d f) i"
  then have "i \<noteq> unat (queue_sel (regs d))" using assms(2,3) by (auto simp: setup_at queue_ready_def)
  with r assms(1) show "let s = setups (regs (with_setup d f)) ! i in i < length (queues (core (with_setup d f))) \<and>
      geom (queues (core (with_setup d f)) ! i) = derived_queue (r_driver_features (regs (with_setup d f)))
        (qs_size s) (qs_desc s) (qs_driver s) (qs_device s)"
    by (simp add: setup_at faithful_def queue_ready_def)
qed

lemma faithful_ready_write:
  assumes "faithful d" "quiet d"
  shows "faithful (let d1 = with_setup d (\<lambda>s. s\<lparr>qs_ready := ready\<rparr>) in if ready then publish_queue d1 (queue_sel (regs d)) else d1)"
proof (cases ready)
  case False
  then show ?thesis
    using assms(1) by (auto simp: faithful_def setup_at queue_ready_def Let_def)
next
  case True
  have l: "length (setups (regs d)) = length (queues (core d))" using assms(2) by (simp add: quiet_def)
  show ?thesis
    using assms(1) True l
    by (simp add: faithful_def publish_queue_def queue_ready_def setup_at Let_def nth_list_update)
qed

lemma faithful_raised:
  assumes "faithful d" "serviced (core d) c"
  shows "faithful ((raise_irq (d\<lparr>core := c\<rparr>))\<lparr>kick := k\<rparr>)" "faithful (raise_irq (d\<lparr>core := c\<rparr>))" "faithful (d\<lparr>core := c\<rparr>)"
  by (rule faithful_serviced [OF assms]; simp)+

lemma reset_unready: "\<not> queue_ready (vmmio_reset d) i"
  by (auto simp: queue_ready_def vmmio_reset_def setup_default_def)

lemma write_status_keeps:
  assumes "status \<noteq> 0"
  shows "queues (core (write_status d status)) = queues (core d)" "regs (write_status d status) = regs d"
  using assms by (simp_all add: write_status_def Let_def commit_features_def split: backend.splits)

lemma faithful_write:
  assumes "faithful d" "quiet d" "polite d (DriverWrite off data)" "vmmio_write ops d off data = Some (Done d')"
  shows "faithful d'"
proof -
  consider (notify) "off = 0x050" | (ready) "off = 0x044"
    | (prog) "off \<in> {0x038, 0x080, 0x084, 0x090, 0x094, 0x0a0, 0x0a4}"
    | (other) "off \<notin> {0x038, 0x044, 0x050, 0x080, 0x084, 0x090, 0x094, 0x0a0, 0x0a4}" by blast
  then show ?thesis
  proof cases
    case notify
    then have "vmmio_notify ops d (ucast (parse_le data)) = Some (Done d')"
      using assms(4) by (simp add: vmmio_write_def CONFIG_OFFSET_def Let_def)
    then show ?thesis
    proof (cases rule: vmmio_notify_cases)
      case 1
      with assms(1) show ?thesis by simp
    next
      case (2 c k)
      then show ?thesis using faithful_raised(1) [OF assms(1) notify_serviced [OF 2(2)]] by simp
    qed
  next
    case ready
    then show ?thesis
      using assms(4) faithful_ready_write [OF assms(1,2), of "parse_le data AND 1 \<noteq> 0"]
      by (simp add: vmmio_write_def CONFIG_OFFSET_def Let_def)
  next
    case prog
    then have n: "\<not> queue_ready d (unat (queue_sel (regs d)))" using assms(3) by (simp add: polite_def)
    show ?thesis
      using prog assms(4) faithful_with_setup [OF assms(1) n]
      by (auto simp: vmmio_write_def CONFIG_OFFSET_def Let_def)
  next
    case other
    show ?thesis
    proof (cases "off = 0x020 \<or> off = 0x070 \<and> ucast (parse_le data) = (0 :: u8)")
      case True
      have "\<not> queue_ready d' i" for i
        using True
      proof (elim disjE conjE)
        assume o: "off = 0x020"
        then have "d' = d\<lparr>regs := write_driver_features (regs d) (parse_le data)\<rparr>"
          using assms(4) by (simp add: vmmio_write_def CONFIG_OFFSET_def Let_def)
        moreover have "\<not> queue_ready d i" using o assms(3) by (simp add: polite_def)
        ultimately show ?thesis by (simp add: queue_ready_def)
      next
        assume "off = 0x070" "ucast (parse_le data) = (0 :: u8)"
        then have "d' = vmmio_reset d"
          using assms(4) by (simp add: vmmio_write_def CONFIG_OFFSET_def Let_def write_status_def)
        then show ?thesis by (simp add: reset_unready)
      qed
      then show ?thesis by (simp add: faithful_def)
    next
      case False
      with other assms(4) have "queues (core d') = queues (core d)" "setups (regs d') = setups (regs d)"
        "r_driver_features (regs d') = r_driver_features (regs d)"
        by (auto simp: vmmio_write_def Let_def write_status_keeps split: if_splits)
      then show ?thesis by (intro faithful_serviced [OF assms(1) serviced_refl]) simp_all
    qed
  qed
qed

lemma faithful_service:
  assumes "vmmio_service_net ops d = Some (Done (dl, d'))" "faithful d"
  shows "faithful d'"
  using assms(1)
proof (cases rule: vmmio_service_cases)
  case 1
  with assms(2) show ?thesis by simp
next
  case (2 c)
  then show ?thesis using faithful_raised(2,3) [OF assms(2) service_net_serviced [OF 2(1)]] by simp
qed

lemma reach_faithful:
  assumes "mmio_reach ops polite d0 d" "quiet d0" "faithful d0"
  shows "faithful d"
  using assms
proof (induction rule: mmio_reach.induct)
  case (reach_step d ev d')
  show ?case
  proof (cases ev)
    case (DriverWrite off data)
    with reach_step reach_quiet [OF reach_step.hyps(1)] show ?thesis
      by (auto simp: mmio_step_def intro: faithful_write)
  next
    case ServiceNet
    then obtain dl where "vmmio_service_net ops d = Some (Done (dl, d'))"
      using reach_step.hyps(3) by (auto simp: mmio_step_def split: option.splits outcome.splits)
    then show ?thesis using reach_step faithful_service by blast
  qed
qed

lemma restore_geom:
  assumes "geom q = q0" "used_idx_value q m = Inr (next_used q)" "next_avail q = next_used q"
  shows "restore q0 m = Inr q"
proof -
  have "restore (geom q) m = Inr q"
    using assms(2,3) by (cases q) (simp add: geom_def restore_def used_idx_value_def)
  with assms(1) show ?thesis by simp
qed

text \<open>
  C21. A resumed queue is the live queue: in any history of a driver that does not reprogram a
  ready queue, network service included, a ready queue whose requests are all completed, so
  that the used index in guest memory is the device's cursor, is rebuilt from the recorded
  transport state and guest memory exactly as it was, cursors included.
\<close>

theorem mmio_snapshot_queues:
  assumes "mmio_reach ops polite (vmmio_new name bk m ps) d" "queue_ready d i"
    "used_idx_value (queues (core d) ! i) (dc_mem (core d)) = Inr (next_used (queues (core d) ! i))"
    "next_avail (queues (core d) ! i) = next_used (queues (core d) ! i)"
  shows "queues (core (vmmio_restored bk' (dc_mem (core d)) (vmmio_state d))) ! i = queues (core d) ! i"
proof -
  let ?q = "queues (core d) ! i" and ?s = "setups (regs d) ! i"
  let ?dq = "derived_queue (r_driver_features (regs d)) (qs_size ?s) (qs_desc ?s) (qs_driver ?s) (qs_device ?s)"
  have "faithful (vmmio_new name bk m ps)"
    by (auto simp: faithful_def vmmio_new_def Let_def queue_ready_def setup_default_def)
  then have f: "faithful d" using reach_faithful [OF assms(1) new_quiet] by simp
  have g: "geom ?q = ?dq" using f assms(2) by (simp add: faithful_def Let_def)
  have "restore ?dq (dc_mem (core d)) = Inr ?q" using restore_geom [OF g assms(3,4)] .
  then show ?thesis
    using assms(2) by (simp add: vmmio_restored_def vmmio_state_def Let_def restored_queue_def queue_ready_def)
qed

lemma idle_polite: "idle m d \<Longrightarrow> polite d (DriverWrite off data)"
  by (simp add: idle_def polite_def)

lemma reach_write:
  "mmio_reach ops P d0 d \<Longrightarrow> P d (DriverWrite off data) \<Longrightarrow> vmmio_write ops d off data = Some (Done d') \<Longrightarrow>
   mmio_reach ops P d0 d'"
  by (erule mmio_reach.reach_step [where ev = "DriverWrite off data"]) (simp_all add: mmio_step_def)

lemma idle_reach:
  assumes "mmio_reach ops polite d0 d" "idle m d" "\<forall>(off, data) \<in> set ws. \<not> (off = 0x044 \<and> parse_le data AND 1 \<noteq> 0)"
    "vmmio_writes ops d (ws @ [(off, data)]) = Some (Done d')"
  shows "mmio_reach ops polite d0 d'"
  using assms
proof (induction ws arbitrary: d)
  case Nil
  have "vmmio_write ops d off data = Some (Done d')"
    using Nil.prems(4) by (simp split: option.splits outcome.splits)
  with Nil.prems(1) idle_polite [OF Nil.prems(2)] show ?case by (rule reach_write)
next
  case (Cons w ws)
  obtain o1 x1 where w: "w = (o1, x1)" by (cases w)
  obtain d1 where d1: "vmmio_write ops d o1 x1 = Some (Done d1)" "idle m d1"
    using idle_step [of m d o1 x1 ops] Cons.prems(2,3) w by auto
  have "mmio_reach ops polite d0 d1"
    using Cons.prems(1) idle_polite [OF Cons.prems(2)] d1(1) by (rule reach_write)
  moreover have "vmmio_writes ops d1 (ws @ [(off, data)]) = Some (Done d')" using Cons.prems(4) w d1(1) by simp
  ultimately show ?case using Cons.IH [of d1] d1(2) Cons.prems(3) by simp
qed

theorem mmio_snapshot_queues_witness:
  "\<exists>d. queues (core d) = [demo_queue1] \<and>
     queues (core (vmmio_restored (Rng []) (dc_mem (core d)) (vmmio_state d))) ! 0 = queues (core (d ::
       (overlay_backend, bytes, echo_responder) virtio_mmio)) ! 0"
proof -
  let ?w = "queue_program (RING_EVENT_IDX OR RING_INDIRECT_DESC) 0 2 0x1000 0x1020 0x1030"
  obtain d where d: "vmmio_writes demo_ops demo_vmmio ?w = Some (Done d)"
    "queues (core d) = [demo_queue]" "queue_ready d 0" "dc_mem (core d) = demo_mem" "dc_backend (core d) = Rng [1, 2, 3, 4]"
    using demo_programmed by blast
  obtain d' where d': "vmmio_write demo_ops d 0x050 [0, 0, 0, 0] = Some (Done d')" "queues (core d') = [demo_queue1]"
    "read_u16 (dc_mem (core d')) 0x1032 = Inr 1" "setups (regs d') = setups (regs d)"
    using demo_kick [OF d(2-5)] by blast
  have "idle demo_mem demo_vmmio"
    by (auto simp: demo_vmmio_def idle_def vmmio_new_def Let_def queue_ready_def setup_default_def)
  moreover have "?w = butlast ?w @ [(0x044, le_bytes (1 :: u32))]" by (simp add: queue_program_def)
  moreover have "\<forall>(off, data) \<in> set (butlast ?w). \<not> (off = 0x044 \<and> parse_le data AND 1 \<noteq> 0)"
    by (simp add: queue_program_def)
  ultimately have "mmio_reach demo_ops polite demo_vmmio d"
    using idle_reach [OF mmio_reach.reach_start, of demo_mem demo_vmmio "butlast ?w" demo_ops "0x044" "le_bytes (1 :: u32)" d] d(1)
    by metis
  then have "mmio_reach demo_ops polite demo_vmmio d'"
    using reach_write [of demo_ops polite demo_vmmio d "0x050" "[0, 0, 0, 0]" d'] d'(1) by (simp add: polite_def)
  moreover have "queue_ready d' 0" using d(3) d'(4) by (simp add: queue_ready_def)
  moreover have "used_idx_value demo_queue1 (dc_mem (core d')) = Inr 1"
    using d'(3) by (simp add: used_idx_value_def demo_queue_def)
  ultimately show ?thesis
    using mmio_snapshot_queues [of demo_ops "[]" "Rng [1, 2, 3, 4]" demo_mem demo_params d' 0 "Rng []"] d'(2)
    by (auto simp: demo_vmmio_def)
qed

text \<open>
  Taking a queue out of service does not stop the network service: after the driver writes
  zero to the ready register of a queue, the register reads not ready, but the queue stays
  published and the next network service has exactly the effect on guest memory, rings and
  interrupts that it would have had before.
\<close>

theorem mmio_unready_still_serviced:
  "\<exists>d'. vmmio_write ops d 0x044 (le_bytes (0 :: u32)) = Some (Done d') \<and>
     \<not> queue_ready d' (unat (queue_sel (regs d))) \<and> core d' = core d \<and>
     (case vmmio_service_net ops d of
        None \<Rightarrow> vmmio_service_net ops d' = None
      | Some Panicked \<Rightarrow> vmmio_service_net ops d' = Some Panicked
      | Some (Done (dl, e)) \<Rightarrow> \<exists>e'. vmmio_service_net ops d' = Some (Done (dl, e')) \<and> core e' = core e)"
proof -
  let ?d = "with_setup d (\<lambda>s. s\<lparr>qs_ready := False\<rparr>)"
  have "vmmio_write ops d 0x044 (le_bytes (0 :: u32)) = Some (Done ?d)"
    by (simp add: vmmio_write_def CONFIG_OFFSET_def Let_def parse_le_u32)
  moreover have "\<not> queue_ready ?d (unat (queue_sel (regs d)))"
    by (auto simp: queue_ready_def with_setup_def Let_def)
  ultimately show ?thesis
    by (auto simp: vmmio_service_net_def raise_irq_def split: option.splits outcome.splits prod.splits)
qed

end
