(* ===== verification/Pci.thy ===== *)
theory Pci
  imports Mmio
begin

text \<open>
  The \<^verbatim>\<open>virtio-pci\<close> transport of a resumed guest (\<^verbatim>\<open>src/hypervisor/src/hvf/virtio/pci.rs\<close>): the
  capability windows of the memory BAR over the shared device core, with queues, features and
  vectors restored from the snapshot.
\<close>

subsection \<open>State and construction\<close>

definition COMMON_CONFIG_OFFSET :: u64 where "COMMON_CONFIG_OFFSET = 0x0000"
definition COMMON_CONFIG_SIZE :: u64 where "COMMON_CONFIG_SIZE = 56"
definition ISR_OFFSET :: u64 where "ISR_OFFSET = 0x2000"
definition DEVICE_CONFIG_OFFSET :: u64 where "DEVICE_CONFIG_OFFSET = 0x4000"
definition DEVICE_CONFIG_SIZE :: u64 where "DEVICE_CONFIG_SIZE = 0x1000"
definition NOTIFICATION_OFFSET :: u64 where "NOTIFICATION_OFFSET = 0x6000"
definition NOTIFICATION_SIZE :: u64 where "NOTIFICATION_SIZE = 0x400 * 4"

lemmas pci_consts = COMMON_CONFIG_OFFSET_def COMMON_CONFIG_SIZE_def ISR_OFFSET_def DEVICE_CONFIG_OFFSET_def
  DEVICE_CONFIG_SIZE_def NOTIFICATION_OFFSET_def NOTIFICATION_SIZE_def

record ('b, 's, 'r) virtio_pci =
  vp_name :: string
  inner :: "('b, 's, 'r) device_core"
  vp_kick :: "bool option"

record restore_params =
  rp_features :: u64
  rp_queues :: "queue list"
  rp_queue_vectors :: "u16 list"
  rp_device_status :: u8
  rp_device_config :: bytes

definition resize :: "nat \<Rightarrow> bytes \<Rightarrow> bytes" where
  "resize n bs = take n bs @ replicate (n - length bs) 0"

definition pci_new ::
  "string \<Rightarrow> ('b, 's, 'r) backend \<Rightarrow> guest_memory \<Rightarrow> restore_params \<Rightarrow> ('b, 's, 'r) virtio_pci" where
  "pci_new name bk m params =
     \<lparr>vp_name = name,
      inner = \<lparr>common = \<lparr>device_feature_select = 0, driver_feature_select = 0, device_features = rp_features params,
                 driver_features = rp_features params, msix_config = 0,
                 num_queues = of_nat (length (rp_queues params)), device_status = rp_device_status params,
                 config_generation = 0, queue_select = 0\<rparr>,
               queues = rp_queues params, queue_vectors = rp_queue_vectors params, dc_backend = bk,
               device_config = resize (unat DEVICE_CONFIG_SIZE) (rp_device_config params), isr_status = 0,
               dc_mem = m, signals = [], transport_signals = False\<rparr>,
      vp_kick = None\<rparr>"

definition pci_set_net_kick :: "('b, 's, 'r) virtio_pci \<Rightarrow> bool \<Rightarrow> ('b, 's, 'r) virtio_pci" where
  "pci_set_net_kick d pending = d\<lparr>vp_kick := Some pending\<rparr>"

definition pci_num_queues :: "('b, 's, 'r) virtio_pci \<Rightarrow> nat" where
  "pci_num_queues d = length (queues (inner d))"

subsection \<open>Draining and servicing\<close>

fun core_notify_all ::
  "('b, 's, 'r) host_ops \<Rightarrow> ('b, 's, 'r) device_core \<Rightarrow> u16 list \<Rightarrow> ('b, 's, 'r) device_core outcome option" where
  "core_notify_all ops c [] = Some (Done c)"
| "core_notify_all ops c (qi # qis) =
     (case notify ops c qi of
        None \<Rightarrow> None
      | Some Panicked \<Rightarrow> Some Panicked
      | Some (Done c') \<Rightarrow> core_notify_all ops c' qis)"

definition pci_drain_on_resume ::
  "('b, 's, 'r) host_ops \<Rightarrow> ('b, 's, 'r) virtio_pci \<Rightarrow> ('b, 's, 'r) virtio_pci outcome option" where
  "pci_drain_on_resume ops d =
     (case core_notify_all ops (inner d) (map of_nat [0..<unat (of_nat (length (queues (inner d))) :: u16)]) of
        None \<Rightarrow> None
      | Some Panicked \<Rightarrow> Some Panicked
      | Some (Done c) \<Rightarrow> Some (Done (d\<lparr>inner := c\<rparr>)))"

definition pci_service_net ::
  "('b, 's, 'r) host_ops \<Rightarrow> ('b, 's, 'r) virtio_pci \<Rightarrow> (bool \<times> ('b, 's, 'r) virtio_pci) outcome option" where
  "pci_service_net ops d =
     (case service_net ops (inner d) of
        None \<Rightarrow> None
      | Some Panicked \<Rightarrow> Some Panicked
      | Some (Done (delivered, c)) \<Rightarrow> Some (Done (delivered, d\<lparr>inner := c\<rparr>)))"

subsection \<open>The common configuration window\<close>

definition queue_field :: "('b, 's, 'r) device_core \<Rightarrow> (queue \<Rightarrow> u64) \<Rightarrow> u64" where
  "queue_field c f =
     (let i = unat (queue_select (common c)) in if i < length (queues c) then f (queues c ! i) else 0)"

definition common_value :: "('b, 's, 'r) device_core \<Rightarrow> u64 \<Rightarrow> u64" where
  "common_value c offset =
     (let k = common c
      in if offset = 0x00 then ucast (device_feature_select k)
         else if offset = 0x04 then shr64 (device_features k) (device_feature_select k * 32) AND 0xffffffff
         else if offset = 0x08 then ucast (driver_feature_select k)
         else if offset = 0x0c then shr64 (driver_features k) (driver_feature_select k * 32) AND 0xffffffff
         else if offset = 0x10 then ucast (msix_config k)
         else if offset = 0x12 then ucast (num_queues k)
         else if offset = 0x14 then ucast (device_status k)
         else if offset = 0x15 then ucast (config_generation k)
         else if offset = 0x16 then ucast (queue_select k)
         else if offset = 0x18 then queue_field c (\<lambda>q. ucast (q_size q))
         else if offset = 0x1a then ucast (vector_of c (unat (queue_select k)))
         else if offset = 0x1c then queue_field c (\<lambda>q. 1)
         else if offset = 0x1e then ucast (queue_select k)
         else if offset = 0x20 then queue_field c q_desc
         else if offset = 0x28 then queue_field c q_avail
         else if offset = 0x30 then queue_field c q_used
         else 0)"

definition read_common :: "('b, 's, 'r) device_core \<Rightarrow> u64 \<Rightarrow> nat \<Rightarrow> bytes" where
  "read_common c offset n = fill_le n (common_value c offset)"

definition write_common :: "('b, 's, 'r) device_core \<Rightarrow> u64 \<Rightarrow> bytes \<Rightarrow> ('b, 's, 'r) device_core" where
  "write_common c offset data =
     (let v = parse_le data; k = common c
      in if offset = 0x00 then c\<lparr>common := k\<lparr>device_feature_select := ucast v\<rparr>\<rparr>
         else if offset = 0x08 then c\<lparr>common := k\<lparr>driver_feature_select := ucast v\<rparr>\<rparr>
         else if offset = 0x10 then c\<lparr>common := k\<lparr>msix_config := ucast v\<rparr>\<rparr>
         else if offset = 0x14 then c\<lparr>common := k\<lparr>device_status := ucast v\<rparr>\<rparr>
         else if offset = 0x16 then c\<lparr>common := k\<lparr>queue_select := ucast v\<rparr>\<rparr>
         else c)"

subsection \<open>BAR accesses\<close>

definition pci_read :: "('b, 's, 'r) virtio_pci \<Rightarrow> u64 \<Rightarrow> nat \<Rightarrow> bytes \<times> ('b, 's, 'r) virtio_pci" where
  "pci_read d offset n =
     (let c = inner d
      in if offset < COMMON_CONFIG_OFFSET + COMMON_CONFIG_SIZE
         then (read_common c (offset - COMMON_CONFIG_OFFSET) n, d)
         else if ISR_OFFSET \<le> offset \<and> offset < ISR_OFFSET + 0x100
         then ((replicate n 0)[0 := isr_status c], d\<lparr>inner := c\<lparr>isr_status := 0\<rparr>\<rparr>)
         else if DEVICE_CONFIG_OFFSET \<le> offset \<and> offset < DEVICE_CONFIG_OFFSET + DEVICE_CONFIG_SIZE
         then (map (\<lambda>i. let j = unat (offset - DEVICE_CONFIG_OFFSET) + i
                        in if j < length (device_config c) then device_config c ! j else 0) [0..<n], d)
         else (replicate n 0, d))"

definition pci_write ::
  "('b, 's, 'r) host_ops \<Rightarrow> ('b, 's, 'r) virtio_pci \<Rightarrow> u64 \<Rightarrow> bytes \<Rightarrow> ('b, 's, 'r) virtio_pci outcome option" where
  "pci_write ops d offset data =
     (if offset < COMMON_CONFIG_OFFSET + COMMON_CONFIG_SIZE
      then Some (Done (d\<lparr>inner := write_common (inner d) (offset - COMMON_CONFIG_OFFSET) data\<rparr>))
      else if NOTIFICATION_OFFSET \<le> offset \<and> offset < NOTIFICATION_OFFSET + NOTIFICATION_SIZE
      then (case notify ops (inner d) (ucast (parse_le data)) of
              None \<Rightarrow> None
            | Some Panicked \<Rightarrow> Some Panicked
            | Some (Done c) \<Rightarrow>
                Some (Done (d\<lparr>inner := c, vp_kick := if is_net (dc_backend c) then kick_wake (vp_kick d) else vp_kick d\<rparr>)))
      else Some (Done d))"

definition pci_ops :: "('b, 's, 'r) host_ops \<Rightarrow> ('b, 's, 'r) virtio_pci mmio_ops" where
  "pci_ops ops = \<lparr>dev_read = pci_read, dev_write = pci_write ops\<rparr>"

interpretation pcid: mmio_device "pci_ops ops" for ops
  by unfold_locales (simp add: pci_ops_def pci_read_def Let_def read_common_def fill_le_def)

subsection \<open>The restored rings are fixed\<close>

datatype pci_event = BarRead u64 nat | BarWrite u64 bytes | PciService

definition pci_step ::
  "('b, 's, 'r) host_ops \<Rightarrow> ('b, 's, 'r) virtio_pci \<Rightarrow> pci_event \<Rightarrow> ('b, 's, 'r) virtio_pci outcome option" where
  "pci_step ops d ev =
     (case ev of
        BarRead off n \<Rightarrow> Some (Done (snd (pci_read d off n)))
      | BarWrite off data \<Rightarrow> pci_write ops d off data
      | PciService \<Rightarrow>
          (case pci_service_net ops d of
             None \<Rightarrow> None
           | Some Panicked \<Rightarrow> Some Panicked
           | Some (Done (delivered, d')) \<Rightarrow> Some (Done d')))"

inductive pci_reach :: "('b, 's, 'r) host_ops \<Rightarrow> ('b, 's, 'r) virtio_pci \<Rightarrow> ('b, 's, 'r) virtio_pci \<Rightarrow> bool"
  for ops d0
where
  pci_start: "pci_reach ops d0 d0"
| pci_next: "pci_reach ops d0 d \<Longrightarrow> pci_step ops d ev = Some (Done d') \<Longrightarrow> pci_reach ops d0 d'"

definition fixed_part :: "('b, 's, 'r) device_core \<Rightarrow> queue list \<times> u64 \<times> u64 \<times> u16 \<times> bytes" where
  "fixed_part c = (map geom (queues c), device_features (common c), driver_features (common c),
     num_queues (common c), device_config c)"

lemma serviced_fixed: "serviced c c' \<Longrightarrow> fixed_part c' = fixed_part c"
  by (simp add: serviced_def fixed_part_def)

lemma write_common_fixed: "fixed_part (write_common c off data) = fixed_part c"
  by (simp add: write_common_def fixed_part_def Let_def)

lemma pci_step_fixed:
  assumes "pci_step ops d ev = Some (Done d')"
  shows "fixed_part (inner d') = fixed_part (inner d)"
proof (cases ev)
  case (BarRead off n)
  with assms show ?thesis by (auto simp: pci_step_def pci_read_def Let_def fixed_part_def split: if_splits)
next
  case (BarWrite off data)
  with assms have w: "pci_write ops d off data = Some (Done d')" by (simp add: pci_step_def)
  show ?thesis
  proof (cases "\<exists>c. notify ops (inner d) (ucast (parse_le data)) = Some (Done c)")
    case True
    then obtain c where c: "notify ops (inner d) (ucast (parse_le data)) = Some (Done c)" by blast
    with w serviced_fixed [OF notify_serviced [OF c]] show ?thesis
      by (auto simp: pci_write_def write_common_fixed split: if_splits)
  next
    case False
    with w show ?thesis
      by (auto simp: pci_write_def write_common_fixed split: if_splits option.splits outcome.splits)
  qed
next
  case PciService
  with assms obtain dl c where "service_net ops (inner d) = Some (Done (dl, c))" "d' = d\<lparr>inner := c\<rparr>"
    by (auto simp: pci_step_def pci_service_net_def split: option.splits outcome.splits prod.splits)
  with serviced_fixed [OF service_net_serviced] show ?thesis by fastforce
qed

text \<open>
  C22. The rings restored from a snapshot cannot be redirected: in any history of BAR reads, BAR
  writes, notifications and network service, the size, addresses and ring features of every
  queue, the feature words, the number of queues and the device configuration stay those of the
  snapshot; only the cursors move.
\<close>

theorem pci_rings_fixed:
  assumes "pci_reach ops (pci_new name bk m params) d"
  shows "map geom (queues (inner d)) = map geom (rp_queues params) \<and>
    device_features (common (inner d)) = rp_features params \<and>
    driver_features (common (inner d)) = rp_features params \<and>
    device_config (inner d) = resize 0x1000 (rp_device_config params)"
proof -
  have "fixed_part (inner d) = fixed_part (inner (pci_new name bk m params))"
    using assms by (induction rule: pci_reach.induct) (auto dest: pci_step_fixed)
  then show ?thesis by (simp add: fixed_part_def pci_new_def pci_consts)
qed

definition demo_rp :: restore_params where
  "demo_rp = \<lparr>rp_features = 0x130000000, rp_queues = [demo_queue], rp_queue_vectors = [1], rp_device_status = 15,
     rp_device_config = []\<rparr>"

theorem pci_rings_fixed_witness:
  "\<exists>d. pci_step demo_ops (pci_new [] (Rng [1, 2, 3, 4]) demo_mem demo_rp) (BarWrite 0x6000 [0, 0]) = Some (Done d) \<and>
     queues (inner d) = [demo_queue1] \<and> map geom (queues (inner d)) = [geom demo_queue]"
proof -
  let ?d = "pci_new [] (Rng [1, 2, 3, 4]) demo_mem demo_rp"
  have c: "queues (inner ?d) = [demo_queue]" "dc_backend (inner ?d) = Rng [1, 2, 3, 4]" "dc_mem (inner ?d) = demo_mem"
    by (simp_all add: pci_new_def demo_rp_def)
  obtain c' where c': "notify demo_ops (inner ?d) 0 = Some (Done c')" "queues c' = [demo_queue1]"
    using demo_notify [OF c] by blast
  have "parse_le [0, 0] = 0" by (simp add: parse_le_def overwrite_def eval_nat_numeral)
  then obtain d where d: "pci_step demo_ops ?d (BarWrite 0x6000 [0, 0]) = Some (Done d)" "queues (inner d) = [demo_queue1]"
    using c' by (simp add: pci_step_def pci_write_def pci_consts)
  have "pci_reach demo_ops ?d d" using pci_reach.pci_next [OF pci_reach.pci_start d(1)] .
  from pci_rings_fixed [OF this] d show ?thesis by (auto simp: demo_rp_def)
qed

end
