(* ===== verification/Softgic.thy ===== *)
theory Softgic
  imports Prelude
begin

text \<open>
  The userspace GICv3 register model (\<^verbatim>\<open>src/hypervisor/src/hvf/softgic.rs\<close>): the distributor with
  its per-interrupt vectors and the per-vCPU redistributor, their 32-bit register reads and
  writes, the assertion of interrupts, and seeding from a captured register dump. The loops over
  the bits of a register word are folds; an index past the end of a vector changes nothing,
  which is what \<^verbatim>\<open>get_mut\<close> with no element does.
\<close>

subsection \<open>Distributor\<close>

definition SPI_BASE :: u32 where "SPI_BASE = 32"
definition INTID_LIMIT :: u32 where "INTID_LIMIT = 1020"
definition GIC_PIDR2_ARCH_GICV3 :: u32 where "GIC_PIDR2_ARCH_GICV3 = 0x30"

record distributor =
  d_ctlr :: u32
  num_irqs :: u32
  enabled :: "bool list"
  group1 :: "bool list"
  priority :: "u8 list"
  pending :: "bool list"
  edge :: "bool list"
  router :: "u64 list"

datatype bit_field = Enable | Group | Pending

definition next_multiple_of :: "u32 \<Rightarrow> u32 \<Rightarrow> u32" where
  "next_multiple_of n k = (if n mod k = 0 then n else n + (k - n mod k))"

definition clamp :: "u32 \<Rightarrow> u32 \<Rightarrow> u32 \<Rightarrow> u32" where
  "clamp n lo hi = (if n < lo then lo else if hi < n then hi else n)"

definition gicd_new :: "u32 \<Rightarrow> distributor" where
  "gicd_new num =
     (let n = unat (clamp (next_multiple_of num 32) 32 INTID_LIMIT)
      in \<lparr>d_ctlr = 0, num_irqs = of_nat n, enabled = replicate n False, group1 = replicate n True,
          priority = replicate n 0xA0, pending = replicate n False, edge = replicate n False,
          router = replicate n 0\<rparr>)"

definition gicd_default :: distributor where
  "gicd_default = gicd_new 256"

definition is_enabled :: "distributor \<Rightarrow> u32 \<Rightarrow> bool" where
  "is_enabled d intid \<longleftrightarrow> unat intid < length (enabled d) \<and> enabled d ! unat intid"

definition spi_target_affinity :: "distributor \<Rightarrow> u32 \<Rightarrow> u64 option" where
  "spi_target_affinity d intid =
     (if length (router d) \<le> unat intid then None
      else let r = router d ! unat intid
           in if r AND push_bit 31 1 \<noteq> 0 then None else Some (r AND 0xff00ffffff))"

definition router_of :: "distributor \<Rightarrow> u32 \<Rightarrow> u64" where
  "router_of d intid = (if unat intid < length (router d) then router d ! unat intid else 0)"

definition read_bitmap :: "bool list \<Rightarrow> u64 \<Rightarrow> u32" where
  "read_bitmap bits reg_off =
     (let base = unat (reg_off div 4 * 32)
      in fold (\<lambda>b v. if base + b < length bits \<and> bits ! (base + b) then v OR push_bit b 1 else v) [0..<32] 0)"

definition read_priority :: "distributor \<Rightarrow> u64 \<Rightarrow> u32" where
  "read_priority d reg_off =
     (let base = unat reg_off
      in fold (\<lambda>b v. if base + b < length (priority d) then v OR push_bit (b * 8) (ucast (priority d ! (base + b))) else v)
           [0..<4] 0)"

definition read_cfgr :: "distributor \<Rightarrow> u64 \<Rightarrow> u32" where
  "read_cfgr d reg_off =
     (let base = unat (reg_off div 4 * 16)
      in fold (\<lambda>i v. if base + i < length (edge d) \<and> edge d ! (base + i) then v OR push_bit (i * 2 + 1) 1 else v)
           [0..<16] 0)"

definition gicd_read :: "distributor \<Rightarrow> u64 \<Rightarrow> u32" where
  "gicd_read d offset =
     (if offset = 0x0000 then d_ctlr d OR push_bit 4 1 OR push_bit 5 1
      else if offset = 0x0004 then num_irqs d div 32 - 1
      else if offset = 0x0008 then 0x43B0
      else if offset = 0xFFE8 then GIC_PIDR2_ARCH_GICV3
      else if 0x0080 \<le> offset \<and> offset < 0x0100 then read_bitmap (group1 d) (offset - 0x0080)
      else if 0x0100 \<le> offset \<and> offset < 0x0180 then read_bitmap (enabled d) (offset - 0x0100)
      else if 0x0180 \<le> offset \<and> offset < 0x0200 then read_bitmap (enabled d) (offset - 0x0180)
      else if 0x0200 \<le> offset \<and> offset < 0x0280 then read_bitmap (pending d) (offset - 0x0200)
      else if 0x0280 \<le> offset \<and> offset < 0x0300 then read_bitmap (pending d) (offset - 0x0280)
      else if 0x0400 \<le> offset \<and> offset < 0x0800 then read_priority d (offset - 0x0400)
      else if 0x0C00 \<le> offset \<and> offset < 0x0D00 then read_cfgr d (offset - 0x0C00)
      else if 0x6000 \<le> offset \<and> offset < 0x8000
      then (let route = router_of d (ucast ((offset - 0x6000) div 8))
            in if 4 \<le> (offset - 0x6000) mod 8 then ucast (drop_bit 32 route) else ucast route)
      else 0)"

definition set_bits :: "bool list \<Rightarrow> u64 \<Rightarrow> u32 \<Rightarrow> bool \<Rightarrow> bool list" where
  "set_bits bits reg_off value st =
     (let base = unat (reg_off div 4 * 32)
      in fold (\<lambda>b bs. if bit value b then bs[base + b := st] else bs) [0..<32] bits)"

definition on_field :: "distributor \<Rightarrow> bit_field \<Rightarrow> (bool list \<Rightarrow> bool list) \<Rightarrow> distributor" where
  "on_field d field f =
     (case field of
        Enable \<Rightarrow> d\<lparr>enabled := f (enabled d)\<rparr>
      | Group \<Rightarrow> d\<lparr>group1 := f (group1 d)\<rparr>
      | Pending \<Rightarrow> d\<lparr>pending := f (pending d)\<rparr>)"

definition write_bitmap_set :: "distributor \<Rightarrow> bit_field \<Rightarrow> u64 \<Rightarrow> u32 \<Rightarrow> bool \<Rightarrow> distributor" where
  "write_bitmap_set d field reg_off value st = on_field d field (\<lambda>bits. set_bits bits reg_off value st)"

definition write_priority :: "distributor \<Rightarrow> u64 \<Rightarrow> u32 \<Rightarrow> distributor" where
  "write_priority d reg_off value =
     (let base = unat reg_off
      in d\<lparr>priority := fold (\<lambda>b ps. ps[base + b := ucast (drop_bit (b * 8) value)]) [0..<4] (priority d)\<rparr>)"

definition write_cfgr :: "distributor \<Rightarrow> u64 \<Rightarrow> u32 \<Rightarrow> distributor" where
  "write_cfgr d reg_off value =
     (let base = unat (reg_off div 4 * 16)
      in d\<lparr>edge := fold (\<lambda>i es. es[base + i := bit value (i * 2 + 1)]) [0..<16] (edge d)\<rparr>)"

definition write_router :: "distributor \<Rightarrow> u64 \<Rightarrow> u32 \<Rightarrow> distributor" where
  "write_router d off value =
     (let intid = unat (off div 8)
      in if intid < length (router d)
         then (let cur = router d ! intid
               in d\<lparr>router := (router d)[intid :=
                    if 4 \<le> off mod 8 then (cur AND 0xffffffff) OR push_bit 32 (ucast value)
                    else (cur AND 0xffffffff00000000) OR ucast value]\<rparr>)
         else d)"

definition gicd_write :: "distributor \<Rightarrow> u64 \<Rightarrow> u32 \<Rightarrow> distributor" where
  "gicd_write d offset value =
     (if offset = 0x0000 then d\<lparr>d_ctlr := value\<rparr>
      else if 0x0080 \<le> offset \<and> offset < 0x0100 then write_bitmap_set d Group (offset - 0x0080) value True
      else if 0x0100 \<le> offset \<and> offset < 0x0180 then write_bitmap_set d Enable (offset - 0x0100) value True
      else if 0x0180 \<le> offset \<and> offset < 0x0200 then write_bitmap_set d Enable (offset - 0x0180) value False
      else if 0x0200 \<le> offset \<and> offset < 0x0280 then write_bitmap_set d Pending (offset - 0x0200) value True
      else if 0x0280 \<le> offset \<and> offset < 0x0300 then write_bitmap_set d Pending (offset - 0x0280) value False
      else if 0x0400 \<le> offset \<and> offset < 0x0800 then write_priority d (offset - 0x0400) value
      else if 0x0C00 \<le> offset \<and> offset < 0x0D00 then write_cfgr d (offset - 0x0C00) value
      else if 0x6000 \<le> offset \<and> offset < 0x8000 then write_router d (offset - 0x6000) value
      else d)"

definition assert_spi :: "distributor \<Rightarrow> u32 \<Rightarrow> (bool \<times> distributor) outcome" where
  "assert_spi d intid =
     (let i = unat intid
      in if length (pending d) \<le> i then Done (False, d)
         else if length (enabled d) \<le> i then Panicked
         else Done (enabled d ! i, d\<lparr>pending := (pending d)[i := True]\<rparr>))"

definition clear_pending :: "distributor \<Rightarrow> u32 \<Rightarrow> distributor" where
  "clear_pending d intid = d\<lparr>pending := (pending d)[unat intid := False]\<rparr>"

definition seed_bitmap :: "distributor \<Rightarrow> bit_field \<Rightarrow> u64 \<Rightarrow> u32 \<Rightarrow> distributor" where
  "seed_bitmap d field reg_off value =
     (let base = unat (reg_off div 4 * 32)
      in on_field d field (\<lambda>bits. fold (\<lambda>b bs. bs[base + b := bit value b]) [0..<32] bits))"

definition gicd_seed :: "distributor \<Rightarrow> u32 \<times> u64 \<Rightarrow> distributor" where
  "gicd_seed d reg =
     (let off = ucast (fst reg); v = ucast (snd reg)
      in if off = (0x0000 :: u64) then d\<lparr>d_ctlr := v\<rparr>
         else if 0x0080 \<le> off \<and> off < 0x0100 then seed_bitmap d Group (off - 0x0080) v
         else if 0x0100 \<le> off \<and> off < 0x0180 then seed_bitmap d Enable (off - 0x0100) v
         else if 0x0400 \<le> off \<and> off < 0x0800 then write_priority d (off - 0x0400) v
         else if 0x0C00 \<le> off \<and> off < 0x0D00 then write_cfgr d (off - 0x0C00) v
         else if 0x6000 \<le> off \<and> off < 0x8000
         then d\<lparr>router := (router d)[unat ((off - 0x6000) div 8) := snd reg]\<rparr>
         else d)"

definition gicd_seed_from_kvm :: "distributor \<Rightarrow> (u32 \<times> u64) list \<Rightarrow> distributor" where
  "gicd_seed_from_kvm d regs = foldl gicd_seed d regs"

subsection \<open>Redistributor\<close>

definition GICR_SGI_OFFSET :: u64 where "GICR_SGI_OFFSET = 0x10000"

record redistributor =
  r_ctlr :: u32
  waker :: u32
  propbaser :: u64
  pendbaser :: u64
  ppi_enabled :: "bool list"
  ppi_cfg :: "u32 \<times> u32"
  cpu_id :: u32
  last_rd :: bool

definition gicr_for_cpu :: "u32 \<Rightarrow> bool \<Rightarrow> redistributor" where
  "gicr_for_cpu cpu lst = \<lparr>r_ctlr = 0, waker = 0, propbaser = 0, pendbaser = 0, ppi_enabled = replicate 32 False,
     ppi_cfg = (0xaaaaaaaa, 0), cpu_id = cpu, last_rd = lst\<rparr>"

definition gicr_new :: redistributor where
  "gicr_new = gicr_for_cpu 0 True"

definition set_identity :: "redistributor \<Rightarrow> u32 \<Rightarrow> bool \<Rightarrow> redistributor" where
  "set_identity r cpu lst = r\<lparr>cpu_id := cpu, last_rd := lst\<rparr>"

definition lpis_enabled :: "redistributor \<Rightarrow> bool" where
  "lpis_enabled r \<longleftrightarrow> r_ctlr r AND 1 \<noteq> 0"

definition prop_table :: "redistributor \<Rightarrow> u64 option" where
  "prop_table r = (let base = propbaser r AND 0x0000fffffffff000 in if base \<noteq> 0 then Some base else None)"

definition is_ppi_enabled :: "redistributor \<Rightarrow> u32 \<Rightarrow> bool" where
  "is_ppi_enabled r intid \<longleftrightarrow> unat intid < 32 \<and> ppi_enabled r ! unat intid"

definition gicr_read :: "redistributor \<Rightarrow> u64 \<Rightarrow> u32" where
  "gicr_read r offset =
     (if offset = 0x0000 then r_ctlr r
      else if offset = 0x0004 then 0x43B0
      else if offset = 0x0008
      then push_bit 0 1 OR (if last_rd r then push_bit 4 1 else 0) OR push_bit 8 (cpu_id r AND 0xffff)
      else if offset = 0x000C then cpu_id r
      else if offset = GICR_SGI_OFFSET + 0x0C00 then fst (ppi_cfg r)
      else if offset = GICR_SGI_OFFSET + 0x0C04 then snd (ppi_cfg r)
      else if offset = 0x0014 then waker r
      else if offset = 0x0070 then ucast (propbaser r)
      else if offset = 0x0074 then ucast (drop_bit 32 (propbaser r))
      else if offset = 0x0078 then ucast (pendbaser r)
      else if offset = 0x007C then ucast (drop_bit 32 (pendbaser r))
      else if offset = GICR_SGI_OFFSET + 0x0100 \<or> offset = GICR_SGI_OFFSET + 0x0180
      then fold (\<lambda>b v. if ppi_enabled r ! b then v OR push_bit b 1 else v) [0..<length (ppi_enabled r)] 0
      else if offset = 0xFFE8 then GIC_PIDR2_ARCH_GICV3
      else 0)"

definition set_ppi_bits :: "redistributor \<Rightarrow> u32 \<Rightarrow> bool \<Rightarrow> redistributor" where
  "set_ppi_bits r value st =
     r\<lparr>ppi_enabled := fold (\<lambda>b bs. if bit value b then bs[b := st] else bs) [0..<32] (ppi_enabled r)\<rparr>"

definition put_low :: "u64 \<Rightarrow> u32 \<Rightarrow> u64" where
  "put_low w value = (w AND NOT 0xffffffff) OR ucast value"

definition put_high :: "u64 \<Rightarrow> u32 \<Rightarrow> u64" where
  "put_high w value = (w AND 0xffffffff) OR push_bit 32 (ucast value)"

definition gicr_write :: "redistributor \<Rightarrow> u64 \<Rightarrow> u32 \<Rightarrow> redistributor" where
  "gicr_write r offset value =
     (if offset = 0x0000 then r\<lparr>r_ctlr := value\<rparr>
      else if offset = 0x0014 then r\<lparr>waker := if value AND 2 = 0 then 0 else value\<rparr>
      else if offset = GICR_SGI_OFFSET + 0x0C04 then r\<lparr>ppi_cfg := (fst (ppi_cfg r), value)\<rparr>
      else if offset = 0x0070 then r\<lparr>propbaser := put_low (propbaser r) value\<rparr>
      else if offset = 0x0074 then r\<lparr>propbaser := put_high (propbaser r) value\<rparr>
      else if offset = 0x0078 then r\<lparr>pendbaser := put_low (pendbaser r) value\<rparr>
      else if offset = 0x007C then r\<lparr>pendbaser := put_high (pendbaser r) value\<rparr>
      else if offset = GICR_SGI_OFFSET + 0x0100 then set_ppi_bits r value True
      else if offset = GICR_SGI_OFFSET + 0x0180 then set_ppi_bits r value False
      else r)"

definition gicr_seed :: "redistributor \<Rightarrow> u32 \<times> u64 \<Rightarrow> redistributor" where
  "gicr_seed r reg =
     (let off = ucast (fst reg) :: u64;
          r1 = gicr_write r off (ucast (snd reg))
      in if off = 0x0070 \<or> off = 0x0078 then gicr_write r1 (off + 4) (ucast (drop_bit 32 (snd reg))) else r1)"

definition gicr_seed_from_kvm :: "redistributor \<Rightarrow> (u32 \<times> u64) list \<Rightarrow> redistributor" where
  "gicr_seed_from_kvm r regs = foldl gicr_seed r regs"

subsection \<open>Loops over a register word\<close>

lemma fold_put_length [simp]: "length (fold (\<lambda>b xs. if P b then xs[base + b := f b] else xs) bs xs) = length xs"
  by (induction bs arbitrary: xs) simp_all

lemma fold_put_nth:
  "i < length xs \<Longrightarrow> fold (\<lambda>b xs. if P b then xs[base + b := f b] else xs) [0..<k] xs ! i =
     (if base \<le> i \<and> i < base + k \<and> P (i - base) then f (i - base) else xs ! i)"
proof (induction k)
  case (Suc k)
  show ?case
  proof (cases "i = base + k")
    case True
    with Suc show ?thesis by simp
  next
    case False
    with Suc have "fold (\<lambda>b xs. if P b then xs[base + b := f b] else xs) [0..<Suc k] xs ! i =
        fold (\<lambda>b xs. if P b then xs[base + b := f b] else xs) [0..<k] xs ! i" by simp
    also have "\<dots> = (if base \<le> i \<and> i < base + k \<and> P (i - base) then f (i - base) else xs ! i)" using Suc by simp
    also have "\<dots> = (if base \<le> i \<and> i < base + Suc k \<and> P (i - base) then f (i - base) else xs ! i)"
      using False by (auto simp: less_Suc_eq)
    finally show ?thesis .
  qed
qed auto

lemmas fold_put_all_length [simp] = fold_put_length [where P = "\<lambda>b. True", simplified]
lemmas fold_put_all_nth = fold_put_nth [where P = "\<lambda>b. True", simplified]

lemma fold_or_bit:
  "bit (fold (\<lambda>b v. if P b then v OR push_bit (g b) (h b) else v) [0..<k] v) n \<longleftrightarrow>
     bit v n \<or> (\<exists>b < k. P b \<and> bit (push_bit (g b) (h b)) n)" for v :: u32
proof (induction k)
  case (Suc k)
  then show ?case by (auto simp: bit_simps less_Suc_eq)
qed simp

lemma bit_push_one: "bit (push_bit k 1 :: u32) n \<longleftrightarrow> n = k \<and> k < 32" "bit (2 ^ k :: u32) n \<longleftrightarrow> n = k \<and> k < 32"
  by (auto simp: bit_simps)

lemma bit_read_bitmap:
  "bit (read_bitmap bits off) n \<longleftrightarrow> n < 32 \<and> unat (off div 4 * 32) + n < length bits \<and> bits ! (unat (off div 4 * 32) + n)"
proof -
  have "bit (read_bitmap bits off) n \<longleftrightarrow>
      (\<exists>b < 32. (unat (off div 4 * 32) + b < length bits \<and> bits ! (unat (off div 4 * 32) + b)) \<and> bit (push_bit b 1 :: u32) n)"
    unfolding read_bitmap_def Let_def by (subst fold_or_bit) simp
  then show ?thesis by (auto simp: bit_push_one)
qed

lemma bit_read_cfgr:
  "bit (read_cfgr d off) n \<longleftrightarrow> odd n \<and> n < 32 \<and> unat (off div 4 * 16) + n div 2 < length (edge d) \<and>
     edge d ! (unat (off div 4 * 16) + n div 2)"
proof -
  let ?P = "\<lambda>b. unat (off div 4 * 16) + b < length (edge d) \<and> edge d ! (unat (off div 4 * 16) + b)"
  have "bit (read_cfgr d off) n \<longleftrightarrow> (\<exists>b < 16. ?P b \<and> n = b * 2 + 1 \<and> b * 2 + 1 < 32)"
    unfolding read_cfgr_def Let_def fold_or_bit bit_push_one(1) by simp
  also have "\<dots> \<longleftrightarrow> odd n \<and> n < 32 \<and> ?P (n div 2)"
  proof
    assume "odd n \<and> n < 32 \<and> ?P (n div 2)"
    moreover from this have "n div 2 < 16" by auto
    moreover have "odd n \<Longrightarrow> n = n div 2 * 2 + 1" by presburger
    ultimately show "\<exists>b < 16. ?P b \<and> n = b * 2 + 1 \<and> b * 2 + 1 < 32" by (intro exI [of _ "n div 2"]) simp
  qed auto
  finally show ?thesis .
qed

lemma bit_read_priority:
  "bit (read_priority d off) n \<longleftrightarrow> n < 32 \<and> unat off + n div 8 < length (priority d) \<and>
     bit (priority d ! (unat off + n div 8)) (n mod 8)"
proof -
  have "bit (read_priority d off) n \<longleftrightarrow> (\<exists>b < 4. unat off + b < length (priority d) \<and>
      bit (push_bit (b * 8) (ucast (priority d ! (unat off + b))) :: u32) n)"
    unfolding read_priority_def Let_def by (subst fold_or_bit) simp
  also have "\<dots> \<longleftrightarrow> n < 32 \<and> unat off + n div 8 < length (priority d) \<and>
     bit (priority d ! (unat off + n div 8)) (n mod 8)"
  proof
    assume "\<exists>b < 4. unat off + b < length (priority d) \<and> bit (push_bit (b * 8) (ucast (priority d ! (unat off + b))) :: u32) n"
    then obtain b where b: "b < 4" "unat off + b < length (priority d)" "b * 8 \<le> n" "n < 32"
        "bit (priority d ! (unat off + b)) (n - b * 8)"
      by (auto simp: bit_simps)
    then have "n - b * 8 < 8" by (auto dest: bit_imp_le_length)
    moreover define r where "r = n - b * 8"
    ultimately have "r < 8" "n = b * 8 + r" using b(3) by simp_all
    then have "n div 8 = b" "n mod 8 = n - b * 8" by simp_all
    with b show "n < 32 \<and> unat off + n div 8 < length (priority d) \<and> bit (priority d ! (unat off + n div 8)) (n mod 8)"
      by simp
  next
    assume a: "n < 32 \<and> unat off + n div 8 < length (priority d) \<and> bit (priority d ! (unat off + n div 8)) (n mod 8)"
    moreover have "n div 8 * 8 \<le> n" "n - n div 8 * 8 = n mod 8" by (simp_all add: minus_div_mult_eq_mod)
    ultimately show "\<exists>b < 4. unat off + b < length (priority d) \<and>
        bit (push_bit (b * 8) (ucast (priority d ! (unat off + b))) :: u32) n"
      by (intro exI [of _ "n div 8"]) (auto simp: bit_simps)
  qed
  finally show ?thesis .
qed

lemma set_bits_length [simp]: "length (set_bits bits off v st) = length bits"
  by (simp add: set_bits_def Let_def)

lemma set_bits_nth:
  "i < length bits \<Longrightarrow> set_bits bits off v st ! i =
     (if unat (off div 4 * 32) \<le> i \<and> i < unat (off div 4 * 32) + 32 \<and> bit v (i - unat (off div 4 * 32)) then st else bits ! i)"
  unfolding set_bits_def Let_def by (rule fold_put_nth)

subsection \<open>Shape of the vectors\<close>

definition gicd_ok :: "distributor \<Rightarrow> bool" where
  "gicd_ok d \<longleftrightarrow> length (enabled d) = unat (num_irqs d) \<and> length (group1 d) = unat (num_irqs d) \<and>
     length (priority d) = unat (num_irqs d) \<and> length (pending d) = unat (num_irqs d) \<and>
     length (edge d) = unat (num_irqs d) \<and> length (router d) = unat (num_irqs d) \<and>
     32 \<le> num_irqs d \<and> num_irqs d \<le> INTID_LIMIT"

definition same_shape :: "distributor \<Rightarrow> distributor \<Rightarrow> bool" where
  "same_shape d d' \<longleftrightarrow> num_irqs d' = num_irqs d \<and> (gicd_ok d \<longrightarrow> gicd_ok d')"

lemma same_shape_refl [simp]: "same_shape d d"
  by (simp add: same_shape_def)

lemma same_shape_trans: "same_shape a b \<Longrightarrow> same_shape b c \<Longrightarrow> same_shape a c"
  by (simp add: same_shape_def)

lemma on_field_shape: "(\<And>bs. length (f bs) = length bs) \<Longrightarrow> same_shape d (on_field d field f)"
  by (cases field) (auto simp: same_shape_def gicd_ok_def on_field_def)

lemma write_shapes [simp]:
  "same_shape d (write_bitmap_set d field off v st)" "same_shape d (write_priority d off v)"
  "same_shape d (write_cfgr d off v)" "same_shape d (write_router d off v)" "same_shape d (seed_bitmap d field off v)"
  "same_shape d (d\<lparr>d_ctlr := c\<rparr>)" "same_shape d (d\<lparr>router := (router d)[i := r]\<rparr>)"
  "same_shape d (d\<lparr>pending := (pending d)[i := b]\<rparr>)"
  by (simp_all add: write_bitmap_set_def seed_bitmap_def Let_def on_field_shape)
    (simp_all add: same_shape_def gicd_ok_def write_priority_def write_cfgr_def write_router_def Let_def)

lemma gicd_write_shape: "same_shape d (gicd_write d off v)"
  by (simp add: gicd_write_def)

lemma gicd_seed_shape: "same_shape d (gicd_seed d reg)"
  by (simp add: gicd_seed_def Let_def)

lemma gicd_seed_from_kvm_shape: "same_shape d (gicd_seed_from_kvm d regs)"
  unfolding gicd_seed_from_kvm_def
  by (induction regs arbitrary: d) (simp_all, metis gicd_seed_shape same_shape_trans)

lemma gicd_new_ok: "gicd_ok (gicd_new n)"
proof -
  let ?c = "clamp (next_multiple_of n 32) 32 INTID_LIMIT"
  have "32 \<le> ?c" "?c \<le> INTID_LIMIT" by (auto simp: clamp_def INTID_LIMIT_def)
  then show ?thesis by (simp add: gicd_new_def gicd_ok_def Let_def)
qed

datatype gicd_op = GWrite u64 u32 | GAssert u32 | GClear u32 | GSeed "(u32 \<times> u64) list"

fun gicd_step :: "distributor \<Rightarrow> gicd_op \<Rightarrow> distributor outcome" where
  "gicd_step d (GWrite off v) = Done (gicd_write d off v)"
| "gicd_step d (GAssert i) = (case assert_spi d i of Panicked \<Rightarrow> Panicked | Done (e, d') \<Rightarrow> Done d')"
| "gicd_step d (GClear i) = Done (clear_pending d i)"
| "gicd_step d (GSeed regs) = Done (gicd_seed_from_kvm d regs)"

fun gicd_run :: "distributor \<Rightarrow> gicd_op list \<Rightarrow> distributor outcome" where
  "gicd_run d [] = Done d"
| "gicd_run d (op # ops) = (case gicd_step d op of Panicked \<Rightarrow> Panicked | Done d' \<Rightarrow> gicd_run d' ops)"

lemma gicd_step_shape: "gicd_ok d \<Longrightarrow> \<exists>d'. gicd_step d op = Done d' \<and> same_shape d d'"
  by (cases op) (auto simp: gicd_write_shape gicd_seed_from_kvm_shape clear_pending_def assert_spi_def Let_def gicd_ok_def)

lemma gicd_run_shape: "gicd_ok d \<Longrightarrow> \<exists>d'. gicd_run d ops = Done d' \<and> same_shape d d'"
proof (induction ops arbitrary: d)
  case (Cons op ops)
  obtain d1 where "gicd_step d op = Done d1" "same_shape d d1" using gicd_step_shape [OF Cons.prems] by blast
  moreover from this Cons.prems have "gicd_ok d1" by (simp add: same_shape_def)
  ultimately show ?case using Cons.IH [of d1] same_shape_trans by auto
qed simp


subsection \<open>Register words\<close>

text \<open>Word \<open>w\<close> of a register bank starts four bytes after word \<open>w - 1\<close>.\<close>

lemma unat_word_off: "w < 4096 \<Longrightarrow> unat (4 * of_nat w :: u64) = 4 * w"
  by (subst unat_mult_no_wrap) (simp_all add: unat_of_nat_lt)

lemma unat_bank_off: "w < 4096 \<Longrightarrow> unat c < 2 ^ 32 \<Longrightarrow> unat (c + 4 * of_nat w :: u64) = unat c + 4 * w"
  by (subst unat_add_no_wrap) (simp_all add: unat_word_off)

lemma bank_base:
  assumes "w < 4096"
  shows "unat ((4 * of_nat w :: u64) div 4 * 32) = 32 * w" "unat ((4 * of_nat w :: u64) div 4 * 16) = 16 * w"
proof -
  have "unat ((4 * of_nat w :: u64) div 4) = w" using assms by (simp add: unat_div unat_word_off)
  then show "unat ((4 * of_nat w :: u64) div 4 * 32) = 32 * w" "unat ((4 * of_nat w :: u64) div 4 * 16) = 16 * w"
    using assms by (simp_all add: unat_mult_no_wrap)
qed

lemmas bank_simps = word_le_nat_alt word_less_nat_alt word_unat_eq_iff unat_bank_off

lemma gicd_write_banks:
  "w < 32 \<Longrightarrow> gicd_write d (0x0100 + 4 * of_nat w) v = write_bitmap_set d Enable (4 * of_nat w) v True"
  "w < 32 \<Longrightarrow> gicd_write d (0x0180 + 4 * of_nat w) v = write_bitmap_set d Enable (4 * of_nat w) v False"
  "w < 64 \<Longrightarrow> gicd_write d (0x0C00 + 4 * of_nat w) v = write_cfgr d (4 * of_nat w) v"
  "w < 256 \<Longrightarrow> gicd_write d (0x0400 + 4 * of_nat w) v = write_priority d (4 * of_nat w) v"
  by (simp_all add: gicd_write_def bank_simps)

lemma gicd_read_banks:
  "w < 32 \<Longrightarrow> gicd_read d (0x0080 + 4 * of_nat w) = read_bitmap (group1 d) (4 * of_nat w)"
  "w < 32 \<Longrightarrow> gicd_read d (0x0100 + 4 * of_nat w) = read_bitmap (enabled d) (4 * of_nat w)"
  "w < 64 \<Longrightarrow> gicd_read d (0x0C00 + 4 * of_nat w) = read_cfgr d (4 * of_nat w)"
  "w < 256 \<Longrightarrow> gicd_read d (0x0400 + 4 * of_nat w) = read_priority d (4 * of_nat w)"
  by (simp_all add: gicd_read_def bank_simps)

lemma div_block: "32 * w \<le> x \<and> x < 32 * w + 32 \<longleftrightarrow> x div 32 = w" for x w :: nat
proof
  assume "32 * w \<le> x \<and> x < 32 * w + 32"
  then show "x div 32 = w" by (intro div_nat_eqI) simp_all
next
  assume "x div 32 = w"
  moreover have "32 * (x div 32) \<le> x" by (rule times_div_less_eq_dividend)
  moreover have "x < 32 * (x div 32) + 32" using dividend_less_times_div [of 32 x] by simp
  ultimately show "32 * w \<le> x \<and> x < 32 * w + 32" by simp
qed

lemma enabled_set_bits:
  assumes "w < 32" "unat i < length bits"
  shows "set_bits bits (4 * of_nat w) v st ! unat i = (if unat i div 32 = w \<and> bit v (unat i mod 32) then st else bits ! unat i)"
proof -
  have "unat ((4 * of_nat w :: u64) div 4 * 32) = 32 * w" using assms(1) by (intro bank_base) simp
  then have "set_bits bits (4 * of_nat w) v st ! unat i =
      (if (32 * w \<le> unat i \<and> unat i < 32 * w + 32) \<and> bit v (unat i - 32 * w) then st else bits ! unat i)"
    using set_bits_nth [OF assms(2), of "4 * of_nat w" v st] by simp
  moreover have "unat i div 32 = w \<Longrightarrow> unat i - 32 * w = unat i mod 32" by (metis minus_mult_div_eq_mod)
  ultimately show ?thesis unfolding div_block by auto
qed

lemma enable_write:
  assumes "w < 32"
  shows "is_enabled (gicd_write d (0x0100 + 4 * of_nat w) v) i \<longleftrightarrow> is_enabled d i \<or>
      unat i < length (enabled d) \<and> unat i div 32 = w \<and> bit v (unat i mod 32)"
    "is_enabled (gicd_write d (0x0180 + 4 * of_nat w) v) i \<longleftrightarrow> is_enabled d i \<and> \<not> (unat i div 32 = w \<and> bit v (unat i mod 32))"
proof -
  have e: "enabled (gicd_write d (0x0100 + 4 * of_nat w) v) = set_bits (enabled d) (4 * of_nat w) v True"
    "enabled (gicd_write d (0x0180 + 4 * of_nat w) v) = set_bits (enabled d) (4 * of_nat w) v False"
    unfolding gicd_write_banks(1,2) [OF assms] by (simp_all add: write_bitmap_set_def on_field_def)
  show "is_enabled (gicd_write d (0x0100 + 4 * of_nat w) v) i \<longleftrightarrow> is_enabled d i \<or>
      unat i < length (enabled d) \<and> unat i div 32 = w \<and> bit v (unat i mod 32)"
    "is_enabled (gicd_write d (0x0180 + 4 * of_nat w) v) i \<longleftrightarrow> is_enabled d i \<and> \<not> (unat i div 32 = w \<and> bit v (unat i mod 32))"
    unfolding is_enabled_def e set_bits_length
    using enabled_set_bits [OF assms, of i "enabled d" v] by metis+
qed

lemma mask_odd: "bit (0xaaaaaaaa :: u32) n \<longleftrightarrow> n < 32 \<and> odd n"
proof -
  have "list_all (\<lambda>n. bit (0xaaaaaaaa :: u32) n = odd n) [0..<32]" by code_simp
  then have "\<forall>n < 32. bit (0xaaaaaaaa :: u32) n = odd n" by (simp add: list_all_iff)
  then show ?thesis using bit_imp_le_length [of "0xaaaaaaaa :: u32" n] by auto
qed

lemma cfgr_read_back:
  assumes "w < 64" "16 * (w + 1) \<le> length (edge d)"
  shows "gicd_read (gicd_write d (0x0C00 + 4 * of_nat w) v) (0x0C00 + 4 * of_nat w) = v AND 0xaaaaaaaa"
proof (rule bit_word_eqI)
  fix n assume "n < LENGTH(32)"
  have b: "unat ((4 * of_nat w :: u64) div 4 * 16) = 16 * w" using assms by (intro bank_base) simp
  have e: "edge (write_cfgr d (4 * of_nat w) v) ! (16 * w + k) = bit v (k * 2 + 1)" if "k < 16" for k
    using that assms b by (simp add: write_cfgr_def Let_def fold_put_all_nth)
  have k: "n div 2 < 16" using \<open>n < LENGTH(32)\<close> by simp
  have l: "16 * w + n div 2 < length (edge (write_cfgr d (4 * of_nat w) v))"
    using assms k by (simp add: write_cfgr_def Let_def)
  have "odd n \<Longrightarrow> n div 2 * 2 + 1 = n" by presburger
  then show "bit (gicd_read (gicd_write d (0x0C00 + 4 * of_nat w) v) (0x0C00 + 4 * of_nat w)) n = bit (v AND 0xaaaaaaaa) n"
    unfolding gicd_write_banks(3) [OF assms(1)] gicd_read_banks(3) [OF assms(1)] bit_read_cfgr b bit_and_iff mask_odd
    using e [OF k] l \<open>n < LENGTH(32)\<close> by auto
qed

lemma priority_read_back:
  assumes "w < 256" "4 * (w + 1) \<le> length (priority d)"
  shows "gicd_read (gicd_write d (0x0400 + 4 * of_nat w) v) (0x0400 + 4 * of_nat w) = v"
proof (rule bit_word_eqI)
  fix n assume n: "n < LENGTH(32)"
  have b: "unat (4 * of_nat w :: u64) = 4 * w" using assms by (intro unat_word_off) simp
  have e: "priority (write_priority d (4 * of_nat w) v) ! (4 * w + k) = ucast (drop_bit (k * 8) v)" if "k < 4" for k
    using that assms b by (simp add: write_priority_def Let_def fold_put_all_nth)
  have k: "n div 8 < 4" using n by simp
  have l: "4 * w + n div 8 < length (priority (write_priority d (4 * of_nat w) v))"
    using assms k by (simp add: write_priority_def Let_def)
  have "bit (ucast (drop_bit (n div 8 * 8) v) :: u8) (n mod 8) = bit v n"
    by (simp add: bit_simps)
  then show "bit (gicd_read (gicd_write d (0x0400 + 4 * of_nat w) v) (0x0400 + 4 * of_nat w)) n = bit v n"
    unfolding gicd_write_banks(4) [OF assms(1)] gicd_read_banks(4) [OF assms(1)] bit_read_priority b
    using e [OF k] l n by simp
qed

lemma router_word:
  assumes "w < 2048"
  shows "unat ((4 * of_nat w :: u64) div 8) = w div 2" "(ucast ((4 * of_nat w :: u64) div 8) :: u32) = of_nat (w div 2)"
    "4 \<le> (4 * of_nat w :: u64) mod 8 \<longleftrightarrow> odd w"
proof -
  have u: "unat (4 * of_nat w :: u64) = 4 * w" using assms by (intro unat_word_off) simp
  show d: "unat ((4 * of_nat w :: u64) div 8) = w div 2" unfolding unat_div u by simp
  have "(ucast ((4 * of_nat w :: u64) div 8) :: u32) = of_nat (unat ((4 * of_nat w :: u64) div 8))"
    by simp
  then show "(ucast ((4 * of_nat w :: u64) div 8) :: u32) = of_nat (w div 2)" unfolding d .
  have "4 * w mod 8 = 4 * (w mod 2)" using mult_mod_right [of 4 w 2] by simp
  then show "4 \<le> (4 * of_nat w :: u64) mod 8 \<longleftrightarrow> odd w"
    unfolding word_le_nat_alt unat_mod u by (cases "even w") (simp_all add: odd_iff_mod_2_eq_one)
qed

lemma router_banks:
  assumes "w < 2048"
  shows "gicd_write d (0x6000 + 4 * of_nat w) v = write_router d (4 * of_nat w) v"
    "gicd_read d (0x6000 + 4 * of_nat w) =
      (if odd w then ucast (drop_bit 32 (router_of d (of_nat (w div 2)))) else ucast (router_of d (of_nat (w div 2))))"
proof -
  show "gicd_write d (0x6000 + 4 * of_nat w) v = write_router d (4 * of_nat w) v"
    using assms by (simp add: gicd_write_def bank_simps)
  have "gicd_read d (0x6000 + 4 * of_nat w) =
      (let route = router_of d (ucast ((4 * of_nat w :: u64) div 8))
       in if 4 \<le> (4 * of_nat w :: u64) mod 8 then ucast (drop_bit 32 route) else ucast route)"
    using assms by (simp add: gicd_read_def bank_simps)
  then show "gicd_read d (0x6000 + 4 * of_nat w) =
      (if odd w then ucast (drop_bit 32 (router_of d (of_nat (w div 2)))) else ucast (router_of d (of_nat (w div 2))))"
    unfolding router_word [OF assms] Let_def .
qed

lemma router_of_write:
  assumes "w < 2048" "i < 1024" "i < length (router d)"
  shows "router_of (gicd_write d (0x6000 + 4 * of_nat w) v) (of_nat i) =
    (if w div 2 \<noteq> i then router_of d (of_nat i)
     else if odd w then put_high (router_of d (of_nat i)) v else put_low (router_of d (of_nat i)) v)"
proof -
  have "unat (of_nat i :: u32) = i" using assms(2) by (simp add: unat_of_nat_lt)
  moreover have c: "(0xffffffff00000000 :: u64) = - 0x100000000" by simp
  ultimately show ?thesis
    using assms unfolding router_banks(1) [OF assms(1)] write_router_def c router_word [OF assms(1)] Let_def router_of_def
      put_high_def put_low_def by auto
qed

lemma put_halves: "put_high (put_low r lo) hi = push_bit 32 (ucast hi) OR ucast lo"
  "ucast (put_high r v) = (ucast r :: u32)" "ucast (drop_bit 32 (put_high r v)) = v" "ucast (put_low r v) = v"
  "ucast (drop_bit 32 (put_low r v)) = (ucast (drop_bit 32 r) :: u32)"
proof -
  have m: "(0xffffffff :: u64) = mask 32" by (simp add: mask_eq_exp_minus_1)
  show "put_high (put_low r lo) hi = push_bit 32 (ucast hi) OR ucast lo"
    "ucast (put_high r v) = (ucast r :: u32)" "ucast (drop_bit 32 (put_high r v)) = v" "ucast (put_low r v) = v"
    "ucast (drop_bit 32 (put_low r v)) = (ucast (drop_bit 32 r) :: u32)"
    unfolding put_high_def put_low_def m by (rule bit_word_eqI, auto simp: bit_simps dest: bit_imp_le_length)+
qed

lemma router_read_back:
  assumes "w < 2048" "w div 2 < length (router d)"
  shows "gicd_read (gicd_write d (0x6000 + 4 * of_nat w) v) (0x6000 + 4 * of_nat w) = v"
proof -
  have "w div 2 < 1024" using assms(1) by simp
  from router_of_write [OF assms(1) this assms(2), of v] show ?thesis
    unfolding router_banks(2) [OF assms(1)] by (simp add: put_halves)
qed

text \<open>
  C24. Guest programming of the distributor reads back: in a well-formed distributor a write to
  word \<open>w\<close> of the priority bank or of the routing bank is returned by the next read of the same
  word, a write to the configuration bank returns its edge bits and zero in the reserved ones,
  the set-enable bank enables exactly the interrupts whose bits are written as one, and the
  clear-enable bank disables exactly those.
\<close>

theorem gicd_read_back:
  assumes "gicd_ok d"
  shows "(4 * (w + 1) \<le> unat (num_irqs d) \<longrightarrow>
      gicd_read (gicd_write d (0x0400 + 4 * of_nat w) v) (0x0400 + 4 * of_nat w) = v) \<and>
    (16 * (w + 1) \<le> unat (num_irqs d) \<longrightarrow>
      gicd_read (gicd_write d (0x0C00 + 4 * of_nat w) v) (0x0C00 + 4 * of_nat w) = v AND 0xaaaaaaaa) \<and>
    (w div 2 < unat (num_irqs d) \<longrightarrow>
      gicd_read (gicd_write d (0x6000 + 4 * of_nat w) v) (0x6000 + 4 * of_nat w) = v) \<and>
    (32 * w < unat (num_irqs d) \<longrightarrow>
      (is_enabled (gicd_write d (0x0100 + 4 * of_nat w) v) i \<longleftrightarrow>
        is_enabled d i \<or> i < num_irqs d \<and> unat i div 32 = w \<and> bit v (unat i mod 32)) \<and>
      (is_enabled (gicd_write d (0x0180 + 4 * of_nat w) v) i \<longleftrightarrow>
        is_enabled d i \<and> \<not> (unat i div 32 = w \<and> bit v (unat i mod 32))))"
proof -
  have l: "length (priority d) = unat (num_irqs d)" "length (edge d) = unat (num_irqs d)"
    "length (router d) = unat (num_irqs d)" "length (enabled d) = unat (num_irqs d)"
    using assms by (simp_all add: gicd_ok_def)
  have n: "unat (num_irqs d) \<le> 1020" using assms by (simp add: gicd_ok_def INTID_LIMIT_def word_le_nat_alt)
  show ?thesis
  proof (intro conjI impI)
    assume "4 * (w + 1) \<le> unat (num_irqs d)"
    then show "gicd_read (gicd_write d (0x0400 + 4 * of_nat w) v) (0x0400 + 4 * of_nat w) = v"
      using n by (intro priority_read_back) (simp_all add: l)
  next
    assume "16 * (w + 1) \<le> unat (num_irqs d)"
    then show "gicd_read (gicd_write d (0x0C00 + 4 * of_nat w) v) (0x0C00 + 4 * of_nat w) = v AND 0xaaaaaaaa"
      using n by (intro cfgr_read_back) (simp_all add: l)
  next
    assume "w div 2 < unat (num_irqs d)"
    then show "gicd_read (gicd_write d (0x6000 + 4 * of_nat w) v) (0x6000 + 4 * of_nat w) = v"
      using n by (intro router_read_back) (simp_all add: l)
  qed (use n in \<open>simp_all add: enable_write l word_less_nat_alt\<close>)
qed

theorem gicd_read_back_witness:
  "gicd_ok (gicd_new 64) \<and> num_irqs (gicd_new 64) = 64 \<and>
   gicd_read (gicd_write (gicd_new 64) (0x0400 + 4 * of_nat 9) 0x00a08040) (0x0400 + 4 * of_nat 9) = 0x00a08040"
proof -
  have n: "num_irqs (gicd_new 64) = 64"
    by (simp add: gicd_new_def clamp_def next_multiple_of_def INTID_LIMIT_def)
  then show ?thesis using gicd_read_back [OF gicd_new_ok, of 9 64 "0x00a08040" 0] gicd_new_ok [of 64] by simp
qed

subsection \<open>Groups\<close>

lemma list_all_update: "list_all P xs \<Longrightarrow> P y \<Longrightarrow> list_all P (xs[i := y])"
  by (auto simp: list_all_iff dest: set_update_subset_insert [THEN subsetD])

lemma set_bits_all: "list_all id bits \<Longrightarrow> list_all id (set_bits bits off v True)"
  unfolding set_bits_def Let_def
  by (rule fold_invariant [where Q = "\<lambda>b. True" and P = "list_all id"]) (auto intro: list_all_update)

lemma write_group: "list_all id (group1 d) \<Longrightarrow> list_all id (group1 (gicd_write d off v))"
  by (auto simp: gicd_write_def write_bitmap_set_def on_field_def set_bits_all write_priority_def write_cfgr_def
      write_router_def Let_def)

lemma writes_group: "list_all id (group1 d) \<Longrightarrow> list_all id (group1 (foldl (\<lambda>d (off, v). gicd_write d off v) d ws))"
  by (induction ws arbitrary: d) (auto simp: write_group)

lemma writes_shape: "same_shape d (foldl (\<lambda>d (off, v). gicd_write d off v) d ws)"
  by (induction ws arbitrary: d) (auto intro: gicd_write_shape same_shape_trans)

text \<open>
  No sequence of guest writes moves an interrupt to Group 0: the group bank only sets bits, and
  every interrupt of a new distributor starts in Group 1, so each fully modelled word of the
  bank reads all ones for ever.
\<close>

theorem gicd_groups_stuck:
  assumes "32 * (w + 1) \<le> unat (num_irqs (gicd_new n))"
  shows "gicd_read (foldl (\<lambda>d (off, v). gicd_write d off v) (gicd_new n) ws) (0x0080 + 4 * of_nat w) = 0xffffffff"
proof -
  let ?d = "foldl (\<lambda>d (off, v). gicd_write d off v) (gicd_new n) ws"
  have ok: "gicd_ok ?d" "num_irqs ?d = num_irqs (gicd_new n)"
    using writes_shape [of "gicd_new n" ws] gicd_new_ok [of n] by (simp_all add: same_shape_def)
  then have l: "length (group1 ?d) = unat (num_irqs (gicd_new n))" by (simp add: gicd_ok_def)
  have "list_all id (group1 ?d)" by (rule writes_group) (simp add: gicd_new_def Let_def list_all_iff)
  then have one: "group1 ?d ! (32 * w + k)" if "k < 32" for k
    using that assms l by (simp add: list_all_length)
  have "w < 32" using ok assms by (simp add: gicd_ok_def INTID_LIMIT_def word_le_nat_alt)
  then have b: "unat ((4 * of_nat w :: u64) div 4 * 32) = 32 * w" by (intro bank_base) simp
  have "bit (read_bitmap (group1 ?d) (4 * of_nat w)) k = bit (mask 32 :: u32) k" if "k < 32" for k
    unfolding bit_read_bitmap b using that one [OF that] assms l by (simp add: bit_simps)
  then have "read_bitmap (group1 ?d) (4 * of_nat w) = mask 32" by (intro bit_word_eqI) simp
  then show ?thesis unfolding gicd_read_banks(1) [OF \<open>w < 32\<close>] by (simp add: mask_eq_exp_minus_1)
qed

theorem gicd_groups_stuck_witness:
  "num_irqs (gicd_new 64) = 64 \<and>
   gicd_read (foldl (\<lambda>d (off, v). gicd_write d off v) (gicd_new 64) [(0x0084, 0), (0x0080, 0)]) (0x0080 + 4 * of_nat 1) = 0xffffffff"
proof -
  have n: "num_irqs (gicd_new 64) = 64"
    by (simp add: gicd_new_def clamp_def next_multiple_of_def INTID_LIMIT_def)
  show ?thesis using gicd_groups_stuck [of 1 64 "[(0x0084, 0), (0x0080, 0)]"] n by simp
qed

end
