(* ===== verification/Vcpu_Translate.thy ===== *)
theory Vcpu_Translate
  imports Prelude
begin

text \<open>
  Translation of a vCPU's registers between the KVM and the Hypervisor.framework representation
  (\<^verbatim>\<open>src/hypervisor/src/hvf/translate.rs\<close>): the register ids, the two directions
  \<^verbatim>\<open>lower_to_kvm\<close> and \<^verbatim>\<open>raise_from_kvm\<close>, and the ingestion of a serialized KVM vCPU. The
  binding structures of the KVM interface are records of the fields the code reads; the JSON
  reader and the two run-state constants of that interface are parameters.
\<close>

subsection \<open>Register ids\<close>

definition KVM_REG_ARM64 :: u64 where "KVM_REG_ARM64 = 0x6000000000000000"
definition KVM_REG_SIZE_U64 :: u64 where "KVM_REG_SIZE_U64 = 0x0030000000000000"
definition KVM_REG_ARM_CORE :: u64 where "KVM_REG_ARM_CORE = 0x00100000"
definition KVM_REG_ARM64_SYSREG :: u64 where "KVM_REG_ARM64_SYSREG = 0x00130000"
definition KVM_REG_ARM_COPROC_MASK :: u64 where "KVM_REG_ARM_COPROC_MASK = 0x0fff0000"
definition SYSREG_ENC_MASK :: u64 where "SYSREG_ENC_MASK = 0xffff"

definition OFF_REGS0 :: u64 where "OFF_REGS0 = 0"
definition OFF_SP_EL0 :: u64 where "OFF_SP_EL0 = 31 * 8"
definition OFF_PC :: u64 where "OFF_PC = 32 * 8"
definition OFF_PSTATE :: u64 where "OFF_PSTATE = 33 * 8"
definition OFF_SP_EL1 :: u64 where "OFF_SP_EL1 = 34 * 8"
definition OFF_ELR_EL1 :: u64 where "OFF_ELR_EL1 = 35 * 8"
definition OFF_SPSR0 :: u64 where "OFF_SPSR0 = 36 * 8"
definition OFF_FP_VREGS :: u64 where "OFF_FP_VREGS = 336"
definition OFF_FPSR :: u64 where "OFF_FPSR = OFF_FP_VREGS + 32 * 16"
definition OFF_FPCR :: u64 where "OFF_FPCR = OFF_FPSR + 4"

definition SYSREG_SPSR_EL1 :: u16 where "SYSREG_SPSR_EL1 = 0xc200"
definition SYSREG_ELR_EL1 :: u16 where "SYSREG_ELR_EL1 = 0xc201"
definition SYSREG_SP_EL0 :: u16 where "SYSREG_SP_EL0 = 0xc208"
definition SYSREG_SP_EL1 :: u16 where "SYSREG_SP_EL1 = 0xe208"

definition kvm_fp_vreg_offset :: "u64 \<Rightarrow> u64" where
  "kvm_fp_vreg_offset index = OFF_FP_VREGS + index * 16"

definition kvm_core_reg_id :: "u64 \<Rightarrow> u64" where
  "kvm_core_reg_id byte_offset = KVM_REG_ARM64 OR KVM_REG_SIZE_U64 OR KVM_REG_ARM_CORE OR (byte_offset div 4)"

definition kvm_core_reg_offset :: "u64 \<Rightarrow> u64 option" where
  "kvm_core_reg_offset reg_id =
     (let is_arm64 = reg_id AND 0xff00000000000000 = KVM_REG_ARM64;
          is_u64 = reg_id AND KVM_REG_SIZE_U64 = KVM_REG_SIZE_U64;
          is_core = reg_id AND KVM_REG_ARM_COPROC_MASK = KVM_REG_ARM_CORE
      in if is_arm64 \<and> is_u64 \<and> is_core then Some ((reg_id AND SYSREG_ENC_MASK) * 4) else None)"

definition kvm_sysreg_id :: "u16 \<Rightarrow> u64" where
  "kvm_sysreg_id enc16 = KVM_REG_ARM64 OR KVM_REG_SIZE_U64 OR KVM_REG_ARM64_SYSREG OR ucast enc16"

definition kvm_sysreg_to_hvf :: "u64 \<Rightarrow> u16 option" where
  "kvm_sysreg_to_hvf reg_id =
     (let is_arm64 = reg_id AND 0xff00000000000000 = KVM_REG_ARM64;
          is_u64 = reg_id AND KVM_REG_SIZE_U64 = KVM_REG_SIZE_U64;
          is_sysreg = reg_id AND KVM_REG_ARM_COPROC_MASK = KVM_REG_ARM64_SYSREG
      in if is_arm64 \<and> is_u64 \<and> is_sysreg then Some (ucast (reg_id AND SYSREG_ENC_MASK)) else None)"

subsection \<open>vCPU state\<close>

record vcpu_fp_state =
  vregs :: "u8 list list"
  fpsr :: u32
  fpcr :: u32

record vcpu_hvf_state =
  gpr :: "u64 list"
  pc :: u64
  cpsr :: u64
  sp_el1 :: u64
  sysregs :: "(u16 \<times> u64) list"
  gic_icc :: "(u16 \<times> u64) list"
  fp :: "vcpu_fp_state option"
  mp_state_running :: bool

record kvm_vcpu_regs =
  core :: "(u64 \<times> u64) list"
  sys :: "(u64 \<times> u64) list"
  kvm_icc :: "(u64 \<times> u64) list"
  kvm_fp :: "vcpu_fp_state option"

definition core_value :: "kvm_vcpu_regs \<Rightarrow> u64 \<Rightarrow> u64 option" where
  "core_value k reg_id = map_option snd (find (\<lambda>p. fst p = reg_id) (core k))"

definition sysreg_value :: "vcpu_hvf_state \<Rightarrow> u16 \<Rightarrow> u64 option" where
  "sysreg_value hvf enc = map_option snd (find (\<lambda>p. fst p = enc) (sysregs hvf))"

definition HVF_SYSREGS_THAT_ARE_KVM_CORE :: "u16 list" where
  "HVF_SYSREGS_THAT_ARE_KVM_CORE = [SYSREG_SP_EL0, SYSREG_ELR_EL1, SYSREG_SPSR_EL1, SYSREG_SP_EL1]"

definition push_some :: "('a \<times> 'b) list \<Rightarrow> 'a \<Rightarrow> 'b option \<Rightarrow> ('a \<times> 'b) list" where
  "push_some xs k v = (case v of Some x \<Rightarrow> xs @ [(k, x)] | None \<Rightarrow> xs)"

definition lower_core :: "vcpu_hvf_state \<Rightarrow> (u64 \<times> u64) list" where
  "lower_core hvf =
     (let c0 = map (\<lambda>(i, v). (kvm_core_reg_id (OFF_REGS0 + of_nat i * 8), v)) (enumerate 0 (gpr hvf));
          c1 = c0 @ [(kvm_core_reg_id OFF_PC, pc hvf)] @ [(kvm_core_reg_id OFF_PSTATE, cpsr hvf)]
                  @ [(kvm_core_reg_id OFF_SP_EL1, sp_el1 hvf)];
          c2 = push_some c1 (kvm_core_reg_id OFF_SP_EL0) (sysreg_value hvf SYSREG_SP_EL0);
          c3 = push_some c2 (kvm_core_reg_id OFF_ELR_EL1) (sysreg_value hvf SYSREG_ELR_EL1)
      in push_some c3 (kvm_core_reg_id OFF_SPSR0) (sysreg_value hvf SYSREG_SPSR_EL1))"

definition lower_to_kvm :: "vcpu_hvf_state \<Rightarrow> kvm_vcpu_regs" where
  "lower_to_kvm hvf =
     \<lparr>core = lower_core hvf,
      sys = map (\<lambda>(e, v). (kvm_sysreg_id e, v))
              (filter (\<lambda>(e, v). e \<notin> set HVF_SYSREGS_THAT_ARE_KVM_CORE) (sysregs hvf)),
      kvm_icc = map (\<lambda>(e, v). (kvm_sysreg_id e, v)) (gic_icc hvf),
      kvm_fp = fp hvf\<rparr>"

definition raise_ids :: "(u64 \<times> u64) list \<Rightarrow> (u16 \<times> u64) list" where
  "raise_ids regs = List.map_filter (\<lambda>(i, v). map_option (\<lambda>enc. (enc, v)) (kvm_sysreg_to_hvf i)) regs"

definition or_zero :: "u64 option \<Rightarrow> u64" where
  "or_zero v = (case v of Some x \<Rightarrow> x | None \<Rightarrow> 0)"

definition raise_from_kvm :: "kvm_vcpu_regs \<Rightarrow> vcpu_hvf_state" where
  "raise_from_kvm k =
     (let sp1 = or_zero (core_value k (kvm_core_reg_id OFF_SP_EL1));
          s1 = push_some (raise_ids (sys k)) SYSREG_SP_EL0 (core_value k (kvm_core_reg_id OFF_SP_EL0));
          s2 = push_some s1 SYSREG_ELR_EL1 (core_value k (kvm_core_reg_id OFF_ELR_EL1));
          s3 = push_some s2 SYSREG_SPSR_EL1 (core_value k (kvm_core_reg_id OFF_SPSR0))
      in \<lparr>gpr = map (\<lambda>i. or_zero (core_value k (kvm_core_reg_id (OFF_REGS0 + of_nat i * 8)))) [0..<31],
          pc = or_zero (core_value k (kvm_core_reg_id OFF_PC)),
          cpsr = or_zero (core_value k (kvm_core_reg_id OFF_PSTATE)),
          sp_el1 = sp1,
          sysregs = s3 @ [(SYSREG_SP_EL1, sp1)],
          gic_icc = raise_ids (kvm_icc k),
          fp = kvm_fp k,
          mp_state_running = True\<rparr>)"

subsection \<open>Serialized KVM vCPU\<close>

record kvm_core_regs =
  user_regs :: "u64 list"
  user_sp :: u64
  user_pc :: u64
  pstate :: u64
  core_sp_el1 :: u64
  elr_el1 :: u64
  spsr :: "u64 list"
  fp_vregs :: "128 word list"
  fp_fpsr :: u32
  fp_fpcr :: u32

definition from_kvm :: "kvm_core_regs \<Rightarrow> (u64 \<times> u64) list \<Rightarrow> kvm_vcpu_regs" where
  "from_kvm core_regs sys_regs =
     \<lparr>core = map (\<lambda>(i, v). (kvm_core_reg_id (OFF_REGS0 + of_nat i * 8), v)) (enumerate 0 (user_regs core_regs))
        @ [(kvm_core_reg_id OFF_SP_EL0, user_sp core_regs), (kvm_core_reg_id OFF_PC, user_pc core_regs),
           (kvm_core_reg_id OFF_PSTATE, pstate core_regs), (kvm_core_reg_id OFF_SP_EL1, core_sp_el1 core_regs),
           (kvm_core_reg_id OFF_ELR_EL1, elr_el1 core_regs), (kvm_core_reg_id OFF_SPSR0, spsr core_regs ! 0)],
      sys = List.map_filter (\<lambda>(i, a). map_option (\<lambda>enc. (i, a)) (kvm_sysreg_to_hvf i)) sys_regs,
      kvm_icc = [],
      kvm_fp = Some \<lparr>vregs = map le_bytes (fp_vregs core_regs), fpsr = fp_fpsr core_regs,
                     fpcr = fp_fpcr core_regs\<rparr>\<rparr>"

definition kvm_to_hvf :: "kvm_core_regs \<Rightarrow> (u64 \<times> u64) list \<Rightarrow> vcpu_hvf_state" where
  "kvm_to_hvf core_regs sys_regs = raise_from_kvm (from_kvm core_regs sys_regs)"

record vcpu_kvm_snapshot =
  mp_state :: u32
  snap_core_regs :: kvm_core_regs
  snap_sys_regs :: "(u64 \<times> u64) list"

definition from_snapshot_json :: "(string \<Rightarrow> 'e + vcpu_kvm_snapshot) \<Rightarrow> string \<Rightarrow> 'e + kvm_vcpu_regs" where
  "from_snapshot_json parse state_json =
     (case parse state_json of Inl e \<Rightarrow> Inl e | Inr s \<Rightarrow> Inr (from_kvm (snap_core_regs s) (snap_sys_regs s)))"

definition snapshot_json_to_hvf ::
  "(string \<Rightarrow> 'e + vcpu_kvm_snapshot) \<Rightarrow> u32 \<Rightarrow> string \<Rightarrow> 'e + vcpu_hvf_state" where
  "snapshot_json_to_hvf parse stopped state_json =
     (case parse state_json of
        Inl e \<Rightarrow> Inl e
      | Inr s \<Rightarrow> Inr ((raise_from_kvm (from_kvm (snap_core_regs s) (snap_sys_regs s)))
                   \<lparr>mp_state_running := mp_state s \<noteq> stopped\<rparr>))"

definition kvm_mp_state_for :: "u32 \<Rightarrow> u32 \<Rightarrow> bool \<Rightarrow> u32" where
  "kvm_mp_state_for runnable stopped running = (if running then runnable else stopped)"

subsection \<open>Ids and encodings\<close>

lemma and_or_low:
  fixes c x m :: u64
  assumes "x AND 0xffff = x"
  shows "(c OR x) AND m = (c AND m) OR (x AND (0xffff AND m))"
proof -
  have "x AND (0xffff AND m) = (x AND 0xffff) AND m" by (simp only: and.assoc)
  then have "x AND m = x AND (0xffff AND m)" by (simp only: assms)
  then show ?thesis by (simp only: bit.conj_disj_distrib2)
qed

lemma low16: "x < 0x10000 \<Longrightarrow> x AND 0xffff = x" for x :: u64
proof -
  assume "x < 0x10000"
  then have "take_bit 16 x = x"
    by (simp add: word_unat_eq_iff unsigned_take_bit_eq take_bit_nat_eq_self word_less_nat_alt)
  then show ?thesis by (simp add: take_bit_eq_mask mask_eq_exp_minus_1)
qed

lemma ucast_low16: "ucast e AND 0xffff = (ucast e :: u64)" for e :: u16
proof -
  have "ucast e AND mask 16 = (ucast e :: u64)" by (rule bit_word_eqI) (auto simp: bit_simps dest: bit_imp_le_length)
  then show ?thesis by (simp add: mask_eq_exp_minus_1)
qed

lemmas id_defs = KVM_REG_ARM64_def KVM_REG_SIZE_U64_def KVM_REG_ARM_CORE_def KVM_REG_ARM64_SYSREG_def
  KVM_REG_ARM_COPROC_MASK_def SYSREG_ENC_MASK_def

lemma sysreg_id_decodes [simp]: "kvm_sysreg_to_hvf (kvm_sysreg_id e) = Some e"
proof -
  have "kvm_sysreg_id e = 0x6030000000130000 OR ucast e" unfolding kvm_sysreg_id_def id_defs or.assoc [symmetric] by simp
  moreover have "ucast (ucast e :: u64) = e" by (rule bit_word_eqI) (simp add: bit_simps)
  ultimately show ?thesis
    by (simp add: kvm_sysreg_to_hvf_def id_defs and_or_low [OF ucast_low16] Let_def) (simp add: ucast_low16)
qed

lemma core_id_decodes:
  assumes "unat b mod 4 = 0" "b < 0x40000"
  shows "kvm_core_reg_offset (kvm_core_reg_id b) = Some b"
proof -
  have "unat (b div 4) < 0x10000" using assms(2) by (simp add: unat_div word_less_nat_alt)
  then have l: "(b div 4) AND 0xffff = b div 4" by (intro low16) (simp add: word_less_nat_alt)
  have "b mod 4 = 0" using assms(1) by (simp add: word_unat_eq_iff unat_mod)
  then have "b div 4 * 4 = b" using div_mult_mod_eq [of b 4] by simp
  moreover have "kvm_core_reg_id b = 0x6030000000100000 OR (b div 4)" unfolding kvm_core_reg_id_def id_defs or.assoc [symmetric] by simp
  ultimately show ?thesis
    by (simp add: kvm_core_reg_offset_def id_defs and_or_low [OF l] Let_def) (simp add: l)
qed

text \<open>The core block's offsets: word \<open>i\<close> of the register structure is at \<open>8 i\<close>, and its id names it uniquely.\<close>

definition core_word :: "nat \<Rightarrow> u64" where
  "core_word i = kvm_core_reg_id (of_nat i * 8)"

lemma core_word_inj [simp]: "i < 64 \<Longrightarrow> j < 64 \<Longrightarrow> core_word i = core_word j \<longleftrightarrow> i = j"
proof -
  assume b: "i < 64" "j < 64"
  have u: "unat (of_nat k * 8 :: u64) = k * 8" if "k < 64" for k
    using that by (subst unat_mult_no_wrap) (simp_all add: unat_of_nat_lt)
  have o: "kvm_core_reg_offset (core_word k) = Some (of_nat k * 8)" if "k < 64" for k
    using that unfolding core_word_def by (intro core_id_decodes) (simp_all add: u word_less_nat_alt)
  show ?thesis
  proof
    assume "core_word i = core_word j"
    from arg_cong [OF this, of kvm_core_reg_offset] have "(of_nat i * 8 :: u64) = of_nat j * 8"
      unfolding o [OF b(1)] o [OF b(2)] option.inject .
    from arg_cong [OF this, of unat] have "i * 8 = j * 8" unfolding u [OF b(1)] u [OF b(2)] .
    then show "i = j" by simp
  qed simp
qed

lemma named_words:
  "kvm_core_reg_id (OFF_REGS0 + of_nat i * 8) = core_word i" "kvm_core_reg_id OFF_SP_EL0 = core_word 31"
  "kvm_core_reg_id OFF_PC = core_word 32" "kvm_core_reg_id OFF_PSTATE = core_word 33"
  "kvm_core_reg_id OFF_SP_EL1 = core_word 34" "kvm_core_reg_id OFF_ELR_EL1 = core_word 35"
  "kvm_core_reg_id OFF_SPSR0 = core_word 36"
  by (simp_all add: core_word_def OFF_REGS0_def OFF_SP_EL0_def OFF_PC_def OFF_PSTATE_def OFF_SP_EL1_def OFF_ELR_EL1_def OFF_SPSR0_def)

subsection \<open>Lookups\<close>

definition lookup :: "('a \<times> 'b) list \<Rightarrow> 'a \<Rightarrow> 'b option" where
  "lookup xs k = map_option snd (find (\<lambda>p. fst p = k) xs)"

lemma lookup_list [simp]:
  "lookup [] k = None" "lookup ((a, b) # xs) k = (if a = k then Some b else lookup xs k)"
  by (simp_all add: lookup_def)

lemma lookup_append [simp]: "lookup (xs @ ys) k = (case lookup xs k of None \<Rightarrow> lookup ys k | Some v \<Rightarrow> Some v)"
  by (induction xs) (auto simp: lookup_def)

lemma lookup_push_some [simp]:
  "lookup (push_some xs a v) k = (case lookup xs k of None \<Rightarrow> if a = k then v else None | Some w \<Rightarrow> Some w)"
  by (cases v) (auto simp: push_some_def split: option.split)

lemma lookup_enumerate:
  "n \<le> k \<Longrightarrow> n + length xs \<le> 64 \<Longrightarrow> k < 64 \<Longrightarrow>
    lookup (map (\<lambda>(i, v). (core_word i, v)) (enumerate n xs)) (core_word k) = (if k < n + length xs then Some (xs ! (k - n)) else None)"
proof (induction xs arbitrary: n)
  case (Cons x xs)
  show ?case using Cons.IH [of "Suc n"] Cons.prems by (cases "n = k") (auto simp: Suc_diff_le nth_Cons')
qed simp

lemma value_lookup: "core_value k i = lookup (core k) i" "sysreg_value s e = lookup (sysregs s) e"
  by (simp_all add: core_value_def sysreg_value_def lookup_def)

lemma lower_core_words:
  "lower_core s = push_some (push_some (push_some (map (\<lambda>(i, v). (core_word i, v)) (enumerate 0 (gpr s)) @
      [(core_word 32, pc s)] @ [(core_word 33, cpsr s)] @ [(core_word 34, sp_el1 s)])
      (core_word 31) (sysreg_value s SYSREG_SP_EL0)) (core_word 35) (sysreg_value s SYSREG_ELR_EL1))
      (core_word 36) (sysreg_value s SYSREG_SPSR_EL1)"
  unfolding lower_core_def named_words Let_def ..

lemma core_value_lower:
  assumes "length (gpr s) = 31"
  shows "i < 31 \<Longrightarrow> core_value (lower_to_kvm s) (core_word i) = Some (gpr s ! i)"
    "core_value (lower_to_kvm s) (core_word 31) = sysreg_value s SYSREG_SP_EL0"
    "core_value (lower_to_kvm s) (core_word 32) = Some (pc s)"
    "core_value (lower_to_kvm s) (core_word 33) = Some (cpsr s)"
    "core_value (lower_to_kvm s) (core_word 34) = Some (sp_el1 s)"
    "core_value (lower_to_kvm s) (core_word 35) = sysreg_value s SYSREG_ELR_EL1"
    "core_value (lower_to_kvm s) (core_word 36) = sysreg_value s SYSREG_SPSR_EL1"
  using assms by (simp_all add: value_lookup(1) lower_to_kvm_def lower_core_words lookup_enumerate split: option.split)

lemma raise_ids_lower [simp]: "raise_ids (map (\<lambda>(e, v). (kvm_sysreg_id e, v)) xs) = xs"
  by (induction xs) (auto simp: raise_ids_def map_filter_simps)

lemma raise_lower:
  assumes "length (gpr s) = 31"
  shows "raise_from_kvm (lower_to_kvm s) = s\<lparr>sysregs :=
     push_some (push_some (push_some (filter (\<lambda>(e, v). e \<notin> set HVF_SYSREGS_THAT_ARE_KVM_CORE) (sysregs s))
       SYSREG_SP_EL0 (sysreg_value s SYSREG_SP_EL0)) SYSREG_ELR_EL1 (sysreg_value s SYSREG_ELR_EL1))
       SYSREG_SPSR_EL1 (sysreg_value s SYSREG_SPSR_EL1) @ [(SYSREG_SP_EL1, sp_el1 s)], mp_state_running := True\<rparr>"
proof -
  have "map (\<lambda>i. or_zero (core_value (lower_to_kvm s) (core_word i))) [0..<31] = map (\<lambda>i. gpr s ! i) [0..<31]"
    using assms by (intro map_cong) (simp_all add: core_value_lower or_zero_def)
  also have "\<dots> = gpr s" using map_nth [of "gpr s"] assms by simp
  finally have g: "map (\<lambda>i. or_zero (core_value (lower_to_kvm s) (core_word i))) [0..<31] = gpr s" .
  show ?thesis
    unfolding raise_from_kvm_def named_words Let_def core_value_lower [OF assms] g
    by (simp add: or_zero_def lower_to_kvm_def)
qed

lemma lookup_filter: "lookup (filter (\<lambda>(e, v). P e) xs) k = (if P k then lookup xs k else None)"
  by (induction xs) auto

lemma filter_push_some: "filter (\<lambda>(e, v). P e) (push_some xs a v) = (if P a then push_some (filter (\<lambda>(e, v). P e) xs) a v
    else filter (\<lambda>(e, v). P e) xs)"
  by (cases v) (auto simp: push_some_def)

lemma core_members [simp]:
  "e \<in> set HVF_SYSREGS_THAT_ARE_KVM_CORE \<longleftrightarrow>
     e = SYSREG_SP_EL0 \<or> e = SYSREG_ELR_EL1 \<or> e = SYSREG_SPSR_EL1 \<or> e = SYSREG_SP_EL1"
  by (simp add: HVF_SYSREGS_THAT_ARE_KVM_CORE_def)

lemma sysreg_distinct [simp]:
  "SYSREG_SP_EL0 \<noteq> SYSREG_ELR_EL1" "SYSREG_SP_EL0 \<noteq> SYSREG_SPSR_EL1" "SYSREG_SP_EL0 \<noteq> SYSREG_SP_EL1"
  "SYSREG_ELR_EL1 \<noteq> SYSREG_SPSR_EL1" "SYSREG_ELR_EL1 \<noteq> SYSREG_SP_EL1" "SYSREG_SPSR_EL1 \<noteq> SYSREG_SP_EL1"
  "SYSREG_ELR_EL1 \<noteq> SYSREG_SP_EL0" "SYSREG_SPSR_EL1 \<noteq> SYSREG_SP_EL0" "SYSREG_SP_EL1 \<noteq> SYSREG_SP_EL0"
  "SYSREG_SPSR_EL1 \<noteq> SYSREG_ELR_EL1" "SYSREG_SP_EL1 \<noteq> SYSREG_ELR_EL1" "SYSREG_SP_EL1 \<noteq> SYSREG_SPSR_EL1"
  by (simp_all add: SYSREG_SP_EL0_def SYSREG_ELR_EL1_def SYSREG_SPSR_EL1_def SYSREG_SP_EL1_def)

lemma sysreg_value_raised:
  assumes "length (gpr s) = 31"
  shows "sysreg_value (raise_from_kvm (lower_to_kvm s)) e = (if e = SYSREG_SP_EL1 then Some (sp_el1 s) else sysreg_value s e)"
  unfolding raise_lower [OF assms] value_lookup
  by (cases "lookup (sysregs s) e"; cases "e = SYSREG_SP_EL0"; cases "e = SYSREG_ELR_EL1"; cases "e = SYSREG_SPSR_EL1";
      cases "e = SYSREG_SP_EL1") (simp_all add: lookup_filter value_lookup)



subsection \<open>Ingestion\<close>

lemma from_kvm_core:
  assumes "length (user_regs c) = 31"
  shows "i < 31 \<Longrightarrow> core_value (from_kvm c rs) (core_word i) = Some (user_regs c ! i)"
    "core_value (from_kvm c rs) (core_word 31) = Some (user_sp c)"
    "core_value (from_kvm c rs) (core_word 32) = Some (user_pc c)"
    "core_value (from_kvm c rs) (core_word 33) = Some (pstate c)"
    "core_value (from_kvm c rs) (core_word 34) = Some (core_sp_el1 c)"
    "core_value (from_kvm c rs) (core_word 35) = Some (elr_el1 c)"
    "core_value (from_kvm c rs) (core_word 36) = Some (spsr c ! 0)"
  using assms by (simp_all add: value_lookup(1) from_kvm_def named_words lookup_enumerate)

lemma raise_ids_filter: "raise_ids (List.map_filter (\<lambda>(i, a). map_option (\<lambda>enc. (i, a)) (kvm_sysreg_to_hvf i)) rs) = raise_ids rs"
  by (induction rs) (auto simp: raise_ids_def map_filter_simps split: option.split)

lemma kvm_to_hvf_fields:
  assumes "length (user_regs c) = 31"
  shows "kvm_to_hvf c rs = \<lparr>gpr = user_regs c, pc = user_pc c, cpsr = pstate c, sp_el1 = core_sp_el1 c,
     sysregs = raise_ids rs @ [(SYSREG_SP_EL0, user_sp c), (SYSREG_ELR_EL1, elr_el1 c), (SYSREG_SPSR_EL1, spsr c ! 0),
       (SYSREG_SP_EL1, core_sp_el1 c)],
     gic_icc = [], fp = Some \<lparr>vregs = map le_bytes (fp_vregs c), fpsr = fp_fpsr c, fpcr = fp_fpcr c\<rparr>, mp_state_running = True\<rparr>"
proof -
  have "map (\<lambda>i. or_zero (core_value (from_kvm c rs) (core_word i))) [0..<31] = map (\<lambda>i. user_regs c ! i) [0..<31]"
    using assms by (intro map_cong) (simp_all add: from_kvm_core or_zero_def)
  also have "\<dots> = user_regs c" using map_nth [of "user_regs c"] assms by simp
  finally have g: "map (\<lambda>i. or_zero (core_value (from_kvm c rs) (core_word i))) [0..<31] = user_regs c" .
  show ?thesis
    unfolding kvm_to_hvf_def raise_from_kvm_def named_words Let_def from_kvm_core [OF assms] g
    by (simp add: or_zero_def from_kvm_def push_some_def raise_ids_filter) (simp add: raise_ids_def map_filter_simps)
qed

lemma snapshot_json_fields:
  assumes "parse json = Inr sn" "length (user_regs (snap_core_regs sn)) = 31"
  shows "snapshot_json_to_hvf parse stopped json =
    Inr ((kvm_to_hvf (snap_core_regs sn) (snap_sys_regs sn))\<lparr>mp_state_running := mp_state sn \<noteq> stopped\<rparr>)"
  using assms(1) by (simp add: snapshot_json_to_hvf_def kvm_to_hvf_def)

lemma mp_state_inverse:
  "runnable \<noteq> stopped \<Longrightarrow> (kvm_mp_state_for runnable stopped running \<noteq> stopped) = running"
  by (simp add: kvm_mp_state_for_def)

text \<open>
  The size test of a system-register id accepts four size codes, not one: an id of the arm64
  system-register block decodes exactly when the two low bits of its size code are set, so an id
  with size code 7, 11 or 15 decodes as if its register were 64 bits wide (code 3).
\<close>

theorem sysreg_size_codes:
  assumes "sz < 16"
  shows "kvm_sysreg_to_hvf (KVM_REG_ARM64 OR push_bit 52 sz OR KVM_REG_ARM64_SYSREG OR ucast e) =
    (if sz \<in> {3, 7, 11, 15} then Some e else None)"
proof -
  have "unat sz < 16" using assms by (simp add: word_less_nat_alt)
  then have "unat sz \<in> set [0..<16]" by simp
  then have "sz \<in> of_nat ` set [0..<16]" by (intro image_eqI [of sz of_nat "unat sz"]) simp_all
  moreover have "set [0..<16] = {0, 1, 2, 3, 4, 5, 6, 7, 8, 9, 10, 11, 12, 13, 14, 15 :: nat}" by code_simp
  ultimately have c: "sz \<in> {0, 1, 2, 3, 4, 5, 6, 7, 8, 9, 10, 11, 12, 13, 14, 15}" by simp
  have u: "ucast (ucast e :: u64) = e" by (rule bit_word_eqI) (simp add: bit_simps)
  have r: "KVM_REG_ARM64 OR push_bit 52 sz OR KVM_REG_ARM64_SYSREG OR ucast e =
      (KVM_REG_ARM64 OR push_bit 52 sz OR KVM_REG_ARM64_SYSREG) OR ucast e"
    by (simp only: or.assoc)
  show ?thesis unfolding r kvm_sysreg_to_hvf_def and_or_low [OF ucast_low16] Let_def unfolding id_defs
    using c by (elim insertE emptyE) (simp_all add: ucast_low16 u)
qed

theorem sysreg_size_codes_witness:
  "kvm_sysreg_to_hvf (KVM_REG_ARM64 OR push_bit 52 7 OR KVM_REG_ARM64_SYSREG OR ucast (0xc005 :: u16)) = Some 0xc005"
  using sysreg_size_codes [of 7 "0xc005"] by simp

end
