(* ===== verification/Gic_Translate.thy ===== *)
theory Gic_Translate
  imports Softgic Vcpu_Translate
begin

text \<open>
  Translation of the interrupt controller's state between KVM's register dumps and the register
  writes of the local host (module \<^verbatim>\<open>gic_ingest\<close> of \<^verbatim>\<open>src/hypervisor/src/hvf/translate.rs\<close>): the
  CPU-interface vector, the distributor dump and the redistributor dump, each with its reader and
  its writer. The loop counters of the walks are natural numbers where the tables bound them;
  register offsets are 32-bit.
\<close>

subsection \<open>CPU interface\<close>

definition ICC_SRE_EL1 :: u16 where "ICC_SRE_EL1 = 0xc665"
definition ICC_CTLR_EL1 :: u16 where "ICC_CTLR_EL1 = 0xc664"
definition ICC_IGRPEN0_EL1 :: u16 where "ICC_IGRPEN0_EL1 = 0xc666"
definition ICC_IGRPEN1_EL1 :: u16 where "ICC_IGRPEN1_EL1 = 0xc667"
definition ICC_PMR_EL1 :: u16 where "ICC_PMR_EL1 = 0xc230"
definition ICC_BPR0_EL1 :: u16 where "ICC_BPR0_EL1 = 0xc643"
definition ICC_BPR1_EL1 :: u16 where "ICC_BPR1_EL1 = 0xc663"
definition ICC_AP0R0_EL1 :: u16 where "ICC_AP0R0_EL1 = 0xc644"
definition ICC_AP0R1_EL1 :: u16 where "ICC_AP0R1_EL1 = 0xc645"
definition ICC_AP0R2_EL1 :: u16 where "ICC_AP0R2_EL1 = 0xc646"
definition ICC_AP0R3_EL1 :: u16 where "ICC_AP0R3_EL1 = 0xc647"
definition ICC_AP1R0_EL1 :: u16 where "ICC_AP1R0_EL1 = 0xc648"
definition ICC_AP1R1_EL1 :: u16 where "ICC_AP1R1_EL1 = 0xc649"
definition ICC_AP1R2_EL1 :: u16 where "ICC_AP1R2_EL1 = 0xc64a"
definition ICC_AP1R3_EL1 :: u16 where "ICC_AP1R3_EL1 = 0xc64b"

definition VGIC_ICC_ORDER :: "u16 list" where
  "VGIC_ICC_ORDER = [ICC_SRE_EL1, ICC_CTLR_EL1, ICC_IGRPEN0_EL1, ICC_IGRPEN1_EL1, ICC_PMR_EL1, ICC_BPR0_EL1,
     ICC_BPR1_EL1, ICC_AP0R0_EL1, ICC_AP0R1_EL1, ICC_AP0R2_EL1, ICC_AP0R3_EL1, ICC_AP1R0_EL1, ICC_AP1R1_EL1,
     ICC_AP1R2_EL1, ICC_AP1R3_EL1]"

definition is_ap_r1 :: "u16 \<Rightarrow> bool" where
  "is_ap_r1 enc \<longleftrightarrow> enc = ICC_AP0R1_EL1 \<or> enc = ICC_AP1R1_EL1"

definition is_ap_r2_or_r3 :: "u16 \<Rightarrow> bool" where
  "is_ap_r2_or_r3 enc \<longleftrightarrow> enc = ICC_AP0R2_EL1 \<or> enc = ICC_AP0R3_EL1 \<or> enc = ICC_AP1R2_EL1 \<or> enc = ICC_AP1R3_EL1"

definition pribits_of :: "u64 \<Rightarrow> u64" where
  "pribits_of ctlr = (drop_bit 8 ctlr AND 7) + 1"

definition icc_skipped :: "u64 \<Rightarrow> u16 \<Rightarrow> bool" where
  "icc_skipped pribits enc \<longleftrightarrow> is_ap_r1 enc \<and> pribits < 6 \<or> is_ap_r2_or_r3 enc \<and> pribits < 7"

fun icc_walk :: "u64 \<Rightarrow> u32 list \<Rightarrow> u16 list \<Rightarrow> nat \<Rightarrow> (u16 \<times> u64) list \<Rightarrow> (nat \<times> (u16 \<times> u64) list) option" where
  "icc_walk pribits icc [] idx out = Some (idx, out)"
| "icc_walk pribits icc (enc # encs) idx out =
     (if icc_skipped pribits enc then icc_walk pribits icc encs idx out
      else if idx < length icc then icc_walk pribits icc encs (idx + 1) (out @ [(enc, ucast (icc ! idx))])
      else None)"

definition icc_to_hvf :: "u32 list \<Rightarrow> (u16 \<times> u64) list option" where
  "icc_to_hvf icc =
     (if length icc \<le> 1 then None
      else case icc_walk (pribits_of (ucast (icc ! 1))) icc VGIC_ICC_ORDER 0 [] of
             None \<Rightarrow> None
           | Some (idx, out) \<Rightarrow> if idx = length icc then Some out else None)"

definition icc_from_hvf :: "(u16 \<times> u64) list \<Rightarrow> u32 list option" where
  "icc_from_hvf icc =
     (case find (\<lambda>p. fst p = ICC_CTLR_EL1) icc of
        None \<Rightarrow> None
      | Some (e, ctlr) \<Rightarrow>
          Some (map (\<lambda>enc. ucast (case find (\<lambda>p. fst p = enc) icc of None \<Rightarrow> 0 | Some (e, v) \<Rightarrow> v))
                 (filter (\<lambda>enc. \<not> icc_skipped (pribits_of ctlr) enc) VGIC_ICC_ORDER)))"

definition snapshot_to_hvf_with_icc ::
  "(string \<Rightarrow> 'e + vcpu_kvm_snapshot) \<Rightarrow> u32 \<Rightarrow> string \<Rightarrow> u32 list \<Rightarrow> 'e + vcpu_hvf_state" where
  "snapshot_to_hvf_with_icc parse stopped vcpu_state_json icc =
     (case snapshot_json_to_hvf parse stopped vcpu_state_json of
        Inl e \<Rightarrow> Inl e
      | Inr hvf \<Rightarrow> Inr (case icc_to_hvf icc of Some regs \<Rightarrow> hvf\<lparr>gic_icc := regs\<rparr> | None \<Rightarrow> hvf))"

subsection \<open>Distributor dump\<close>

definition REG_SIZE :: u32 where "REG_SIZE = 4"

record dist_reg =
  reg_base :: u32
  bpi :: u8
  reg_length :: u16
  reg_restore :: bool

definition VGIC_DIST_REGS :: "dist_reg list" where
  "VGIC_DIST_REGS =
     [\<lparr>reg_base = 0x0010, bpi = 0, reg_length = 4, reg_restore = False\<rparr>,
      \<lparr>reg_base = 0x0180, bpi = 1, reg_length = 0, reg_restore = True\<rparr>,
      \<lparr>reg_base = 0x0100, bpi = 1, reg_length = 0, reg_restore = True\<rparr>,
      \<lparr>reg_base = 0x0080, bpi = 1, reg_length = 0, reg_restore = True\<rparr>,
      \<lparr>reg_base = 0x6000, bpi = 64, reg_length = 0, reg_restore = True\<rparr>,
      \<lparr>reg_base = 0x0c00, bpi = 2, reg_length = 0, reg_restore = True\<rparr>,
      \<lparr>reg_base = 0x0280, bpi = 1, reg_length = 0, reg_restore = True\<rparr>,
      \<lparr>reg_base = 0x0200, bpi = 1, reg_length = 0, reg_restore = True\<rparr>,
      \<lparr>reg_base = 0x0380, bpi = 1, reg_length = 0, reg_restore = True\<rparr>,
      \<lparr>reg_base = 0x0300, bpi = 1, reg_length = 0, reg_restore = True\<rparr>,
      \<lparr>reg_base = 0x0400, bpi = 8, reg_length = 0, reg_restore = True\<rparr>]"

definition dist_reg_words :: "dist_reg \<Rightarrow> u32 \<Rightarrow> u32" where
  "dist_reg_words reg num_irq =
     (if 0 < reg_length reg then ucast (reg_length reg) div REG_SIZE
      else let bits = ucast (bpi reg) * (num_irq - SPI_BASE);
               bytes = (if bits mod 8 \<noteq> 0 then bits div 8 + REG_SIZE else bits div 8)
           in bytes div REG_SIZE)"

definition dist_total_words :: "u32 \<Rightarrow> u32" where
  "dist_total_words num_irq = sum_list (map (\<lambda>r. dist_reg_words r num_irq) VGIC_DIST_REGS)"

definition num_irq_from_dist_len :: "nat \<Rightarrow> u32 option" where
  "num_irq_from_dist_len len = find (\<lambda>n. unat (dist_total_words n) = len) (map (\<lambda>k. of_nat k * 32) [1..<33])"

definition reg_start :: "dist_reg \<Rightarrow> u32" where
  "reg_start reg = reg_base reg + REG_SIZE * ucast (bpi reg)"

function router_pairs ::
  "u32 list \<Rightarrow> bool \<Rightarrow> nat \<Rightarrow> nat \<Rightarrow> u32 \<Rightarrow> nat \<Rightarrow> (u32 \<times> u64) list \<Rightarrow> (nat \<times> (u32 \<times> u64) list) option" where
  "router_pairs dist restore words w off idx out =
     (if w < words
      then if idx + 1 < length dist
           then router_pairs dist restore words (w + 2) (off + 8) (idx + 2)
                  (if restore then out @ [(off, ucast (dist ! idx) OR push_bit 32 (ucast (dist ! (idx + 1))))] else out)
           else None
      else Some (idx, out))"
  by auto
termination by (relation "measure (\<lambda>(dist, restore, words, w, off, idx, out). words - w)") auto

fun reg_words_in ::
  "u32 list \<Rightarrow> bool \<Rightarrow> u32 \<Rightarrow> nat list \<Rightarrow> nat \<Rightarrow> (u32 \<times> u64) list \<Rightarrow> (nat \<times> (u32 \<times> u64) list) option" where
  "reg_words_in dist restore start [] idx out = Some (idx, out)"
| "reg_words_in dist restore start (k # ks) idx out =
     (if idx < length dist
      then reg_words_in dist restore start ks (idx + 1)
             (if restore then out @ [(start + of_nat k * REG_SIZE, ucast (dist ! idx))] else out)
      else None)"

fun dist_walk :: "u32 list \<Rightarrow> u32 \<Rightarrow> dist_reg list \<Rightarrow> nat \<Rightarrow> (u32 \<times> u64) list \<Rightarrow> (nat \<times> (u32 \<times> u64) list) option" where
  "dist_walk dist num_irq [] idx out = Some (idx, out)"
| "dist_walk dist num_irq (reg # regs) idx out =
     (let words = unat (dist_reg_words reg num_irq)
      in case (if bpi reg = 64 then router_pairs dist (reg_restore reg) words 0 (reg_start reg) idx out
               else reg_words_in dist (reg_restore reg) (reg_start reg) [0..<words] idx out) of
           None \<Rightarrow> None
         | Some (idx', out') \<Rightarrow> dist_walk dist num_irq regs idx' out')"

definition dist_to_hvf :: "u32 list \<Rightarrow> (u32 \<times> u64) list option" where
  "dist_to_hvf dist =
     (case num_irq_from_dist_len (length dist) of
        None \<Rightarrow> None
      | Some num_irq \<Rightarrow>
          (case dist_walk dist num_irq VGIC_DIST_REGS 0 [] of
             None \<Rightarrow> None
           | Some (idx, out) \<Rightarrow> if idx = length dist then Some out else None))"

function router_dump :: "distributor \<Rightarrow> nat \<Rightarrow> nat \<Rightarrow> u32 \<Rightarrow> u32 list" where
  "router_dump d words w intid =
     (if w < words
      then let v = router_of d intid in ucast v # ucast (drop_bit 32 v) # router_dump d words (w + 2) (intid + 1)
      else [])"
  by auto
termination by (relation "measure (\<lambda>(d, words, w, intid). words - w)") auto

definition reg_dump :: "distributor \<Rightarrow> u32 \<Rightarrow> dist_reg \<Rightarrow> u32 list" where
  "reg_dump d num_irq reg =
     (let words = unat (dist_reg_words reg num_irq)
      in if bpi reg = 64 then router_dump d words 0 SPI_BASE
         else map (\<lambda>k. gicd_read d (ucast (reg_start reg + of_nat k * REG_SIZE))) [0..<words])"

definition dist_from_softgic :: "distributor \<Rightarrow> u32 list option" where
  "dist_from_softgic d =
     (let out = concat (map (reg_dump d (num_irqs d)) VGIC_DIST_REGS)
      in if num_irq_from_dist_len (length out) = Some (num_irqs d) then Some out else None)"

function router_offsets :: "bool \<Rightarrow> nat \<Rightarrow> nat \<Rightarrow> u32 \<Rightarrow> u32 list" where
  "router_offsets restore words w off =
     (if w < words then (if restore then [off] else []) @ router_offsets restore words (w + 2) (off + 8) else [])"
  by auto
termination by (relation "measure (\<lambda>(restore, words, w, off). words - w)") auto

definition dist_capture_offsets :: "u32 \<Rightarrow> u32 list" where
  "dist_capture_offsets num_irq =
     concat (map (\<lambda>reg. let words = unat (dist_reg_words reg num_irq)
                        in if bpi reg = 64 then router_offsets (reg_restore reg) words 0 (reg_start reg)
                           else if reg_restore reg then map (\<lambda>k. reg_start reg + of_nat k * REG_SIZE) [0..<words] else [])
              VGIC_DIST_REGS)"

subsection \<open>Redistributor dump\<close>

record rdist_reg =
  rreg_base :: u32
  rreg_length :: u8

definition GICR_SGI_OFFSET32 :: u32 where "GICR_SGI_OFFSET32 = 0x10000"

definition VGIC_RDIST_REGS :: "rdist_reg list" where
  "VGIC_RDIST_REGS =
     [\<lparr>rreg_base = 0x0010, rreg_length = 4\<rparr>, \<lparr>rreg_base = 0x0014, rreg_length = 4\<rparr>,
      \<lparr>rreg_base = 0x0070, rreg_length = 8\<rparr>, \<lparr>rreg_base = 0x0078, rreg_length = 8\<rparr>,
      \<lparr>rreg_base = 0x0000, rreg_length = 4\<rparr>,
      \<lparr>rreg_base = GICR_SGI_OFFSET32 + 0x0080, rreg_length = 4\<rparr>,
      \<lparr>rreg_base = GICR_SGI_OFFSET32 + 0x0180, rreg_length = 4\<rparr>,
      \<lparr>rreg_base = GICR_SGI_OFFSET32 + 0x0100, rreg_length = 4\<rparr>,
      \<lparr>rreg_base = GICR_SGI_OFFSET32 + 0x0c00, rreg_length = 8\<rparr>,
      \<lparr>rreg_base = GICR_SGI_OFFSET32 + 0x0280, rreg_length = 4\<rparr>,
      \<lparr>rreg_base = GICR_SGI_OFFSET32 + 0x0200, rreg_length = 4\<rparr>,
      \<lparr>rreg_base = GICR_SGI_OFFSET32 + 0x0380, rreg_length = 4\<rparr>,
      \<lparr>rreg_base = GICR_SGI_OFFSET32 + 0x0300, rreg_length = 4\<rparr>,
      \<lparr>rreg_base = GICR_SGI_OFFSET32 + 0x0400, rreg_length = 32\<rparr>]"

definition rreg_words :: "rdist_reg \<Rightarrow> nat" where
  "rreg_words reg = unat (rreg_length reg) div 4"

definition redist_words_per_vcpu :: nat where
  "redist_words_per_vcpu = sum_list (map rreg_words VGIC_RDIST_REGS)"

definition redist_rd_base_words :: nat where
  "redist_rd_base_words = sum_list (map rreg_words (filter (\<lambda>r. rreg_base r < GICR_SGI_OFFSET32) VGIC_RDIST_REGS))"

fun redist_walk :: "u32 list \<Rightarrow> rdist_reg list \<Rightarrow> nat \<Rightarrow> (u32 \<times> u64) list \<Rightarrow> (u32 \<times> u64) list option" where
  "redist_walk rdist [] idx out = Some out"
| "redist_walk rdist (reg # regs) idx out =
     (case reg_words_in rdist (GICR_SGI_OFFSET32 \<le> rreg_base reg) (rreg_base reg) [0..<rreg_words reg] idx out of
        None \<Rightarrow> None
      | Some (idx', out') \<Rightarrow> redist_walk rdist regs idx' out')"

definition redist_to_hvf :: "u32 list \<Rightarrow> (u32 \<times> u64) list option" where
  "redist_to_hvf rdist =
     (if length rdist \<noteq> redist_words_per_vcpu then None else redist_walk rdist VGIC_RDIST_REGS 0 [])"

definition redist_from_softgic :: "redistributor \<Rightarrow> u32 list" where
  "redist_from_softgic rd =
     concat (map (\<lambda>reg. map (\<lambda>k. gicr_read rd (ucast (rreg_base reg + of_nat k * REG_SIZE))) [0..<rreg_words reg])
              VGIC_RDIST_REGS)"

definition rdist_capture_offsets :: "u32 list" where
  "rdist_capture_offsets =
     concat (map (\<lambda>reg. if rreg_base reg < GICR_SGI_OFFSET32 then []
                        else map (\<lambda>k. rreg_base reg + of_nat k * REG_SIZE) [0..<rreg_words reg]) VGIC_RDIST_REGS)"

declare router_pairs.simps [simp del] router_dump.simps [simp del] router_offsets.simps [simp del]

subsection \<open>The CPU-interface vector\<close>

lemma icc_walk_spec:
  "icc_walk p icc encs idx out =
    (let es = filter (\<lambda>e. \<not> icc_skipped p e) encs
     in if idx + length es \<le> length icc \<or> es = [] then Some (idx + length es, out @ zip es (map ucast (drop idx icc))) else None)"
proof (induction encs arbitrary: idx out)
  case (Cons e encs)
  show ?case
  proof (cases "icc_skipped p e \<or> \<not> idx < length icc")
    case True
    then show ?thesis using Cons.IH by (auto simp: Let_def)
  next
    case False
    then have "drop idx icc = icc ! idx # drop (idx + 1) icc" by (simp add: Cons_nth_drop_Suc)
    with False show ?thesis unfolding icc_walk.simps Cons.IH Let_def by auto
  qed
qed simp

definition icc_set :: "u64 \<Rightarrow> u16 list" where
  "icc_set p = filter (\<lambda>e. \<not> icc_skipped p e) VGIC_ICC_ORDER"

lemmas icc_defs = ICC_SRE_EL1_def ICC_CTLR_EL1_def ICC_IGRPEN0_EL1_def ICC_IGRPEN1_EL1_def ICC_PMR_EL1_def
  ICC_BPR0_EL1_def ICC_BPR1_EL1_def ICC_AP0R0_EL1_def ICC_AP0R1_EL1_def ICC_AP0R2_EL1_def ICC_AP0R3_EL1_def
  ICC_AP1R0_EL1_def ICC_AP1R1_EL1_def ICC_AP1R2_EL1_def ICC_AP1R3_EL1_def

lemma distinct_icc_set: "distinct (icc_set p)"
proof -
  have "distinct VGIC_ICC_ORDER" by (simp add: VGIC_ICC_ORDER_def icc_defs)
  then show ?thesis by (simp add: icc_set_def)
qed

lemma icc_set_ctlr: "2 \<le> length (icc_set p)" "icc_set p ! 1 = ICC_CTLR_EL1"
  by (simp_all add: icc_set_def VGIC_ICC_ORDER_def icc_skipped_def is_ap_r1_def is_ap_r2_or_r3_def icc_defs)

lemma icc_to_hvf_spec:
  "icc_to_hvf icc =
    (let es = icc_set (pribits_of (ucast (icc ! 1)))
     in if length icc = length es then Some (zip es (map ucast icc)) else None)"
  using icc_set_ctlr(1) [of "pribits_of (ucast (icc ! 1))"]
  by (auto simp: icc_to_hvf_def icc_walk_spec icc_set_def [symmetric] Let_def)

lemma icc_from_hvf_spec:
  "icc_from_hvf regs =
    (case lookup regs ICC_CTLR_EL1 of
       None \<Rightarrow> None
     | Some ctlr \<Rightarrow> Some (map (\<lambda>e. ucast (or_zero (lookup regs e))) (icc_set (pribits_of ctlr))))"
  by (auto simp: icc_from_hvf_def lookup_def icc_set_def or_zero_def split: option.split)

lemma lookup_zip: "distinct es \<Longrightarrow> length es = length vs \<Longrightarrow> i < length es \<Longrightarrow> lookup (zip es vs) (es ! i) = Some (vs ! i)"
proof (induction es vs arbitrary: i rule: list_induct2')
  case (4 e es v vs)
  then show ?case by (cases i) auto
qed simp_all

lemma lookup_zip_all: "distinct es \<Longrightarrow> length es = length vs \<Longrightarrow> map (\<lambda>e. lookup (zip es vs) e) es = map Some vs"
  by (rule nth_equalityI) (simp_all add: lookup_zip)

lemma pribits_low: "pribits_of (ucast (ucast c :: u32)) = pribits_of c"
proof -
  have "(7 :: u64) = mask 3" by (simp add: mask_eq_exp_minus_1)
  moreover have "drop_bit 8 (ucast (ucast c :: u32)) AND mask 3 = drop_bit 8 c AND mask 3"
    by (rule bit_word_eqI) (auto simp: bit_simps)
  ultimately show ?thesis by (simp add: pribits_of_def)
qed

text \<open>
  C26. The two directions of the CPU-interface vector are inverse: a vector KVM dumped is reproduced
  exactly from the registers it decodes to, and a set of registers that names the control
  register serializes to a vector that decodes to the registers KVM dumps at that priority
  width, each with the low half of the value given or zero.
\<close>

theorem icc_round_trip:
  "(\<forall>icc regs. icc_to_hvf icc = Some regs \<longrightarrow> icc_from_hvf regs = Some icc) \<and>
   (\<forall>regs ctlr. lookup regs ICC_CTLR_EL1 = Some ctlr \<longrightarrow>
     (\<exists>icc. icc_from_hvf regs = Some icc \<and>
        icc_to_hvf icc = Some (map (\<lambda>e. (e, ucast (ucast (or_zero (lookup regs e)) :: u32))) (icc_set (pribits_of ctlr)))))"
proof (intro conjI allI impI)
  fix icc regs assume "icc_to_hvf icc = Some regs"
  moreover define es where "es = icc_set (pribits_of (ucast (icc ! 1)))"
  ultimately have len: "length icc = length es" and r: "regs = zip es (map ucast icc)"
    by (auto simp: icc_to_hvf_spec Let_def split: if_splits)
  have d: "distinct es" "2 \<le> length es" "es ! 1 = ICC_CTLR_EL1"
    unfolding es_def by (rule distinct_icc_set, rule icc_set_ctlr(1), rule icc_set_ctlr(2))
  have c: "lookup regs ICC_CTLR_EL1 = Some (ucast (icc ! 1))"
    using lookup_zip [OF d(1), of "map ucast icc" 1] d len by (simp add: r)
  have u: "(ucast (ucast x :: u64) :: u32) = x" for x by (rule bit_word_eqI) (simp add: bit_simps)
  have "map (\<lambda>e. ucast (or_zero (lookup regs e))) es = map (\<lambda>v. ucast (or_zero v)) (map (\<lambda>e. lookup regs e) es)" by simp
  also have "\<dots> = map (\<lambda>v. ucast (or_zero v)) (map Some (map ucast icc))"
    unfolding r by (subst lookup_zip_all) (simp_all add: d len)
  also have "\<dots> = icc" by (simp add: or_zero_def comp_def u)
  finally show "icc_from_hvf regs = Some icc" using c by (simp add: icc_from_hvf_spec es_def)
next
  fix regs :: "(u16 \<times> u64) list" and ctlr assume c: "lookup regs ICC_CTLR_EL1 = Some ctlr"
  define es where "es = icc_set (pribits_of ctlr)"
  define icc :: "u32 list" where "icc = map (\<lambda>e. ucast (or_zero (lookup regs e))) es"
  have f: "icc_from_hvf regs = Some icc" using c by (simp add: icc_from_hvf_spec icc_def es_def)
  have "icc ! 1 = ucast ctlr"
    using icc_set_ctlr [of "pribits_of ctlr"] c by (simp add: icc_def es_def or_zero_def)
  then have "icc_set (pribits_of (ucast (icc ! 1))) = es" by (simp add: pribits_low es_def)
  then have "icc_to_hvf icc = Some (map (\<lambda>e. (e, ucast (ucast (or_zero (lookup regs e)) :: u32))) es)"
    unfolding icc_to_hvf_spec Let_def by (simp add: icc_def comp_def zip_map2 zip_same_conv_map)
  with f show "\<exists>icc. icc_from_hvf regs = Some icc \<and>
      icc_to_hvf icc = Some (map (\<lambda>e. (e, ucast (ucast (or_zero (lookup regs e)) :: u32))) (icc_set (pribits_of ctlr)))"
    by (auto simp: es_def)
qed

theorem icc_round_trip_witness:
  "\<exists>icc. icc_from_hvf [(ICC_PMR_EL1, 0xf0), (ICC_CTLR_EL1, 0x400)] = Some icc \<and> length icc = 9"
proof -
  let ?r = "[(ICC_PMR_EL1, 0xf0), (ICC_CTLR_EL1, 0x400)]"
  have l: "lookup ?r ICC_CTLR_EL1 = Some 0x400" by (simp add: icc_defs)
  obtain icc where "icc_from_hvf ?r = Some icc"
    "icc_to_hvf icc = Some (map (\<lambda>e. (e, ucast (ucast (or_zero (lookup ?r e)) :: u32))) (icc_set (pribits_of 0x400)))"
    using conjunct2 [OF icc_round_trip] l by blast
  moreover have "length (icc_set (pribits_of 0x400)) = 9"
    by (simp add: pribits_of_def icc_set_def VGIC_ICC_ORDER_def icc_skipped_def is_ap_r1_def is_ap_r2_or_r3_def icc_defs)
  ultimately show ?thesis by (auto simp: icc_to_hvf_spec Let_def split: if_splits dest!: arg_cong [where f = length])
qed

subsection \<open>The distributor dump\<close>

text \<open>A distributor of \<open>32 * (m + 1)\<close> interrupts dumps \<open>b * m\<close> words of a bank with \<open>b\<close> bits per interrupt.\<close>

definition width :: "nat \<Rightarrow> u32" where
  "width m = of_nat (32 * (m + 1))"

lemma bank_words:
  assumes "reg_length reg = 0" "m < 32"
  shows "unat (dist_reg_words reg (width m)) = unat (bpi reg) * m"
proof -
  define q where "q = unat (bpi reg) * m"
  have b: "unat (bpi reg) < 256" using unsigned_less [of "bpi reg"] by simp
  then have "q \<le> 255 * 31" unfolding q_def using assms(2) by (intro mult_mono) simp_all
  then have u: "unat (of_nat (32 * q) :: u32) = 32 * q" by (intro unat_of_nat_lt) simp
  have "width m - SPI_BASE = of_nat (32 * m)" by (simp add: SPI_BASE_def width_def)
  moreover have "ucast (bpi reg) = (of_nat (unat (bpi reg)) :: u32)" by simp
  ultimately have e: "ucast (bpi reg) * (width m - SPI_BASE) = (of_nat (32 * q) :: u32)" by (simp add: q_def)
  have z: "(of_nat (32 * q) :: u32) mod 8 = 0" unfolding word_unat_eq_iff unat_mod u by simp
  have d: "unat ((of_nat (32 * q) :: u32) div 8 div REG_SIZE) = q"
    unfolding REG_SIZE_def unat_div u by simp
  show ?thesis unfolding dist_reg_words_def Let_def e z using assms(1) d by (simp add: q_def)
qed

lemma status_words: "unat (dist_reg_words \<lparr>reg_base = b, bpi = 0, reg_length = 4, reg_restore = r\<rparr> n) = 1"
  by (simp add: dist_reg_words_def REG_SIZE_def)

lemma total_words: "m < 32 \<Longrightarrow> unat (dist_total_words (width m)) = 81 * m + 1"
proof -
  assume m: "m < 32"
  have n: "dist_reg_words r n = of_nat (unat (dist_reg_words r n))" for r n by simp
  have w: "dist_reg_words \<lparr>reg_base = b, bpi = p, reg_length = 0, reg_restore = True\<rparr> (width m) = of_nat (unat p * m)" for b p
    by (rule trans [OF n]) (simp only: bank_words [OF _ m] dist_reg.simps)
  have st: "dist_reg_words \<lparr>reg_base = b, bpi = 0, reg_length = 4, reg_restore = r\<rparr> (width m) = of_nat 1" for b r
    by (rule trans [OF n]) (simp only: status_words)
  have "dist_total_words (width m) = of_nat (81 * m + 1)"
    unfolding dist_total_words_def VGIC_DIST_REGS_def list.map sum_list.Cons sum_list.Nil w st by simp
  moreover have "unat (of_nat (81 * m + 1) :: u32) = 81 * m + 1" using m by (intro unat_of_nat_lt) simp
  ultimately show ?thesis by (simp only:)
qed

lemma find_index:
  assumes "k < length xs" "P (xs ! k)" "\<And>j. j < k \<Longrightarrow> \<not> P (xs ! j)"
  shows "find P xs = Some (xs ! k)"
  using assms by (auto simp: find_Some_iff)

lemma width_recovered: "m < 32 \<Longrightarrow> num_irq_from_dist_len (81 * m + 1) = Some (width m)"
proof -
  assume m: "m < 32"
  let ?ws = "map (\<lambda>k. of_nat k * 32) [1..<33] :: u32 list"
  have nth: "?ws ! j = width j" if "j < 32" for j using that by (simp add: width_def)
  have "find (\<lambda>n. unat (dist_total_words n) = 81 * m + 1) ?ws = Some (?ws ! m)"
    using m by (intro find_index) (simp_all only: nth total_words, simp_all)
  then show ?thesis unfolding num_irq_from_dist_len_def nth [OF m] .
qed

lemma reg_words_in_spec:
  "reg_words_in dist r start ks idx out =
    (if idx + length ks \<le> length dist \<or> ks = []
     then Some (idx + length ks, out @ (if r then map2 (\<lambda>k v. (start + of_nat k * REG_SIZE, ucast v)) ks (drop idx dist) else []))
     else None)"
proof (induction ks arbitrary: idx out)
  case (Cons k ks)
  show ?case
  proof (cases "idx < length dist")
    case True
    then have "drop idx dist = dist ! idx # drop (idx + 1) dist" by (simp add: Cons_nth_drop_Suc)
    with True show ?thesis unfolding reg_words_in.simps Cons.IH by auto
  qed auto
qed simp

lemma router_pairs_spec:
  "router_pairs dist r (2 * (j + m)) (2 * j) off (length pre) out =
     Some (length pre + 2 * m, out @ (if r then map (\<lambda>i. (off + of_nat i * 8, vs i)) [0..<m] else []))"
  if "dist = pre @ concat (map (\<lambda>i. [ucast (vs i), ucast (drop_bit 32 (vs i))]) [0..<m]) @ post"
  using that
proof (induction m arbitrary: j off pre out vs)
  case 0
  then show ?case by (subst router_pairs.simps) simp
next
  case (Suc m)
  let ?p = "pre @ [ucast (vs 0), ucast (drop_bit 32 (vs 0))]"
  have split: "[0..<Suc m] = 0 # map Suc [0..<m]" by (simp only: upt_conv_Cons zero_less_Suc map_Suc_upt)
  then have d: "dist = ?p @ concat (map (\<lambda>i. [ucast (vs (Suc i)), ucast (drop_bit 32 (vs (Suc i)))]) [0..<m]) @ post"
    using Suc.prems by (simp add: comp_def del: upt_Suc)
  have v: "ucast (ucast (vs 0) :: u32) OR push_bit 32 (ucast (ucast (drop_bit 32 (vs 0)) :: u32)) = vs 0"
    by (rule bit_word_eqI) (auto simp: bit_simps)
  have n: "dist ! length pre = ucast (vs 0)" "dist ! (length pre + 1) = ucast (drop_bit 32 (vs 0))" "length pre + 1 < length dist"
    unfolding d by (simp_all add: nth_append)
  have ih: "router_pairs dist r (2 * (Suc j + m)) (2 * Suc j) (off + 8) (length ?p) out' =
      Some (length ?p + 2 * m, out' @ (if r then map (\<lambda>i. (off + 8 + of_nat i * 8, vs (Suc i))) [0..<m] else []))" for out'
    by (rule Suc.IH [where vs = "\<lambda>i. vs (Suc i)"]) (rule d)
  have s: "2 * (j + Suc m) = 2 * (Suc j + m)" "2 * j + 2 = 2 * Suc j" "length pre + 2 = length ?p" by simp_all
  have "router_pairs dist r (2 * (j + Suc m)) (2 * j) off (length pre) out =
      router_pairs dist r (2 * (Suc j + m)) (2 * Suc j) (off + 8) (length ?p) (if r then out @ [(off, vs 0)] else out)"
    by (subst router_pairs.simps) (simp only: n v s, simp)
  then show ?case unfolding ih split by (simp add: comp_def algebra_simps)
qed

lemma router_dump_spec:
  "router_dump d (2 * (j + m)) (2 * j) intid =
    concat (map (\<lambda>i. [ucast (router_of d (intid + of_nat i)), ucast (drop_bit 32 (router_of d (intid + of_nat i)))]) [0..<m])"
proof (induction m arbitrary: j intid)
  case 0
  then show ?case by (subst router_dump.simps) simp
next
  case (Suc m)
  have split: "[0..<Suc m] = 0 # map Suc [0..<m]" by (simp only: upt_conv_Cons zero_less_Suc map_Suc_upt)
  have s: "2 * (j + Suc m) = 2 * (Suc j + m)" "2 * j + 2 = 2 * Suc j" by simp_all
  have "router_dump d (2 * (j + Suc m)) (2 * j) intid =
      ucast (router_of d intid) # ucast (drop_bit 32 (router_of d intid)) # router_dump d (2 * (Suc j + m)) (2 * Suc j) (intid + 1)"
    by (subst router_dump.simps) (simp only: s Let_def, simp)
  then show ?case unfolding Suc.IH split by (simp add: comp_def algebra_simps)
qed

definition reg_writes :: "distributor \<Rightarrow> nat \<Rightarrow> dist_reg \<Rightarrow> (u32 \<times> u64) list" where
  "reg_writes d m reg =
     (if \<not> reg_restore reg then []
      else if bpi reg = 64 then map (\<lambda>i. (reg_start reg + of_nat i * 8, router_of d (SPI_BASE + of_nat i))) [0..<32 * m]
      else map (\<lambda>k. (reg_start reg + of_nat k * REG_SIZE, ucast (gicd_read d (ucast (reg_start reg + of_nat k * REG_SIZE)))))
             [0..<unat (dist_reg_words reg (width m))])"

abbreviation bank_ok :: "dist_reg \<Rightarrow> bool" where
  "bank_ok reg \<equiv> bpi reg = 64 \<longrightarrow> reg_length reg = 0"

abbreviation walk_reg :: "u32 list \<Rightarrow> nat \<Rightarrow> dist_reg \<Rightarrow> nat \<Rightarrow> (u32 \<times> u64) list \<Rightarrow> (nat \<times> (u32 \<times> u64) list) option" where
  "walk_reg dist m reg idx out \<equiv>
     (if bpi reg = 64 then router_pairs dist (reg_restore reg) (unat (dist_reg_words reg (width m))) 0 (reg_start reg) idx out
      else reg_words_in dist (reg_restore reg) (reg_start reg) [0..<unat (dist_reg_words reg (width m))] idx out)"

lemma router_words:
  assumes "m < 32" "bank_ok reg" "bpi reg = 64"
  shows "unat (dist_reg_words reg (width m)) = 2 * (32 * m)"
proof -
  have "unat (dist_reg_words reg (width m)) = unat (bpi reg) * m" using assms by (intro bank_words) simp_all
  then show ?thesis using assms(3) by simp
qed

lemma map2_prefix: "length ys = length xs \<Longrightarrow> map2 f xs (ys @ zs) = map2 f xs ys"
  by (simp add: zip_append2)

lemma walk_reg_dump:
  assumes "m < 32" "bank_ok reg" "dist = pre @ reg_dump d (width m) reg @ post"
  shows "walk_reg dist m reg (length pre) out = Some (length pre + length (reg_dump d (width m) reg), out @ reg_writes d m reg)"
proof (cases "bpi reg = 64")
  case True
  note w = router_words [OF assms(1,2) True]
  let ?vs = "\<lambda>i. router_of d (SPI_BASE + of_nat i)"
  have dump: "reg_dump d (width m) reg = concat (map (\<lambda>i. [ucast (?vs i), ucast (drop_bit 32 (?vs i))]) [0..<32 * m])"
    using router_dump_spec [of d 0 "32 * m" SPI_BASE] True by (simp only: reg_dump_def Let_def w simp_thms if_True mult_0_right add_0)
  have len: "length (reg_dump d (width m) reg) = 2 * (32 * m)"
    unfolding dump by (simp add: length_concat comp_def sum_list_triv)
  show ?thesis
    using router_pairs_spec [of dist pre ?vs "32 * m" post "reg_restore reg" 0 "reg_start reg" out] assms(3) True
    by (simp only: len w dump reg_writes_def simp_thms if_True add_0 mult_0_right)
      (simp add: length_concat comp_def sum_list_triv)
next
  case False
  let ?ks = "[0..<unat (dist_reg_words reg (width m))]"
  have dump: "reg_dump d (width m) reg = map (\<lambda>k. gicd_read d (ucast (reg_start reg + of_nat k * REG_SIZE))) ?ks"
    using False by (simp add: reg_dump_def Let_def)
  have "map2 (\<lambda>k v. (reg_start reg + of_nat k * REG_SIZE, ucast v :: u64)) ?ks (reg_dump d (width m) reg) =
      map (\<lambda>k. (reg_start reg + of_nat k * REG_SIZE, ucast (gicd_read d (ucast (reg_start reg + of_nat k * REG_SIZE))))) ?ks"
    unfolding dump by (simp add: zip_map2 zip_same_conv_map)
  then have "map2 (\<lambda>k v. (reg_start reg + of_nat k * REG_SIZE, ucast v :: u64)) ?ks (drop (length pre) dist) =
      map (\<lambda>k. (reg_start reg + of_nat k * REG_SIZE, ucast (gicd_read d (ucast (reg_start reg + of_nat k * REG_SIZE))))) ?ks"
    unfolding assms(3) by (simp add: map2_prefix dump)
  then show ?thesis using False assms(3) by (simp add: reg_words_in_spec reg_writes_def dump)
qed

lemma dist_walk_dump:
  assumes "m < 32" "\<And>reg. reg \<in> set regs \<Longrightarrow> bank_ok reg" "dist = pre @ concat (map (reg_dump d (width m)) regs)"
  shows "dist_walk dist (width m) regs (length pre) out = Some (length dist, out @ concat (map (reg_writes d m) regs))"
  using assms(2,3)
proof (induction regs arbitrary: pre out)
  case (Cons reg regs)
  let ?pre = "pre @ reg_dump d (width m) reg"
  have w: "walk_reg dist m reg (length pre) out = Some (length ?pre, out @ reg_writes d m reg)"
    using Cons.prems walk_reg_dump [OF assms(1), of reg dist pre d _ out] by simp
  have ih: "dist_walk dist (width m) regs (length ?pre) (out @ reg_writes d m reg) =
      Some (length dist, (out @ reg_writes d m reg) @ concat (map (reg_writes d m) regs))"
    using Cons.prems by (intro Cons.IH) simp_all
  show ?case unfolding dist_walk.simps Let_def w option.case prod.case ih by simp
qed simp

lemma dist_regs_ok: "reg \<in> set VGIC_DIST_REGS \<Longrightarrow> bank_ok reg"
  by (auto simp: VGIC_DIST_REGS_def)

lemma length_reg_dump: "m < 32 \<Longrightarrow> bank_ok reg \<Longrightarrow> length (reg_dump d (width m) reg) = unat (dist_reg_words reg (width m))"
  using router_dump_spec [of d 0 "32 * m" SPI_BASE]
  by (cases "bpi reg = 64")
    (simp_all only: reg_dump_def Let_def router_words simp_thms if_True if_False mult_0_right add_0 length_map length_upt,
     simp_all add: length_concat comp_def sum_list_triv)

lemma length_dump:
  assumes "m < 32"
  shows "length (concat (map (reg_dump d (width m)) VGIC_DIST_REGS)) = 81 * m + 1"
proof -
  have "map (length \<circ> reg_dump d (width m)) VGIC_DIST_REGS = map (\<lambda>r. unat (dist_reg_words r (width m))) VGIC_DIST_REGS"
    using assms dist_regs_ok by (intro map_cong) (simp_all add: length_reg_dump)
  moreover have "unat (dist_reg_words \<lparr>reg_base = b, bpi = p, reg_length = 0, reg_restore = True\<rparr> (width m)) = unat p * m" for b p
    using bank_words [OF _ assms] by simp
  ultimately show ?thesis
    unfolding length_concat map_map VGIC_DIST_REGS_def by (simp only: list.map sum_list.Cons sum_list.Nil status_words) simp
qed

lemma capture_translate:
  assumes "m < 32" "num_irqs d = width m"
  shows "dist_from_softgic d = Some (concat (map (reg_dump d (width m)) VGIC_DIST_REGS))"
    "dist_to_hvf (concat (map (reg_dump d (width m)) VGIC_DIST_REGS)) = Some (concat (map (reg_writes d m) VGIC_DIST_REGS))"
proof -
  show "dist_from_softgic d = Some (concat (map (reg_dump d (width m)) VGIC_DIST_REGS))"
    unfolding dist_from_softgic_def assms(2) Let_def length_dump [OF assms(1)] width_recovered [OF assms(1)] by simp
  have "dist_walk (concat (map (reg_dump d (width m)) VGIC_DIST_REGS)) (width m) VGIC_DIST_REGS (length ([] :: u32 list)) [] =
      Some (length (concat (map (reg_dump d (width m)) VGIC_DIST_REGS)), [] @ concat (map (reg_writes d m) VGIC_DIST_REGS))"
    by (rule dist_walk_dump [OF assms(1) dist_regs_ok]) simp_all
  then show "dist_to_hvf (concat (map (reg_dump d (width m)) VGIC_DIST_REGS)) = Some (concat (map (reg_writes d m) VGIC_DIST_REGS))"
    unfolding dist_to_hvf_def length_dump [OF assms(1)] width_recovered [OF assms(1)] by simp
qed

lemma router_offsets_spec: "router_offsets r (2 * (j + m)) (2 * j) off = (if r then map (\<lambda>i. off + of_nat i * 8) [0..<m] else [])"
proof (induction m arbitrary: j off)
  case 0
  then show ?case by (subst router_offsets.simps) simp
next
  case (Suc m)
  have split: "[0..<Suc m] = 0 # map Suc [0..<m]" by (simp only: upt_conv_Cons zero_less_Suc map_Suc_upt)
  have s: "2 * (j + Suc m) = 2 * (Suc j + m)" "2 * j + 2 = 2 * Suc j" by simp_all
  have "router_offsets r (2 * (j + Suc m)) (2 * j) off =
      (if r then [off] else []) @ router_offsets r (2 * (Suc j + m)) (2 * Suc j) (off + 8)"
    by (subst router_offsets.simps) (simp only: s, simp)
  then show ?case unfolding Suc.IH split by (simp add: comp_def algebra_simps)
qed

lemma writes_offsets:
  assumes "m < 32"
  shows "map fst (concat (map (reg_writes d m) VGIC_DIST_REGS)) = dist_capture_offsets (width m)"
proof -
  have "map fst (reg_writes d m reg) =
      (if bpi reg = 64 then router_offsets (reg_restore reg) (unat (dist_reg_words reg (width m))) 0 (reg_start reg)
       else if reg_restore reg then map (\<lambda>k. reg_start reg + of_nat k * REG_SIZE) [0..<unat (dist_reg_words reg (width m))] else [])"
    if "reg \<in> set VGIC_DIST_REGS" for reg
  proof (cases "bpi reg = 64")
    case True
    show ?thesis using router_offsets_spec [of "reg_restore reg" 0 "32 * m" "reg_start reg"] True
      by (simp only: router_words [OF assms dist_regs_ok [OF that] True] reg_writes_def simp_thms if_True add_0 mult_0_right) simp
  qed (simp add: reg_writes_def)
  then show ?thesis
    unfolding dist_capture_offsets_def Let_def map_concat map_map by (intro arg_cong [where f = concat] map_cong) simp_all
qed

subsection \<open>Seeding from the translated dump\<close>

definition graft :: "nat \<Rightarrow> nat \<Rightarrow> 'a list \<Rightarrow> 'a list \<Rightarrow> 'a list" where
  "graft lo hi xs ys = map (\<lambda>i. if lo \<le> i \<and> i < hi then ys ! i else xs ! i) [0..<length xs]"

lemma length_graft [simp]: "length (graft lo hi xs ys) = length xs"
  by (simp add: graft_def)

lemma graft_nth [simp]: "i < length xs \<Longrightarrow> graft lo hi xs ys ! i = (if lo \<le> i \<and> i < hi then ys ! i else xs ! i)"
  by (simp add: graft_def)

lemma graft_empty [simp]: "graft lo lo xs ys = xs"
  by (rule nth_equalityI) auto

lemma graft_graft: "lo \<le> mid \<Longrightarrow> mid \<le> hi \<Longrightarrow> graft mid hi (graft lo mid xs ys) ys = graft lo hi xs ys"
  by (rule nth_equalityI) auto

lemma fold_put_graft:
  assumes "\<And>b. b < n \<Longrightarrow> base + b < length xs \<Longrightarrow> f b = ys ! (base + b)"
  shows "fold (\<lambda>b xs. xs[base + b := f b]) [0..<n] xs = graft base (base + n) xs ys"
  by (rule nth_equalityI) (auto simp: fold_put_all_nth assms)

lemma foldl_graft:
  assumes "\<And>k xs. k < M \<Longrightarrow> length xs = L \<Longrightarrow> step (upd xs) (f k) = upd (graft (s * (c + k)) (s * (c + k) + s) xs ys)"
    and "length xs = L"
  shows "foldl step (upd xs) (map f [0..<M]) = upd (graft (s * c) (s * (c + M)) xs ys)"
  using assms(1)
proof (induction M)
  case (Suc M)
  have ih: "foldl step (upd xs) (map f [0..<M]) = upd (graft (s * c) (s * (c + M)) xs ys)" using Suc by simp
  have "step (upd (graft (s * c) (s * (c + M)) xs ys)) (f M) =
      upd (graft (s * (c + M)) (s * (c + M) + s) (graft (s * c) (s * (c + M)) xs ys) ys)"
    using assms(2) by (intro Suc.prems) simp_all
  moreover have "s * (c + M) + s = s * (c + Suc M)" by simp
  ultimately show ?case using graft_graft [of "s * c" "s * (c + M)" "s * (c + Suc M)" xs ys] ih by simp
qed simp

lemma seed_off:
  assumes "w < 4096" "unat c < 2 ^ 16"
  shows "(ucast (c + 4 * of_nat w :: u32) :: u64) = ucast c + 4 * of_nat w"
proof -
  have "unat (4 * of_nat w :: u32) = 4 * w" using assms by (subst unat_mult_no_wrap) (simp_all add: unat_of_nat_lt)
  moreover from this assms have "unat (c + 4 * of_nat w :: u32) = unat c + 4 * w" by (subst unat_add_no_wrap) simp_all
  moreover have "unat (ucast c + 4 * of_nat w :: u64) = unat (ucast c :: u64) + 4 * w"
    using assms by (intro unat_bank_off) (simp_all add: unat_ucast_up)
  ultimately show ?thesis unfolding word_unat_eq_iff by (simp add: unat_ucast_up)
qed

lemma seed_banks:
  "w < 32 \<Longrightarrow> gicd_seed d (0x0080 + 4 * of_nat w, x) = seed_bitmap d Group (4 * of_nat w) (ucast x)"
  "w < 32 \<Longrightarrow> gicd_seed d (0x0100 + 4 * of_nat w, x) = seed_bitmap d Enable (4 * of_nat w) (ucast x)"
  "w < 256 \<Longrightarrow> gicd_seed d (0x0400 + 4 * of_nat w, x) = write_priority d (4 * of_nat w) (ucast x)"
  "w < 64 \<Longrightarrow> gicd_seed d (0x0C00 + 4 * of_nat w, x) = write_cfgr d (4 * of_nat w) (ucast x)"
  "w < 2048 \<Longrightarrow> gicd_seed d (0x6000 + 4 * of_nat w, x) = d\<lparr>router := (router d)[unat ((4 * of_nat w :: u64) div 8) := x]\<rparr>"
  "w < 160 \<Longrightarrow> gicd_seed d (0x0180 + 4 * of_nat w, x) = d"
  by (simp_all add: gicd_seed_def seed_off Let_def bank_simps)

lemma ucast_back: "(ucast (ucast x :: u64) :: u32) = x"
  by (rule bit_word_eqI) (simp add: bit_simps)

lemma seed_word_bits:
  assumes "w < 32" "length xs = length ys"
  shows "fold (\<lambda>b xs. xs[unat ((4 * of_nat w :: u64) div 4 * 32) + b := bit (read_bitmap ys (4 * of_nat w)) b]) [0..<32] xs =
    graft (32 * w) (32 * w + 32) xs ys"
proof -
  have b: "unat ((4 * of_nat w :: u64) div 4 * 32) = 32 * w" using assms(1) by (intro bank_base) simp
  show ?thesis unfolding bit_read_bitmap b using assms(2) by (intro fold_put_graft) simp
qed

lemma seed_enable:
  assumes "w < 32" "length xs = length (enabled d)"
  shows "gicd_seed (e\<lparr>enabled := xs\<rparr>) (0x0100 + 4 * of_nat w, ucast (gicd_read d (0x0100 + 4 * of_nat w))) =
    e\<lparr>enabled := graft (32 * w) (32 * w + 32) xs (enabled d)\<rparr>"
  unfolding seed_banks(2) [OF assms(1)] gicd_read_banks(2) [OF assms(1)] ucast_back seed_bitmap_def on_field_def Let_def
  by (simp add: seed_word_bits assms)

lemma seed_group:
  assumes "w < 32" "length xs = length (group1 d)"
  shows "gicd_seed (e\<lparr>group1 := xs\<rparr>) (0x0080 + 4 * of_nat w, ucast (gicd_read d (0x0080 + 4 * of_nat w))) =
    e\<lparr>group1 := graft (32 * w) (32 * w + 32) xs (group1 d)\<rparr>"
  unfolding seed_banks(1) [OF assms(1)] gicd_read_banks(1) [OF assms(1)] ucast_back seed_bitmap_def on_field_def Let_def
  by (simp add: seed_word_bits assms)

lemma seed_cfgr:
  assumes "w < 64" "length xs = length (edge d)"
  shows "gicd_seed (e\<lparr>edge := xs\<rparr>) (0x0C00 + 4 * of_nat w, ucast (gicd_read d (0x0C00 + 4 * of_nat w))) =
    e\<lparr>edge := graft (16 * w) (16 * w + 16) xs (edge d)\<rparr>"
proof -
  have b: "unat ((4 * of_nat w :: u64) div 4 * 16) = 16 * w" using assms(1) by (intro bank_base) simp
  have f: "bit (read_cfgr d (4 * of_nat w)) (i * 2 + 1) = edge d ! (16 * w + i)" if "i < 16" "16 * w + i < length xs" for i
    using that assms(2) by (simp only: bit_read_cfgr b) simp
  have "fold (\<lambda>i es. es[16 * w + i := bit (read_cfgr d (4 * of_nat w)) (i * 2 + 1)]) [0..<16] xs =
      graft (16 * w) (16 * w + 16) xs (edge d)"
    by (intro fold_put_graft f)
  then show ?thesis
    unfolding seed_banks(4) [OF assms(1)] gicd_read_banks(3) [OF assms(1)] ucast_back write_cfgr_def Let_def b by simp
qed

lemma seed_priority:
  assumes "w < 256" "length xs = length (priority d)"
  shows "gicd_seed (e\<lparr>priority := xs\<rparr>) (0x0400 + 4 * of_nat w, ucast (gicd_read d (0x0400 + 4 * of_nat w))) =
    e\<lparr>priority := graft (4 * w) (4 * w + 4) xs (priority d)\<rparr>"
proof -
  have b: "unat (4 * of_nat w :: u64) = 4 * w" using assms(1) by (intro unat_word_off) simp
  have f: "ucast (drop_bit (i * 8) (read_priority d (4 * of_nat w))) = priority d ! (4 * w + i)"
    if "i < 4" "4 * w + i < length xs" for i
  proof (rule bit_word_eqI)
    fix n assume n: "n < LENGTH(8)"
    then have "(i * 8 + n) div 8 = i" "(i * 8 + n) mod 8 = n" "i * 8 + n < 32" using that(1) by simp_all
    then show "bit (ucast (drop_bit (i * 8) (read_priority d (4 * of_nat w))) :: u8) n = bit (priority d ! (4 * w + i)) n"
      using n that assms(2) by (simp add: bit_simps bit_read_priority b add.commute)
  qed
  have "fold (\<lambda>i ps. ps[4 * w + i := ucast (drop_bit (i * 8) (read_priority d (4 * of_nat w)))]) [0..<4] xs =
      graft (4 * w) (4 * w + 4) xs (priority d)"
    by (intro fold_put_graft f)
  then show ?thesis
    unfolding seed_banks(3) [OF assms(1)] gicd_read_banks(4) [OF assms(1)] ucast_back write_priority_def Let_def b by simp
qed

lemma seed_router:
  assumes "i < 1024" "length xs = length (router d)"
  shows "gicd_seed (e\<lparr>router := xs\<rparr>) (0x6000 + 4 * of_nat (2 * i), router_of d (of_nat i)) =
    e\<lparr>router := graft i (i + 1) xs (router d)\<rparr>"
proof -
  have w: "2 * i < 2048" using assms(1) by simp
  have u: "unat (of_nat i :: u32) = i" using assms(1) by (simp add: unat_of_nat_lt)
  have "xs[i := router_of d (of_nat i)] = graft i (i + 1) xs (router d)"
    by (rule nth_equalityI) (auto simp: nth_list_update router_of_def u assms(2))
  then show ?thesis unfolding seed_banks(5) [OF w] router_word(1) [OF w] by simp
qed

lemma bank_writes:
  assumes "p \<le> 8" "m < 32" "unat b < 2 ^ 16"
  shows "reg_writes d m \<lparr>reg_base = b, bpi = p, reg_length = 0, reg_restore = True\<rparr> =
    map (\<lambda>k. (b + 4 * of_nat (unat p + k), ucast (gicd_read d (ucast b + 4 * of_nat (unat p + k))))) [0..<unat p * m]"
proof -
  let ?r = "\<lparr>reg_base = b, bpi = p, reg_length = 0, reg_restore = True\<rparr>"
  have w: "unat (dist_reg_words ?r (width m)) = unat p * m" using bank_words [OF _ assms(2), of ?r] by simp
  have "unat p \<le> 8" using assms(1) by (simp add: word_le_nat_alt)
  then have "unat p * m \<le> 8 * 31" using assms(2) by (intro mult_mono) simp_all
  have "p \<noteq> 64" using assms(1) by auto
  have s: "reg_start ?r + of_nat k * REG_SIZE = b + 4 * of_nat (unat p + k)" for k
    by (simp add: reg_start_def REG_SIZE_def algebra_simps)
  have o: "(ucast (b + 4 * of_nat (unat p + k) :: u32) :: u64) = ucast b + 4 * of_nat (unat p + k)" if "k < unat p * m" for k
    using that \<open>unat p \<le> 8\<close> \<open>unat p * m \<le> 8 * 31\<close> assms(3) by (intro seed_off) simp_all
  show ?thesis unfolding reg_writes_def w s using \<open>p \<noteq> 64\<close> o by simp
qed

subsection \<open>Capture, translate, seed\<close>

lemma seed_bank:
  assumes "\<And>w xs. w < W \<Longrightarrow> length xs = L \<Longrightarrow>
      gicd_seed (upd xs) (b + 4 * of_nat w, ucast (gicd_read d (ucast b + 4 * of_nat w))) = upd (graft (s * w) (s * w + s) xs ys)"
    and "p \<le> 8" "m < 32" "unat b < 2 ^ 16" "unat p * (m + 1) \<le> W" "s * unat p = 32" "length xs = L"
  shows "foldl gicd_seed (upd xs) (reg_writes d m \<lparr>reg_base = b, bpi = p, reg_length = 0, reg_restore = True\<rparr>) =
    upd (graft 32 (32 * (m + 1)) xs ys)"
proof -
  have "s * (unat p + unat p * m) = s * unat p * (m + 1)" by (simp add: algebra_simps)
  then have e: "s * (unat p + unat p * m) = 32 * (m + 1)" using assms(6) by simp
  have "foldl gicd_seed (upd xs) (map (\<lambda>k. (b + 4 * of_nat (unat p + k), ucast (gicd_read d (ucast b + 4 * of_nat (unat p + k)))))
      [0..<unat p * m]) = upd (graft (s * unat p) (s * (unat p + unat p * m)) xs ys)"
    using assms(5,7) by (intro foldl_graft [where L = L] assms(1)) simp_all
  then show ?thesis unfolding bank_writes [OF assms(2-4)] e assms(6) .
qed

lemma seed_router_bank:
  assumes "m < 31" "length xs = length (router d)"
  shows "foldl gicd_seed (e\<lparr>router := xs\<rparr>) (reg_writes d m \<lparr>reg_base = 0x6000, bpi = 64, reg_length = 0, reg_restore = True\<rparr>) =
    e\<lparr>router := graft 32 (32 * (m + 1)) xs (router d)\<rparr>"
proof -
  have o: "(0x6000 + 4 * 64) + of_nat k * 8 = (0x6000 + 4 * of_nat (2 * (32 + k)) :: u32)" for k
    by (simp add: distrib_left mult.commute [of _ 8])
  have w: "reg_writes d m \<lparr>reg_base = 0x6000, bpi = 64, reg_length = 0, reg_restore = True\<rparr> =
      map (\<lambda>k. (0x6000 + 4 * of_nat (2 * (32 + k)), router_of d (of_nat (32 + k)))) [0..<32 * m]"
    unfolding o [symmetric] by (simp add: reg_writes_def reg_start_def REG_SIZE_def SPI_BASE_def)
  have "foldl gicd_seed (e\<lparr>router := xs\<rparr>) (map (\<lambda>k. (0x6000 + 4 * of_nat (2 * (32 + k)), router_of d (of_nat (32 + k)))) [0..<32 * m]) =
      e\<lparr>router := graft (1 * 32) (1 * (32 + 32 * m)) xs (router d)\<rparr>"
  proof (rule foldl_graft [where L = "length (router d)" and upd = "\<lambda>xs. e\<lparr>router := xs\<rparr>"])
    fix k and xs :: "u64 list" assume "k < 32 * m" "length xs = length (router d)"
    then show "gicd_seed (e\<lparr>router := xs\<rparr>) (0x6000 + 4 * of_nat (2 * (32 + k)), router_of d (of_nat (32 + k))) =
        e\<lparr>router := graft (1 * (32 + k)) (1 * (32 + k) + 1) xs (router d)\<rparr>"
      using seed_router [of "32 + k" xs d e] assms(1) by simp
  qed (rule assms(2))
  then show ?thesis unfolding w by (simp add: add.commute)
qed

lemma seed_ignored:
  assumes "b \<in> {0x0180, 0x0200, 0x0280, 0x0300, 0x0380}" "m < 31"
  shows "foldl gicd_seed e (reg_writes d m \<lparr>reg_base = b, bpi = 1, reg_length = 0, reg_restore = True\<rparr>) = e"
proof -
  have "b \<in> (\<lambda>c. 0x0180 + 4 * of_nat c) ` {0, 32, 64, 96, 128}" using assms(1) by auto
  then obtain c where "c \<in> {0, 32, 64, 96, 128 :: nat}" and b: "b = 0x0180 + 4 * of_nat c" by (elim imageE)
  then have c: "b = 0x0180 + 4 * of_nat c" "c \<le> 128" by auto
  have "gicd_seed e (b + 4 * of_nat (1 + k), x) = e" if "k < m" for k x
  proof -
    have "b + 4 * of_nat (1 + k) = 0x0180 + 4 * of_nat (c + 1 + k)" by (simp add: c(1) algebra_simps)
    then show ?thesis using seed_banks(6) [of "c + 1 + k" e x] c(2) that assms(2) by simp
  qed
  moreover have "(1 :: u8) \<le> 8" "unat b < 2 ^ 16" using assms(1) by auto
  moreover have "foldl gicd_seed e (map f [0..<j]) = e" if "\<And>k. k < j \<Longrightarrow> gicd_seed e (f k) = e" for f j
    using that by (induction j) simp_all
  ultimately show ?thesis using assms(2) by (simp add: bank_writes)
qed

lemma seed_enable_bank:
  assumes "m < 31" "length (enabled e) = length (enabled d)"
  shows "foldl gicd_seed e (reg_writes d m \<lparr>reg_base = 0x0100, bpi = 1, reg_length = 0, reg_restore = True\<rparr>) =
    e\<lparr>enabled := graft 32 (32 * (m + 1)) (enabled e) (enabled d)\<rparr>"
  using seed_bank [where W = 32 and L = "length (enabled d)" and upd = "\<lambda>xs. e\<lparr>enabled := xs\<rparr>" and b = "0x0100" and p = 1
      and d = d and s = 32 and ys = "enabled d" and xs = "enabled e"] seed_enable assms by simp

lemma seed_group_bank:
  assumes "m < 31" "length (group1 e) = length (group1 d)"
  shows "foldl gicd_seed e (reg_writes d m \<lparr>reg_base = 0x0080, bpi = 1, reg_length = 0, reg_restore = True\<rparr>) =
    e\<lparr>group1 := graft 32 (32 * (m + 1)) (group1 e) (group1 d)\<rparr>"
  using seed_bank [where W = 32 and L = "length (group1 d)" and upd = "\<lambda>xs. e\<lparr>group1 := xs\<rparr>" and b = "0x0080" and p = 1
      and d = d and s = 32 and ys = "group1 d" and xs = "group1 e"] seed_group assms by simp

lemma seed_cfgr_bank:
  assumes "m < 31" "length (edge e) = length (edge d)"
  shows "foldl gicd_seed e (reg_writes d m \<lparr>reg_base = 0x0c00, bpi = 2, reg_length = 0, reg_restore = True\<rparr>) =
    e\<lparr>edge := graft 32 (32 * (m + 1)) (edge e) (edge d)\<rparr>"
  using seed_bank [where W = 64 and L = "length (edge d)" and upd = "\<lambda>xs. e\<lparr>edge := xs\<rparr>" and b = "0x0c00" and p = 2
      and d = d and s = 16 and ys = "edge d" and xs = "edge e"] seed_cfgr assms by simp

lemma seed_priority_bank:
  assumes "m < 31" "length (priority e) = length (priority d)"
  shows "foldl gicd_seed e (reg_writes d m \<lparr>reg_base = 0x0400, bpi = 8, reg_length = 0, reg_restore = True\<rparr>) =
    e\<lparr>priority := graft 32 (32 * (m + 1)) (priority e) (priority d)\<rparr>"
  using seed_bank [where W = 256 and L = "length (priority d)" and upd = "\<lambda>xs. e\<lparr>priority := xs\<rparr>" and b = "0x0400" and p = 8
      and d = d and s = 4 and ys = "priority d" and xs = "priority e"] seed_priority assms by simp

lemma seed_route_bank:
  assumes "m < 31" "length (router e) = length (router d)"
  shows "foldl gicd_seed e (reg_writes d m \<lparr>reg_base = 0x6000, bpi = 64, reg_length = 0, reg_restore = True\<rparr>) =
    e\<lparr>router := graft 32 (32 * (m + 1)) (router e) (router d)\<rparr>"
  using seed_router_bank [OF assms, of e] by simp

lemma seed_status: "reg_writes d m \<lparr>reg_base = b, bpi = p, reg_length = l, reg_restore = False\<rparr> = []"
  by (simp add: reg_writes_def)

lemma seed_all:
  assumes "m < 31" "length (enabled e) = length (enabled d)" "length (group1 e) = length (group1 d)"
    "length (router e) = length (router d)" "length (edge e) = length (edge d)" "length (priority e) = length (priority d)"
  shows "gicd_seed_from_kvm e (concat (map (reg_writes d m) VGIC_DIST_REGS)) =
    e\<lparr>enabled := graft 32 (32 * (m + 1)) (enabled e) (enabled d), group1 := graft 32 (32 * (m + 1)) (group1 e) (group1 d),
      priority := graft 32 (32 * (m + 1)) (priority e) (priority d), edge := graft 32 (32 * (m + 1)) (edge e) (edge d),
      router := graft 32 (32 * (m + 1)) (router e) (router d)\<rparr>"
  unfolding gicd_seed_from_kvm_def VGIC_DIST_REGS_def list.map concat.simps foldl_append foldl_Nil
  by (simp add: seed_status seed_ignored [OF _ assms(1)] seed_enable_bank [OF assms(1)] seed_group_bank [OF assms(1)]
      seed_cfgr_bank [OF assms(1)] seed_priority_bank [OF assms(1)] seed_route_bank [OF assms(1)] assms(2-6))

text \<open>
  C27. The software distributor survives capture, translation and seeding: for every width a KVM
  dump can express, dumping a well-formed distributor succeeds, the dump decodes to the register
  writes at exactly the capture offsets, in their order, and seeding another distributor of the
  same width with those writes gives every shared interrupt the captured enable, group,
  priority, trigger and route, and leaves the private interrupts, the control register and the
  pending bits as they were.
\<close>

theorem gicd_capture_round_trip:
  assumes "gicd_ok d" "gicd_ok e" "num_irqs d = of_nat (32 * (m + 1))" "num_irqs e = num_irqs d" "m < 31"
  shows "\<exists>dump regs. dist_from_softgic d = Some dump \<and> dist_to_hvf dump = Some regs \<and>
    map fst regs = dist_capture_offsets (num_irqs d) \<and>
    (let s = gicd_seed_from_kvm e regs
     in pending s = pending e \<and> d_ctlr s = d_ctlr e \<and>
        (\<forall>i < 32 * (m + 1). let src = (if 32 \<le> i then d else e)
          in enabled s ! i = enabled src ! i \<and> group1 s ! i = group1 src ! i \<and> priority s ! i = priority src ! i \<and>
             edge s ! i = edge src ! i \<and> router s ! i = router src ! i))"
proof -
  have w: "num_irqs d = width m" "m < 32" using assms(3,5) by (simp_all add: width_def)
  have "unat (width m) = 32 * (m + 1)" unfolding width_def using assms(5) by (intro unat_of_nat_lt) simp
  then have n: "unat (num_irqs d) = 32 * (m + 1)" "unat (num_irqs e) = 32 * (m + 1)" using assms(4) w by simp_all
  have l: "length (enabled e) = length (enabled d)" "length (group1 e) = length (group1 d)"
    "length (router e) = length (router d)" "length (edge e) = length (edge d)" "length (priority e) = length (priority d)"
    using assms(1,2,4) by (simp_all add: gicd_ok_def)
  have le: "length (enabled e) = 32 * (m + 1)" "length (group1 e) = 32 * (m + 1)" "length (priority e) = 32 * (m + 1)"
    "length (edge e) = 32 * (m + 1)" "length (router e) = 32 * (m + 1)"
    using assms(2) n by (simp_all add: gicd_ok_def)
  note r = capture_translate [OF w(2,1)] writes_offsets [OF w(2), of d] seed_all [OF assms(5) l]
  show ?thesis
    by (rule exI, rule exI, rule conjI [OF r(1)], rule conjI [OF r(2)], unfold r(3) r(4) w(1))
      (simp only: Let_def distributor.simps, simp add: le)
qed

theorem gicd_capture_round_trip_witness:
  "\<exists>dump regs. dist_from_softgic (gicd_write (gicd_new 64) 0x0104 0x10) = Some dump \<and> dist_to_hvf dump = Some regs \<and>
     enabled (gicd_seed_from_kvm (gicd_new 64) regs) ! 36"
proof -
  let ?d = "gicd_write (gicd_new 64) 0x0104 0x10"
  have n: "num_irqs (gicd_new 64) = 64" by (simp add: gicd_new_def clamp_def next_multiple_of_def INTID_LIMIT_def)
  have ok: "gicd_ok ?d" "num_irqs ?d = 64"
    using gicd_write_shape [of "gicd_new 64" "0x0104" "0x10"] gicd_new_ok [of 64] n by (simp_all add: same_shape_def)
  have "is_enabled ?d 36" using enable_write(1) [of 1 "gicd_new 64" "0x10" 36] gicd_new_ok [of 64] n
    by (simp add: gicd_ok_def bit_iff_odd)
  then have on: "enabled ?d ! 36" by (simp add: is_enabled_def)
  obtain dump regs where "dist_from_softgic ?d = Some dump" "dist_to_hvf dump = Some regs"
    "enabled (gicd_seed_from_kvm (gicd_new 64) regs) ! 36 = enabled ?d ! 36"
    using gicd_capture_round_trip [of ?d "gicd_new 64" 1] ok gicd_new_ok [of 64] n by (auto simp: Let_def)
  with on show ?thesis by blast
qed

subsection \<open>The redistributor dump\<close>

lemma ppi_word_bits: "length bs = 32 \<Longrightarrow>
    bit (fold (\<lambda>b v. if bs ! b then v OR push_bit b 1 else v) [0..<length bs] (0 :: u32)) n \<longleftrightarrow> n < 32 \<and> bs ! n"
  by (subst fold_or_bit) (auto simp: bit_push_one)

lemma set_ppi_bits_word:
  assumes "length (ppi_enabled r) = 32" "\<And>n. bit v n \<longleftrightarrow> n < 32 \<and> bs ! n" "length bs = 32"
  shows "set_ppi_bits r v st = r\<lparr>ppi_enabled := map2 (\<lambda>b x. if b then st else x) bs (ppi_enabled r)\<rparr>"
proof -
  let ?f = "fold (\<lambda>b bs. if bit v b then bs[b := st] else bs) [0..<32] (ppi_enabled r)"
  note put = fold_put_length [where base = 0 and P = "bit v" and f = "\<lambda>b. st", unfolded add_0]
    fold_put_nth [where base = 0 and P = "bit v" and f = "\<lambda>b. st" and k = 32, unfolded add_0]
  have "length ?f = 32" unfolding put(1) by (rule assms(1))
  moreover have "?f ! i = (if bs ! i then st else ppi_enabled r ! i)" if "i < 32" for i
    using put(2) [of i "ppi_enabled r"] that assms by simp
  ultimately have "?f = map2 (\<lambda>b x. if b then st else x) bs (ppi_enabled r)"
    using assms(1,3) by (intro nth_equalityI) simp_all
  then show ?thesis by (simp add: set_ppi_bits_def)
qed

lemma seed_ppi:
  assumes "\<And>n. bit w n \<longleftrightarrow> n < 32 \<and> bs ! n" "length bs = 32"
  shows "gicr_seed_from_kvm (gicr_for_cpu c l) (zip rdist_capture_offsets (map ucast
      ([0, w, w, c0, c1, 0, 0, 0, 0, 0, 0, 0, 0, 0, 0, 0, 0] :: u32 list))) =
    (gicr_for_cpu c l)\<lparr>ppi_enabled := bs, ppi_cfg := (0xaaaaaaaa, c1)\<rparr>"
proof -
  let ?r = "gicr_for_cpu c l"
  have r: "length (ppi_enabled ?r) = 32" "ppi_enabled ?r = replicate 32 False" "ppi_cfg ?r = (0xaaaaaaaa, 0)"
    by (simp_all add: gicr_for_cpu_def)
  have "map2 (\<lambda>b x. if b then False else x) bs (replicate 32 False) = replicate 32 False"
    using assms(2) by (intro nth_equalityI) simp_all
  then have a: "set_ppi_bits ?r w False = ?r" using set_ppi_bits_word [OF r(1) assms, of False] r(2) by simp
  have "map2 (\<lambda>b x. if b then True else x) bs (replicate 32 False) = bs"
    using assms(2) by (intro nth_equalityI) simp_all
  then have b: "set_ppi_bits ?r w True = ?r\<lparr>ppi_enabled := bs\<rparr>" using set_ppi_bits_word [OF r(1) assms, of True] r(2) by simp
  have o: "rdist_capture_offsets = map (\<lambda>k. 0x10000 + k) [0x80, 0x180, 0x100, 0xc00, 0xc04, 0x280, 0x200, 0x380, 0x300,
      0x400, 0x404, 0x408, 0x40c, 0x410, 0x414, 0x418, 0x41c]"
    by (simp add: VGIC_RDIST_REGS_def rreg_words_def upt_rec rdist_capture_offsets_def GICR_SGI_OFFSET32_def REG_SIZE_def)
  show ?thesis
    unfolding o gicr_seed_from_kvm_def
    by (simp add: gicr_seed_def gicr_write_def GICR_SGI_OFFSET_def ucast_back a b r Let_def)
qed

lemma redist_round_trip:
  assumes "length (ppi_enabled rd) = 32"
  shows "\<exists>regs. redist_to_hvf (redist_from_softgic rd) = Some regs \<and> map fst regs = rdist_capture_offsets \<and>
    gicr_seed_from_kvm (gicr_for_cpu c l) regs =
      (gicr_for_cpu c l)\<lparr>ppi_enabled := ppi_enabled rd, ppi_cfg := (0xaaaaaaaa, snd (ppi_cfg rd))\<rparr>"
proof -
  let ?w = "fold (\<lambda>b v. if ppi_enabled rd ! b then v OR push_bit b 1 else v) [0..<length (ppi_enabled rd)] 0 :: u32"
  let ?sgi = "[0, ?w, ?w, fst (ppi_cfg rd), snd (ppi_cfg rd), 0, 0, 0, 0, 0, 0, 0, 0, 0, 0, 0, 0] :: u32 list"
  have dump: "redist_from_softgic rd = [0, waker rd, ucast (propbaser rd), ucast (drop_bit 32 (propbaser rd)),
      ucast (pendbaser rd), ucast (drop_bit 32 (pendbaser rd)), r_ctlr rd] @ ?sgi"
    by (simp add: redist_from_softgic_def VGIC_RDIST_REGS_def rreg_words_def upt_rec REG_SIZE_def GICR_SGI_OFFSET32_def
        gicr_read_def GICR_SGI_OFFSET_def)
  have "redist_to_hvf (redist_from_softgic rd) = Some (zip rdist_capture_offsets (map ucast ?sgi))"
    unfolding dump
    by (simp add: redist_to_hvf_def redist_words_per_vcpu_def VGIC_RDIST_REGS_def rreg_words_def upt_rec REG_SIZE_def
        GICR_SGI_OFFSET32_def rdist_capture_offsets_def)
  moreover have "map fst (zip rdist_capture_offsets (map ucast ?sgi)) = rdist_capture_offsets"
    by (simp add: VGIC_RDIST_REGS_def rreg_words_def upt_rec rdist_capture_offsets_def GICR_SGI_OFFSET32_def)
  moreover have "gicr_seed_from_kvm (gicr_for_cpu c l) (zip rdist_capture_offsets (map ucast ?sgi)) =
      (gicr_for_cpu c l)\<lparr>ppi_enabled := ppi_enabled rd, ppi_cfg := (0xaaaaaaaa, snd (ppi_cfg rd))\<rparr>"
    using ppi_word_bits [OF assms] assms by (intro seed_ppi)
  ultimately show ?thesis by blast
qed

end
