(* ===== verification/Its.thy ===== *)
theory Its
  imports Guest_Memory
begin

text \<open>
  The interrupt translation service of a resumed guest (\<^verbatim>\<open>src/hypervisor/src/hvf/virtio/its.rs\<close>): the
  table descriptors, the walk of the device, translation and collection tables in guest memory,
  the two interpretations of the command queue, and the injector that turns a vector into a
  translated interrupt. The JSON reader of the snapshot is a parameter; the text of an error is
  its kind and the values it names.
\<close>

subsection \<open>Errors and configuration\<close>

definition GICV3_LPI_INTID_BASE :: u32 where "GICV3_LPI_INTID_BASE = 8192"
definition ITE_SIZE :: u64 where "ITE_SIZE = 8"

datatype its_error = Malformed string | Memory u64 guest_mem_error

record lpi =
  lpi_intid :: u32
  lpi_rdbase :: u32

definition and_then :: "'e + 'a \<Rightarrow> ('a \<Rightarrow> 'e + 'b) \<Rightarrow> 'e + 'b" where
  "and_then r f = (case r of Inl e \<Rightarrow> Inl e | Inr x \<Rightarrow> f x)"

record baser =
  b_indirect :: bool
  b_typ :: u8
  b_entry_size :: u64
  b_page_size :: u64
  b_num_pages :: u64
  b_base :: u64

definition decode_base :: "u64 \<Rightarrow> u64 \<Rightarrow> u64" where
  "decode_base raw page_size =
     (if page_size = 65536
      then (raw AND 0x0000ffffffff0000) OR push_bit 36 (raw AND 0xf000)
      else raw AND 0x0000fffffffff000)"

definition baser_parse :: "u64 \<Rightarrow> baser option" where
  "baser_parse raw =
     (if drop_bit 63 raw AND 1 = 0 then None
      else let page_size = (if raw AND 0x3 = 0 then 4096 else if raw AND 0x3 = 1 then 16384 else 65536)
           in Some \<lparr>b_indirect = (drop_bit 62 raw AND 1 \<noteq> 0),
                    b_typ = ucast (drop_bit 56 raw AND 0x7),
                    b_entry_size = (drop_bit 48 raw AND 0xff) + 1,
                    b_page_size = page_size,
                    b_num_pages = (raw AND 0xff) + 1,
                    b_base = decode_base raw page_size\<rparr>)"

definition flat_entries :: "baser \<Rightarrow> u64" where
  "flat_entries b = b_num_pages b * b_page_size b div b_entry_size b"

record its_config =
  its_enabled :: bool
  device_baser :: "baser option"
  collection_baser :: "baser option"
  cmd_base :: u64
  cmd_size :: u64
  cwriter :: u64
  creadr :: u64

record 'v json_ops =
  json_get :: "'v \<Rightarrow> string \<Rightarrow> 'v option"
  json_as_u64 :: "'v \<Rightarrow> u64 option"
  json_as_array :: "'v \<Rightarrow> 'v list option"
  json_as_str :: "'v \<Rightarrow> string option"
  json_pointer :: "'v \<Rightarrow> string \<Rightarrow> 'v option"
  json_from_str :: "string \<Rightarrow> string + 'v"

definition ok_or :: "'a option \<Rightarrow> 'e \<Rightarrow> 'e + 'a" where
  "ok_or x e = (case x of None \<Rightarrow> Inl e | Some v \<Rightarrow> Inr v)"

definition kvm_u64 :: "'v json_ops \<Rightarrow> 'v \<Rightarrow> string \<Rightarrow> its_error + u64" where
  "kvm_u64 js kvm key = ok_or (Option.bind (json_get js kvm key) (json_as_u64 js)) (Malformed key)"

definition pick_baser :: "(baser option \<times> baser option) \<Rightarrow> u64 \<Rightarrow> (baser option \<times> baser option)" where
  "pick_baser p raw =
     (case baser_parse raw of
        None \<Rightarrow> p
      | Some b \<Rightarrow> if b_typ b = 1 then (Some b, snd p) else if b_typ b = 4 then (fst p, Some b) else p)"

definition parse_kvm :: "'v json_ops \<Rightarrow> 'v \<Rightarrow> its_error + its_config" where
  "parse_kvm js kvm =
     and_then (kvm_u64 js kvm ''its_ctlr'') (\<lambda>ctlr.
     and_then (ok_or (Option.bind (json_get js kvm ''its_baser'') (json_as_array js)) (Malformed ''its_baser'')) (\<lambda>basers.
       let picked = foldl pick_baser (None, None) (List.map_filter (json_as_u64 js) basers)
       in and_then (kvm_u64 js kvm ''its_cbaser'') (\<lambda>cbaser.
          and_then (kvm_u64 js kvm ''its_cwriter'') (\<lambda>cw.
          and_then (kvm_u64 js kvm ''its_creadr'') (\<lambda>cr.
            Inr \<lparr>its_enabled = (ctlr AND 1 \<noteq> 0), device_baser = fst picked, collection_baser = snd picked,
                 cmd_base = cbaser AND 0x0000fffffffff000, cmd_size = ((cbaser AND 0xff) + 1) * 4096,
                 cwriter = cw, creadr = cr\<rparr>)))))"

definition its_from_snapshot_state :: "'v json_ops \<Rightarrow> string \<Rightarrow> its_error + its_config" where
  "its_from_snapshot_state js state_json =
     (case json_from_str js state_json of
        Inl e \<Rightarrow> Inl (Malformed e)
      | Inr root \<Rightarrow>
          and_then (ok_or (Option.bind
              (json_pointer js root ''/snapshots/device-manager/snapshots/gic-v3-its/snapshot_data/state'')
              (json_as_str js)) (Malformed ''no gic-v3-its/snapshot_data/state'')) (\<lambda>node.
            case json_from_str js node of
              Inl e \<Rightarrow> Inl (Malformed e)
            | Inr inner \<Rightarrow>
                and_then (ok_or (json_get js inner ''Kvm'') (Malformed ''its state is not a KVM ITS'')) (parse_kvm js)))"

subsection \<open>Tables\<close>

record device_entry =
  dev_itt :: u64
  eventid_bits :: u32

definition its_read_u64 :: "guest_memory \<Rightarrow> u64 \<Rightarrow> its_error + u64" where
  "its_read_u64 mem gpa = (case read_u64 mem gpa of Inl e \<Rightarrow> Inl (Memory gpa e) | Inr v \<Rightarrow> Inr v)"

definition its_write_u64 :: "guest_memory \<Rightarrow> u64 \<Rightarrow> u64 \<Rightarrow> its_error + guest_memory" where
  "its_write_u64 mem gpa v = (case write_u64 mem gpa v of Inl e \<Rightarrow> Inl (Memory gpa e) | Inr m \<Rightarrow> Inr m)"

definition decode_dte :: "u64 \<Rightarrow> device_entry option" where
  "decode_dte dte =
     (if drop_bit 63 dte AND 1 = 0 then None
      else Some \<lparr>dev_itt = push_bit 8 (drop_bit 5 dte AND (push_bit 44 1 - 1)),
                 eventid_bits = ucast ((dte AND 0x1f) + 1)\<rparr>)"

definition device_entry_of :: "its_config \<Rightarrow> guest_memory \<Rightarrow> u32 \<Rightarrow> its_error + device_entry option" where
  "device_entry_of cfg mem device_id =
     (case device_baser cfg of
        None \<Rightarrow> Inr None
      | Some b \<Rightarrow>
          if b_indirect b
          then (let per_l2 = b_page_size b div b_entry_size b;
                    l1_idx = ucast device_id div per_l2;
                    l2_idx = ucast device_id mod per_l2;
                    l1_entries = b_num_pages b * b_page_size b div 8
                in if l1_entries \<le> l1_idx then Inr None
                   else and_then (its_read_u64 mem (b_base b + l1_idx * 8)) (\<lambda>l1e.
                     if drop_bit 63 l1e AND 1 = 0 then Inr None
                     else and_then (its_read_u64 mem ((l1e AND 0x000fffffffff0000) + l2_idx * b_entry_size b))
                            (\<lambda>dte. Inr (decode_dte dte))))
          else if flat_entries b \<le> ucast device_id then Inr None
          else and_then (its_read_u64 mem (b_base b + ucast device_id * b_entry_size b)) (\<lambda>dte. Inr (decode_dte dte)))"

definition decode_cte :: "u64 \<Rightarrow> u32 option" where
  "decode_cte cte = (if drop_bit 63 cte AND 1 = 0 then None else Some (ucast (drop_bit 16 cte AND 0x7ffffffff)))"

definition collection_rdbase :: "its_config \<Rightarrow> guest_memory \<Rightarrow> u16 \<Rightarrow> its_error + u32 option" where
  "collection_rdbase cfg mem icid =
     (case collection_baser cfg of
        None \<Rightarrow> Inr None
      | Some b \<Rightarrow>
          if b_indirect b
          then (let per_l2 = b_page_size b div b_entry_size b;
                    l1_idx = ucast icid div per_l2;
                    l2_idx = ucast icid mod per_l2
                in and_then (its_read_u64 mem (b_base b + l1_idx * 8)) (\<lambda>l1e.
                     if drop_bit 63 l1e AND 1 = 0 then Inr None
                     else and_then (its_read_u64 mem ((l1e AND 0x000fffffffff0000) + l2_idx * b_entry_size b))
                            (\<lambda>cte. Inr (decode_cte cte))))
          else if flat_entries b \<le> ucast icid then Inr None
          else and_then (its_read_u64 mem (b_base b + ucast icid * b_entry_size b)) (\<lambda>cte. Inr (decode_cte cte)))"

definition ite_addr :: "device_entry \<Rightarrow> u64 \<Rightarrow> u64 option" where
  "ite_addr dev event =
     (if shl64 1 (min (eventid_bits dev) 32) \<le> event then None else Some (dev_itt dev + event * ITE_SIZE))"

definition its_translate :: "its_config \<Rightarrow> guest_memory \<Rightarrow> u32 \<Rightarrow> u32 \<Rightarrow> its_error + lpi option" where
  "its_translate cfg mem device_id event_id =
     and_then (device_entry_of cfg mem device_id) (\<lambda>entry.
       case entry of
         None \<Rightarrow> Inr None
       | Some dev \<Rightarrow>
           (case ite_addr dev (ucast event_id) of
              None \<Rightarrow> Inr None
            | Some a \<Rightarrow>
                and_then (its_read_u64 mem a) (\<lambda>ite.
                  let intid = ucast (drop_bit 16 ite AND 0xffffffff) :: u32;
                      icid = ucast (ite AND 0xffff) :: u16
                  in if intid < GICV3_LPI_INTID_BASE then Inr None
                     else and_then (collection_rdbase cfg mem icid) (\<lambda>rd.
                       case rd of None \<Rightarrow> Inr None | Some r \<Rightarrow> Inr (Some \<lparr>lpi_intid = intid, lpi_rdbase = r\<rparr>)))))"

subsection \<open>Command queue\<close>

definition replay_one :: "guest_memory \<Rightarrow> u64 \<Rightarrow> its_error + (u32 \<times> u32 \<times> u32 \<times> u16) list" where
  "replay_one mem base =
     and_then (its_read_u64 mem base) (\<lambda>dw0.
     and_then (its_read_u64 mem (base + 8)) (\<lambda>dw1.
       let dev = ucast (drop_bit 32 dw0) :: u32;
           event = ucast (dw1 AND 0xffffffff) :: u32
       in if dw0 AND 0xff = 0x0a
          then and_then (its_read_u64 mem (base + 16)) (\<lambda>dw2.
                 Inr [(dev, event, ucast (drop_bit 32 dw1), ucast (dw2 AND 0xffff))])
          else if dw0 AND 0xff = 0x0b
          then and_then (its_read_u64 mem (base + 16)) (\<lambda>dw2. Inr [(dev, event, event, ucast (dw2 AND 0xffff))])
          else Inr []))"

partial_function (option) replay_loop ::
  "its_config \<Rightarrow> guest_memory \<Rightarrow> u64 \<Rightarrow> u64 \<Rightarrow> (u32 \<times> u32 \<times> u32 \<times> u16) list \<Rightarrow>
    (its_error + (u32 \<times> u32 \<times> u32 \<times> u16) list) option" where
  "replay_loop cfg mem fin off out =
     (if off = fin then Some (Inr out)
      else case replay_one mem (cmd_base cfg + off) of
             Inl e \<Rightarrow> Some (Inl e)
           | Inr found \<Rightarrow> replay_loop cfg mem fin ((off + 32) mod cmd_size cfg) (out @ found))"

definition replay_commands ::
  "its_config \<Rightarrow> guest_memory \<Rightarrow> u64 \<Rightarrow> u64 \<Rightarrow> (its_error + (u32 \<times> u32 \<times> u32 \<times> u16) list) option" where
  "replay_commands cfg mem start fin =
     (if cmd_size cfg = 0 then Some (Inr [])
      else replay_loop cfg mem (fin mod cmd_size cfg) (start mod cmd_size cfg) [])"

definition replay_history :: "its_config \<Rightarrow> guest_memory \<Rightarrow> (its_error + (u32 \<times> u32 \<times> u32 \<times> u16) list) option" where
  "replay_history cfg mem = replay_commands cfg mem 0 (cwriter cfg)"

definition replay_pending :: "its_config \<Rightarrow> guest_memory \<Rightarrow> (its_error + (u32 \<times> u32 \<times> u32 \<times> u16) list) option" where
  "replay_pending cfg mem = replay_commands cfg mem (creadr cfg) (cwriter cfg)"

definition dte_addr :: "its_config \<Rightarrow> guest_memory \<Rightarrow> u32 \<Rightarrow> its_error + u64 option" where
  "dte_addr cfg mem device_id =
     (case device_baser cfg of
        None \<Rightarrow> Inr None
      | Some b \<Rightarrow>
          if b_indirect b
          then (let per_l2 = b_page_size b div b_entry_size b;
                    l1_idx = ucast device_id div per_l2;
                    l2_idx = ucast device_id mod per_l2;
                    l1_entries = b_num_pages b * b_page_size b div 8
                in if l1_entries \<le> l1_idx then Inr None
                   else and_then (its_read_u64 mem (b_base b + l1_idx * 8)) (\<lambda>l1e.
                     if drop_bit 63 l1e AND 1 = 0 then Inr None
                     else Inr (Some ((l1e AND 0x000fffffffff0000) + l2_idx * b_entry_size b))))
          else if ucast device_id < flat_entries b then Inr (Some (b_base b + ucast device_id * b_entry_size b))
          else Inr None)"

definition mapd_dte :: "u64 \<Rightarrow> u64 \<Rightarrow> u64" where
  "mapd_dte dw1 dw2 =
     (if drop_bit 63 dw2 AND 1 = 0 then 0
      else let itt = dw2 AND 0x000fffffffffff00; sz = dw1 AND 0x1f
           in push_bit 63 1 OR push_bit 5 (drop_bit 8 itt AND (push_bit 44 1 - 1)) OR sz)"

definition mapc_cte :: "u64 \<Rightarrow> u64" where
  "mapc_cte dw2 =
     (if drop_bit 63 dw2 AND 1 = 0 then 0
      else push_bit 63 1 OR push_bit 16 (drop_bit 16 dw2 AND 0x7ffffffff) OR (dw2 AND 0xffff))"

definition on_ite :: "its_config \<Rightarrow> guest_memory \<Rightarrow> u32 \<Rightarrow> u64 \<Rightarrow> (u64 \<Rightarrow> its_error + guest_memory) \<Rightarrow> its_error + guest_memory" where
  "on_ite cfg mem dev event f =
     and_then (device_entry_of cfg mem dev) (\<lambda>entry.
       case entry of
         None \<Rightarrow> Inr mem
       | Some d \<Rightarrow> (case ite_addr d event of None \<Rightarrow> Inr mem | Some a \<Rightarrow> f a))"

definition apply_one :: "its_config \<Rightarrow> guest_memory \<Rightarrow> u64 \<Rightarrow> u64 \<Rightarrow> u64 \<Rightarrow> its_error + guest_memory" where
  "apply_one cfg mem dw0 dw1 dw2 =
     (let dev = ucast (drop_bit 32 dw0) :: u32;
          event = dw1 AND 0xffffffff;
          icid = dw2 AND 0xffff
      in if dw0 AND 0xff = 0x08
         then and_then (dte_addr cfg mem dev) (\<lambda>addr.
                case addr of None \<Rightarrow> Inr mem | Some a \<Rightarrow> its_write_u64 mem a (mapd_dte dw1 dw2))
         else if dw0 AND 0xff = 0x09
         then (case collection_baser cfg of
                 None \<Rightarrow> Inr mem
               | Some b \<Rightarrow>
                   if \<not> b_indirect b \<and> icid < flat_entries b
                   then its_write_u64 mem (b_base b + icid * b_entry_size b) (mapc_cte dw2)
                   else Inr mem)
         else if dw0 AND 0xff = 0x0a
         then on_ite cfg mem dev event (\<lambda>a. its_write_u64 mem a (push_bit 16 (drop_bit 32 dw1 AND 0xffffffff) OR icid))
         else if dw0 AND 0xff = 0x01
         then on_ite cfg mem dev event (\<lambda>a.
                and_then (its_read_u64 mem a) (\<lambda>ite. its_write_u64 mem a ((ite AND NOT 0xffff) OR icid)))
         else if dw0 AND 0xff = 0x0f
         then on_ite cfg mem dev event (\<lambda>a. its_write_u64 mem a 0)
         else Inr mem)"

definition apply_at :: "its_config \<Rightarrow> guest_memory \<Rightarrow> u64 \<Rightarrow> its_error + guest_memory" where
  "apply_at cfg mem base =
     and_then (its_read_u64 mem base) (\<lambda>dw0.
     and_then (its_read_u64 mem (base + 8)) (\<lambda>dw1.
     and_then (its_read_u64 mem (base + 16)) (\<lambda>dw2. apply_one cfg mem dw0 dw1 dw2)))"

partial_function (option) apply_loop ::
  "its_config \<Rightarrow> u64 \<Rightarrow> u64 \<Rightarrow> guest_memory \<Rightarrow> (guest_memory \<times> its_error option) option" where
  "apply_loop cfg fin off mem =
     (if off = fin then Some (mem, None)
      else case apply_at cfg mem (cmd_base cfg + off) of
             Inl e \<Rightarrow> Some (mem, Some e)
           | Inr mem' \<Rightarrow> apply_loop cfg fin ((off + 32) mod cmd_size cfg) mem')"

definition apply_commands ::
  "its_config \<Rightarrow> guest_memory \<Rightarrow> u64 \<Rightarrow> u64 \<Rightarrow> (guest_memory \<times> its_error option) option" where
  "apply_commands cfg mem start fin =
     (if cmd_size cfg = 0 then Some (mem, None)
      else apply_loop cfg (fin mod cmd_size cfg) (start mod cmd_size cfg) mem)"

subsection \<open>Injector\<close>

record its_injector =
  inj_its :: its_config
  inj_device_id :: u32
  vector_events :: "u32 list"

definition its_resolve :: "its_injector \<Rightarrow> guest_memory \<Rightarrow> u16 \<Rightarrow> lpi option" where
  "its_resolve ij mem vector =
     (if length (vector_events ij) \<le> unat vector then None
      else case its_translate (inj_its ij) mem (inj_device_id ij) (vector_events ij ! unat vector) of
             Inl e \<Rightarrow> None
           | Inr r \<Rightarrow> r)"

definition its_signal :: "its_injector \<Rightarrow> guest_memory \<Rightarrow> lpi list \<Rightarrow> u16 \<Rightarrow> lpi list" where
  "its_signal ij mem delivered vector =
     (if length (vector_events ij) \<le> unat vector then delivered
      else case its_translate (inj_its ij) mem (inj_device_id ij) (vector_events ij ! unat vector) of
             Inr (Some l) \<Rightarrow> delivered @ [l]
           | Inr None \<Rightarrow> delivered
           | Inl e \<Rightarrow> delivered)"

datatype completion_routing = DeliverableSpi | ItsLpi

definition classify_routing :: "'v json_ops \<Rightarrow> string \<Rightarrow> nat \<Rightarrow> completion_routing" where
  "classify_routing js state_json wired_devices =
     (if wired_devices = 0 then DeliverableSpi
      else case its_from_snapshot_state js state_json of
             Inr cfg \<Rightarrow> if its_enabled cfg then ItsLpi else DeliverableSpi
           | Inl e \<Rightarrow> DeliverableSpi)"

subsection \<open>Fallible steps\<close>

lemma and_then_simps [simp]: "and_then (Inl e) f = Inl e" "and_then (Inr x) f = f x"
  by (simp_all add: and_then_def)

lemma and_then_Inr_iff: "and_then r f = Inr y \<longleftrightarrow> (\<exists>x. r = Inr x \<and> f x = Inr y)"
  by (cases r) simp_all

lemma its_write_Inr_iff: "its_write_u64 m a v = Inr m' \<longleftrightarrow> write_u64 m a v = Inr m'"
  by (auto simp: its_write_u64_def split: sum.splits)

lemma its_read_Inr_iff: "its_read_u64 m a = Inr v \<longleftrightarrow> read_u64 m a = Inr v"
  by (auto simp: its_read_u64_def split: sum.splits)

lemma its_get_put_same: "gm_ok m \<Longrightarrow> write_u64 m a v = Inr m' \<Longrightarrow> its_read_u64 m' a = Inr v"
  by (simp add: its_read_Inr_iff ram64.get_put_same)

lemma its_get_put_disjoint:
  "gm_ok m \<Longrightarrow> write_u64 m a v = Inr m' \<Longrightarrow> disjoint_ranges a 8 b 8 \<Longrightarrow> its_read_u64 m' b = its_read_u64 m b"
  using ram64.get_wr_disjoint [of m a "le_bytes v" m' b] by (simp add: its_read_u64_def ram64.put_wr)

subsection \<open>Words a walk reads\<close>

definition table_words :: "baser \<Rightarrow> guest_memory \<Rightarrow> u64 \<Rightarrow> u64 list" where
  "table_words b mem i =
     (if b_indirect b
      then let per_l2 = b_page_size b div b_entry_size b; l1 = b_base b + i div per_l2 * 8
           in l1 # (case its_read_u64 mem l1 of
                      Inl e \<Rightarrow> []
                    | Inr l1e \<Rightarrow> [(l1e AND 0x000fffffffff0000) + i mod per_l2 * b_entry_size b])
      else [b_base b + i * b_entry_size b])"

definition device_words :: "its_config \<Rightarrow> guest_memory \<Rightarrow> u32 \<Rightarrow> u64 list" where
  "device_words cfg mem dev = (case device_baser cfg of None \<Rightarrow> [] | Some b \<Rightarrow> table_words b mem (ucast dev))"

definition collection_words :: "its_config \<Rightarrow> guest_memory \<Rightarrow> u16 \<Rightarrow> u64 list" where
  "collection_words cfg mem icid = (case collection_baser cfg of None \<Rightarrow> [] | Some b \<Rightarrow> table_words b mem (ucast icid))"

lemma device_entry_same:
  assumes "\<And>w. w \<in> set (device_words cfg mem dev) \<Longrightarrow> its_read_u64 mem' w = its_read_u64 mem w"
  shows "device_entry_of cfg mem' dev = device_entry_of cfg mem dev"
  using assms
  by (auto simp: device_entry_of_def device_words_def table_words_def Let_def and_then_def split: option.splits sum.splits)

lemma collection_same:
  assumes "\<And>w. w \<in> set (collection_words cfg mem icid) \<Longrightarrow> its_read_u64 mem' w = its_read_u64 mem w"
  shows "collection_rdbase cfg mem' icid = collection_rdbase cfg mem icid"
  using assms
  by (auto simp: collection_rdbase_def collection_words_def table_words_def Let_def and_then_def split: option.splits sum.splits)

subsection \<open>Commands on an event\<close>

lemma its_masks: "(0xff :: u64) = mask 8" "(0xffff :: u64) = mask 16" "(0xffffffff :: u64) = mask 32" "(0x1f :: u64) = mask 5"
  "(push_bit 44 1 - 1 :: u64) = mask 44" "(0x7ffffffff :: u64) = mask 35"
  by (simp_all add: mask_eq_exp_minus_1)

definition command0 :: "u64 \<Rightarrow> u32 \<Rightarrow> u64" where
  "command0 c dev = c OR push_bit 32 (ucast dev)"

definition event_word :: "u32 \<Rightarrow> u32 \<Rightarrow> u64" where
  "event_word event intid = ucast event OR push_bit 32 (ucast intid)"

definition ite_word :: "u32 \<Rightarrow> u16 \<Rightarrow> u64" where
  "ite_word intid icid = push_bit 16 (ucast intid) OR ucast icid"

lemma bit_take: "bit (take_bit k c) n \<Longrightarrow> n < k" for c :: u64
  by (simp add: bit_simps)

lemma command0_decode:
  assumes "take_bit 8 c = c"
  shows "command0 c dev AND 0xff = c" "(ucast (drop_bit 32 (command0 c dev)) :: u32) = dev"
proof -
  have c: "bit c n \<Longrightarrow> n < 8" for n using bit_take [of 8 c n] assms by auto
  have hi: "\<not> bit c (32 + n)" for n using c [of "32 + n"] by auto
  show "command0 c dev AND 0xff = c" unfolding command0_def its_masks
    by (rule bit_word_eqI) (use c in \<open>auto simp: bit_simps\<close>)
  show "(ucast (drop_bit 32 (command0 c dev)) :: u32) = dev" unfolding command0_def
    by (rule bit_word_eqI) (auto simp: bit_simps hi)
qed

lemma event_word_decode:
  "event_word event intid AND 0xffffffff = ucast event" "drop_bit 32 (event_word event intid) AND 0xffffffff = ucast intid"
  unfolding event_word_def its_masks by (rule bit_word_eqI, auto simp: bit_simps dest: bit_imp_le_length)+

lemma ite_word_decode:
  "(ucast (drop_bit 16 (ite_word intid icid) AND 0xffffffff) :: u32) = intid" "(ucast (ite_word intid icid AND 0xffff) :: u16) = icid"
  unfolding ite_word_def its_masks by (rule bit_word_eqI, auto simp: bit_simps dest: bit_imp_le_length)+

lemma retarget_decode:
  fixes ite :: u64 and icid :: u16
  defines "w \<equiv> (ite AND NOT 0xffff) OR ucast icid"
  shows "drop_bit 16 w = drop_bit 16 ite" "(ucast (w AND 0xffff) :: u16) = icid"
  unfolding w_def its_masks by (rule bit_word_eqI, auto simp: bit_simps dest: bit_imp_le_length)+

lemma icid_low: "ucast icid AND 0xffff = (ucast icid :: u64)" for icid :: u16
  unfolding its_masks by (rule bit_word_eqI) (auto simp: bit_simps dest: bit_imp_le_length)

lemma translate_ite:
  assumes "device_entry_of cfg m dev = Inr (Some d)" "ite_addr d (ucast event) = Some a" "its_read_u64 m a = Inr ite"
  shows "its_translate cfg m dev event =
    (if ucast (drop_bit 16 ite AND 0xffffffff) < GICV3_LPI_INTID_BASE then Inr None
     else and_then (collection_rdbase cfg m (ucast (ite AND 0xffff)))
       (\<lambda>rd. Inr (map_option (\<lambda>r. \<lparr>lpi_intid = ucast (drop_bit 16 ite AND 0xffffffff), lpi_rdbase = r\<rparr>) rd)))"
  using assms by (auto simp: its_translate_def Let_def and_then_def split: option.splits sum.splits)

lemma translate_written:
  assumes "gm_ok m" "device_entry_of cfg m dev = Inr (Some d)" "ite_addr d (ucast event) = Some a" "write_u64 m a v = Inr m'"
    and "\<And>w. w \<in> set (device_words cfg m dev) \<Longrightarrow> disjoint_ranges a 8 w 8"
    and "\<And>w. w \<in> set (collection_words cfg m (ucast (v AND 0xffff))) \<Longrightarrow> disjoint_ranges a 8 w 8"
  shows "its_translate cfg m' dev event =
    (if ucast (drop_bit 16 v AND 0xffffffff) < GICV3_LPI_INTID_BASE then Inr None
     else and_then (collection_rdbase cfg m (ucast (v AND 0xffff)))
       (\<lambda>rd. Inr (map_option (\<lambda>r. \<lparr>lpi_intid = ucast (drop_bit 16 v AND 0xffffffff), lpi_rdbase = r\<rparr>) rd)))"
proof -
  have "device_entry_of cfg m' dev = Inr (Some d)"
    using device_entry_same [of cfg m dev m'] its_get_put_disjoint [OF assms(1,4)] assms(2,5) by simp
  moreover have "collection_rdbase cfg m' (ucast (v AND 0xffff)) = collection_rdbase cfg m (ucast (v AND 0xffff))"
    using collection_same [of cfg m "ucast (v AND 0xffff)" m'] its_get_put_disjoint [OF assms(1,4)] assms(6) by simp
  ultimately show ?thesis using translate_ite [OF _ assms(3) its_get_put_same [OF assms(1,4)], of cfg dev] by simp
qed

text \<open>
  C28. The event commands do what the translation then sees: for a mapped device, an event inside
  its table and a table slot that is not part of the tables the walk reads, mapping the event to
  an interrupt and a collection makes the event translate to that interrupt at the collection's
  redistributor, moving it keeps the interrupt and changes the redistributor, and discarding it
  makes the event translate to nothing.
\<close>

theorem its_event_commands:
  assumes "gm_ok m" "device_entry_of cfg m dev = Inr (Some d)" "ite_addr d (ucast event) = Some a" "read_u64 m a = Inr ite"
    and "collection_rdbase cfg m icid = Inr (Some rd)" "GICV3_LPI_INTID_BASE \<le> intid"
    and "\<And>w. w \<in> set (device_words cfg m dev) \<union> set (collection_words cfg m icid) \<union> set (collection_words cfg m 0) \<Longrightarrow>
      disjoint_ranges a 8 w 8"
  shows "(\<exists>m'. apply_one cfg m (command0 0x0a dev) (event_word event intid) (ucast icid) = Inr m' \<and>
      its_translate cfg m' dev event = Inr (Some \<lparr>lpi_intid = intid, lpi_rdbase = rd\<rparr>)) \<and>
    (\<exists>m'. apply_one cfg m (command0 0x01 dev) (event_word event x) (ucast icid) = Inr m' \<and>
      its_translate cfg m' dev event =
        (if ucast (drop_bit 16 ite AND 0xffffffff) < GICV3_LPI_INTID_BASE then Inr None
         else Inr (Some \<lparr>lpi_intid = ucast (drop_bit 16 ite AND 0xffffffff), lpi_rdbase = rd\<rparr>))) \<and>
    (\<exists>m'. apply_one cfg m (command0 0x0f dev) (event_word event x) y = Inr m' \<and> its_translate cfg m' dev event = Inr None)"
proof (intro conjI)
  have wr: "\<exists>m'. write_u64 m a v = Inr m'" for v by (rule ram64.put_if_get [OF assms(1,4)])
  note eff = translate_written [OF assms(1-3)]
  have on: "on_ite cfg m dev (ucast event) f = f a" for f by (simp add: on_ite_def assms(2,3))
  have c: "take_bit 8 0x0a = (0x0a :: u64)" "take_bit 8 0x01 = (0x01 :: u64)" "take_bit 8 0x0f = (0x0f :: u64)"
    by (simp_all add: take_bit_eq_mod)
  obtain m1 where m1: "write_u64 m a (ite_word intid icid) = Inr m1" using wr by blast
  have "apply_one cfg m (command0 0x0a dev) (event_word event intid) (ucast icid) = Inr m1"
    using m1 by (simp add: apply_one_def command0_decode [OF c(1)] event_word_decode icid_low on Let_def its_write_Inr_iff ite_word_def)
  moreover have "its_translate cfg m1 dev event = Inr (Some \<lparr>lpi_intid = intid, lpi_rdbase = rd\<rparr>)"
    using eff [OF m1] assms(5-7) by (simp add: ite_word_decode not_less)
  ultimately show "\<exists>m'. apply_one cfg m (command0 0x0a dev) (event_word event intid) (ucast icid) = Inr m' \<and>
      its_translate cfg m' dev event = Inr (Some \<lparr>lpi_intid = intid, lpi_rdbase = rd\<rparr>)" by blast
  obtain m2 where m2: "write_u64 m a ((ite AND NOT 0xffff) OR ucast icid) = Inr m2" using wr by blast
  have "apply_one cfg m (command0 0x01 dev) (event_word event x) (ucast icid) = Inr m2"
    using m2 assms(4) by (simp add: apply_one_def command0_decode [OF c(2)] event_word_decode icid_low on Let_def
        its_write_Inr_iff its_read_u64_def)
  moreover have "its_translate cfg m2 dev event =
      (if ucast (drop_bit 16 ite AND 0xffffffff) < GICV3_LPI_INTID_BASE then Inr None
       else Inr (Some \<lparr>lpi_intid = ucast (drop_bit 16 ite AND 0xffffffff), lpi_rdbase = rd\<rparr>))"
    using eff [OF m2] assms(5,7) unfolding retarget_decode by simp
  ultimately show "\<exists>m'. apply_one cfg m (command0 0x01 dev) (event_word event x) (ucast icid) = Inr m' \<and>
      its_translate cfg m' dev event =
        (if ucast (drop_bit 16 ite AND 0xffffffff) < GICV3_LPI_INTID_BASE then Inr None
         else Inr (Some \<lparr>lpi_intid = ucast (drop_bit 16 ite AND 0xffffffff), lpi_rdbase = rd\<rparr>))" by blast
  obtain m3 where m3: "write_u64 m a 0 = Inr m3" using wr by blast
  have "apply_one cfg m (command0 0x0f dev) (event_word event x) y = Inr m3"
    using m3 by (simp add: apply_one_def command0_decode [OF c(3)] event_word_decode on Let_def its_write_Inr_iff)
  moreover have "its_translate cfg m3 dev event = Inr None"
    using eff [OF m3] assms(7) by (simp add: GICV3_LPI_INTID_BASE_def)
  ultimately show "\<exists>m'. apply_one cfg m (command0 0x0f dev) (event_word event x) y = Inr m' \<and>
      its_translate cfg m' dev event = Inr None" by blast
qed

theorem its_event_commands_witness:
  "\<exists>cfg m m'. apply_one cfg m (command0 0x0a 0) (event_word 1 8200) 0 = Inr m' \<and>
     its_translate cfg m' 0 1 = Inr (Some \<lparr>lpi_intid = 8200, lpi_rdbase = 3\<rparr>)"
proof -
  let ?b = "\<lambda>t a. \<lparr>b_indirect = False, b_typ = t, b_entry_size = 8, b_page_size = 4096, b_num_pages = 1, b_base = a\<rparr>"
  let ?cfg = "\<lparr>its_enabled = True, device_baser = Some (?b 1 0x1000), collection_baser = Some (?b 4 0x2000),
    cmd_base = 0, cmd_size = 4096, cwriter = 0, creadr = 0\<rparr>"
  let ?m = "[\<lparr>r_gpa = 0x1000, r_bytes = le_bytes (0x8000000000000600 :: u64)\<rparr>,
    \<lparr>r_gpa = 0x2000, r_bytes = le_bytes (0x8000000000030000 :: u64)\<rparr>, \<lparr>r_gpa = 0x3000, r_bytes = replicate 16 0\<rparr>]"
  let ?d = "\<lparr>dev_itt = 0x3000, eventid_bits = 1\<rparr>"
  have ok: "gm_ok ?m" by (simp add: gm_ok_def)
  have r: "read_u64 ?m 0x1000 = Inr 0x8000000000000600" "read_u64 ?m 0x2000 = Inr 0x8000000000030000"
    "read_u64 ?m 0x3008 = Inr 0"
    by (simp_all add: read_u64_def gm_read_def region_holds_def codec_simps) (simp add: numeral_eq_Suc)
  have d: "device_entry_of ?cfg ?m 0 = Inr (Some ?d)"
    by (simp add: device_entry_of_def flat_entries_def its_read_u64_def r decode_dte_def)
  have a: "ite_addr ?d (ucast (1 :: u32)) = Some 0x3008" by (simp add: ite_addr_def shl64_def ITE_SIZE_def word_le_nat_alt)
  have c: "collection_rdbase ?cfg ?m 0 = Inr (Some 3)"
    by (simp add: collection_rdbase_def flat_entries_def its_read_u64_def r decode_cte_def)
  have w: "disjoint_ranges 0x3008 8 w 8"
    if "w \<in> set (device_words ?cfg ?m 0) \<union> set (collection_words ?cfg ?m 0) \<union> set (collection_words ?cfg ?m 0)" for w
    using that by (auto simp: device_words_def collection_words_def table_words_def disjoint_ranges_def)
  have "GICV3_LPI_INTID_BASE \<le> 8200" by (simp add: GICV3_LPI_INTID_BASE_def word_le_nat_alt)
  from conjunct1 [OF its_event_commands [OF ok d a r(3) c this w]] show ?thesis by auto
qed

subsection \<open>Walking the command queue\<close>

abbreviation queue_ok :: "its_config \<Rightarrow> bool" where
  "queue_ok cfg \<equiv> 32 dvd unat (cmd_size cfg) \<and> 0 < cmd_size cfg \<and> cmd_size cfg \<le> 0x100000"

lemma queue_step:
  assumes "queue_ok cfg" "off < cmd_size cfg"
  shows "unat ((off + 32) mod cmd_size cfg) = (unat off + 32) mod unat (cmd_size cfg)" "(off + 32) mod cmd_size cfg < cmd_size cfg"
proof -
  have "unat off < 0x100000" using assms by (simp add: word_less_nat_alt word_le_nat_alt)
  then have "unat (off + 32) = unat off + 32" by (subst unat_add_no_wrap) simp_all
  then show "unat ((off + 32) mod cmd_size cfg) = (unat off + 32) mod unat (cmd_size cfg)" by (simp add: unat_mod)
  show "(off + 32) mod cmd_size cfg < cmd_size cfg" using assms(1) by (simp add: word_less_nat_alt unat_mod word_gt_0)
qed

lemma ring_steps:
  fixes p f N :: nat
  assumes "32 dvd N" "p < N" "f < N" "p mod 32 = f mod 32"
  shows "\<exists>k. (p + 32 * k) mod N = f"
proof (cases "p \<le> f")
  case True
  then have "32 dvd f - p" using assms(4) by (metis mod_eq_dvd_iff_nat)
  then obtain k where "f - p = 32 * k" by blast
  with True show ?thesis using assms(3) by (intro exI [of _ k]) simp
next
  case False
  have "(f + N) mod 32 = p mod 32" using assms(1,4) by (metis dvd_eq_mod_eq_0 mod_add_right_eq add_0_right)
  then have "32 dvd f + N - p" using assms(2) by (metis mod_eq_dvd_iff_nat trans_le_add2 less_imp_le)
  then obtain k where "f + N - p = 32 * k" by blast
  then have "p + 32 * k = f + N" using assms(2) by simp
  then show ?thesis using assms(3) by (intro exI [of _ k]) simp
qed

lemma ring_step_less: "0 < N \<Longrightarrow> (p + 32 * Suc k) mod N = ((p + 32) mod N + 32 * k) mod N" for p k N :: nat
  unfolding mod_add_left_eq by (simp add: algebra_simps)

lemma apply_loop_returns:
  assumes "queue_ok cfg" "off < cmd_size cfg" "(unat off + 32 * k) mod unat (cmd_size cfg) = unat fin"
  shows "\<exists>r. apply_loop cfg fin off m = Some r"
  using assms(2,3)
proof (induction k arbitrary: off m)
  case 0
  then have "off = fin" by (simp add: word_unat_eq_iff word_less_nat_alt)
  then show ?case by (subst apply_loop.simps) simp
next
  case (Suc k)
  note q = queue_step [OF assms(1) Suc.prems(1)]
  have "0 < unat (cmd_size cfg)" using assms(1) by (simp add: word_less_nat_alt)
  then have "(unat ((off + 32) mod cmd_size cfg) + 32 * k) mod unat (cmd_size cfg) = unat fin"
    using Suc.prems(2) ring_step_less [of "unat (cmd_size cfg)" "unat off" k] unfolding q(1) by simp
  then have "\<exists>r. apply_loop cfg fin ((off + 32) mod cmd_size cfg) m' = Some r" for m' by (rule Suc.IH [OF q(2)])
  then show ?case by (subst apply_loop.simps) (auto split: sum.split)
qed

lemma queue_aligned:
  "queue_ok cfg \<Longrightarrow> off < cmd_size cfg \<Longrightarrow> unat ((off + 32) mod cmd_size cfg) mod 32 = unat off mod 32"
  by (simp add: queue_step mod_mod_cancel)

lemma apply_loop_aligned:
  assumes "apply_loop cfg fin off m = Some r"
  shows "queue_ok cfg \<longrightarrow> off < cmd_size cfg \<longrightarrow> snd r = None \<longrightarrow> unat off mod 32 = unat fin mod 32"
proof (rule apply_loop.raw_induct [OF _ assms], goal_cases)
  case (1 loop cfg fin off m r)
  show ?case
  proof (intro impI)
    assume q: "queue_ok cfg" "off < cmd_size cfg" "snd r = None"
    show "unat off mod 32 = unat fin mod 32"
    proof (cases "off = fin")
      case False
      with 1(2) q(3) obtain m' where "loop cfg fin ((off + 32) mod cmd_size cfg) m' = Some r"
        by (auto split: sum.splits)
      from 1(1) [OF this] show ?thesis using q queue_step(2) [OF q(1,2)] queue_aligned [OF q(1,2)] by simp
    qed simp
  qed
qed

lemma replay_loop_returns:
  assumes "queue_ok cfg" "off < cmd_size cfg" "(unat off + 32 * k) mod unat (cmd_size cfg) = unat fin"
  shows "\<exists>r. replay_loop cfg m fin off out = Some r"
  using assms(2,3)
proof (induction k arbitrary: off out)
  case 0
  then have "off = fin" by (simp add: word_unat_eq_iff word_less_nat_alt)
  then show ?case by (subst replay_loop.simps) simp
next
  case (Suc k)
  note q = queue_step [OF assms(1) Suc.prems(1)]
  have "0 < unat (cmd_size cfg)" using assms(1) by (simp add: word_less_nat_alt)
  then have "(unat ((off + 32) mod cmd_size cfg) + 32 * k) mod unat (cmd_size cfg) = unat fin"
    using Suc.prems(2) ring_step_less [of "unat (cmd_size cfg)" "unat off" k] unfolding q(1) by simp
  then have "\<exists>r. replay_loop cfg m fin ((off + 32) mod cmd_size cfg) out' = Some r" for out' by (rule Suc.IH [OF q(2)])
  then show ?case by (subst replay_loop.simps) (auto split: sum.split)
qed

lemma replay_loop_aligned:
  assumes "replay_loop cfg m fin off out = Some r"
  shows "queue_ok cfg \<longrightarrow> off < cmd_size cfg \<longrightarrow> (\<exists>xs. r = Inr xs) \<longrightarrow> unat off mod 32 = unat fin mod 32"
proof (rule replay_loop.raw_induct [OF _ assms], goal_cases)
  case (1 loop cfg m fin off out r)
  show ?case
  proof (intro impI)
    assume q: "queue_ok cfg" "off < cmd_size cfg" "\<exists>xs. r = Inr xs"
    show "unat off mod 32 = unat fin mod 32"
    proof (cases "off = fin")
      case False
      with 1(2) q(3) obtain out' where "loop cfg m fin ((off + 32) mod cmd_size cfg) out' = Some r"
        by (auto split: sum.splits)
      from 1(1) [OF this] show ?thesis using q queue_step(2) [OF q(1,2)] queue_aligned [OF q(1,2)] by simp
    qed simp
  qed
qed

lemma queue_start:
  assumes "queue_ok cfg"
  shows "start mod cmd_size cfg < cmd_size cfg" "unat (start mod cmd_size cfg) mod 32 = unat start mod 32" "cmd_size cfg \<noteq> 0"
  using assms by (auto simp: word_less_nat_alt unat_mod mod_mod_cancel)

text \<open>
  C30. The command queue is walked to its end exactly when the read and write offsets agree modulo
  the command size: then applying and replaying both return, with a result or a memory error;
  otherwise neither ever completes, and the walk goes round the queue until a read fails or for
  ever.
\<close>

theorem its_queue_walk:
  assumes "32 dvd unat (cmd_size cfg)" "0 < cmd_size cfg" "cmd_size cfg \<le> 0x100000"
  shows "(unat start mod 32 = unat fin mod 32 \<longrightarrow>
      (\<exists>r. apply_commands cfg m start fin = Some r) \<and> (\<exists>r. replay_commands cfg m start fin = Some r)) \<and>
    (unat start mod 32 \<noteq> unat fin mod 32 \<longrightarrow>
      (\<forall>m'. apply_commands cfg m start fin \<noteq> Some (m', None)) \<and> (\<forall>xs. replay_commands cfg m start fin \<noteq> Some (Inr xs)))"
proof -
  have q: "queue_ok cfg" using assms by simp
  note s = queue_start(1,2) [OF q, of start] queue_start(3) [OF q] and f = queue_start(1,2) [OF q, of fin]
  show ?thesis
  proof (intro conjI impI)
    assume "unat start mod 32 = unat fin mod 32"
    then obtain k where "(unat (start mod cmd_size cfg) + 32 * k) mod unat (cmd_size cfg) = unat (fin mod cmd_size cfg)"
      using ring_steps [of "unat (cmd_size cfg)" "unat (start mod cmd_size cfg)" "unat (fin mod cmd_size cfg)"] assms(1) s f
      by (auto simp: word_less_nat_alt)
    then show "\<exists>r. apply_commands cfg m start fin = Some r" "\<exists>r. replay_commands cfg m start fin = Some r"
      unfolding apply_commands_def replay_commands_def
      using apply_loop_returns [OF q s(1)] replay_loop_returns [OF q s(1)] s(3) by simp_all
  next
    assume "unat start mod 32 \<noteq> unat fin mod 32"
    then show "\<forall>m'. apply_commands cfg m start fin \<noteq> Some (m', None)" "\<forall>xs. replay_commands cfg m start fin \<noteq> Some (Inr xs)"
      unfolding apply_commands_def replay_commands_def
      using apply_loop_aligned [of cfg _ "start mod cmd_size cfg" m] replay_loop_aligned [of cfg m _ "start mod cmd_size cfg" "[]"]
        q s f(2) by auto
  qed
qed

theorem its_queue_walk_witness:
  "\<exists>r. apply_commands \<lparr>its_enabled = True, device_baser = None, collection_baser = None, cmd_base = 0, cmd_size = 4096,
     cwriter = 64, creadr = 4064\<rparr> [] 4064 64 = Some r"
  using its_queue_walk [of "\<lparr>its_enabled = True, device_baser = None, collection_baser = None, cmd_base = 0, cmd_size = 4096,
     cwriter = 64, creadr = 4064\<rparr>" 4064 64 "[]"] by simp

subsection \<open>Writes stay in the tables\<close>

lemma decode_dte_bounds:
  assumes "decode_dte dte = Some d"
  shows "unat (dev_itt d) < 2 ^ 52" "unat (eventid_bits d) \<le> 32"
proof -
  have "dev_itt d = take_bit 52 (dev_itt d)"
    using assms unfolding decode_dte_def its_masks
    by (auto split: if_splits) (rule bit_word_eqI, auto simp: bit_simps)
  then have "unat (dev_itt d) = take_bit 52 (unat (dev_itt d))" by (metis unsigned_take_bit_eq)
  then show "unat (dev_itt d) < 2 ^ 52" by (metis take_bit_nat_less_exp)
  have e: "eventid_bits d = ucast ((dte AND mask 5) + 1)" using assms unfolding decode_dte_def its_masks by (auto split: if_splits)
  have "unat (dte AND mask 5) < 2 ^ 5" unfolding take_bit_eq_mask [symmetric] unsigned_take_bit_eq by (rule take_bit_nat_less_exp)
  then have "unat ((dte AND mask 5) + 1) \<le> 32" by (subst unat_add_no_wrap) simp_all
  then show "unat (eventid_bits d) \<le> 32" unfolding e by (simp add: unsigned_ucast_eq take_bit_nat_eq_self)
qed

lemma device_entry_decoded: "device_entry_of cfg m dev = Inr (Some d) \<Longrightarrow> \<exists>dte. decode_dte dte = Some d"
  by (auto simp: device_entry_of_def Let_def and_then_Inr_iff split: option.splits if_splits)

lemma ite_addr_bounds:
  assumes "device_entry_of cfg m dev = Inr (Some d)" "ite_addr d event = Some a"
  shows "unat (dev_itt d) \<le> unat a \<and> unat a + 8 \<le> unat (dev_itt d) + 8 * 2 ^ unat (eventid_bits d)"
proof -
  obtain dte where "decode_dte dte = Some d" using device_entry_decoded [OF assms(1)] by blast
  note b = decode_dte_bounds [OF this]
  then have "min (eventid_bits d) 32 = eventid_bits d" by (simp add: min_def word_le_nat_alt)
  then have "event < shl64 1 (eventid_bits d)" and a: "a = dev_itt d + event * 8"
    using assms(2) by (auto simp: ite_addr_def ITE_SIZE_def not_le split: if_splits)
  moreover have "unat (eventid_bits d) mod 64 = unat (eventid_bits d)" using b(2) by simp
  moreover from b(2) have p: "(2 :: nat) ^ unat (eventid_bits d) \<le> 2 ^ 32" by (intro power_increasing) simp_all
  moreover have "unat (2 ^ unat (eventid_bits d) :: u64) = 2 ^ unat (eventid_bits d)"
    using unat_of_nat_lt [of "2 ^ unat (eventid_bits d)", where 'a = 64] p by simp
  ultimately have ev: "unat event < 2 ^ unat (eventid_bits d)"
    by (simp add: shl64_def word_less_nat_alt unat_mod push_bit_eq_mult)
  then have "unat event < 2 ^ 32" using p by linarith
  then have m8: "unat (event * 8) = unat event * 8" by (subst unat_mult_no_wrap) simp_all
  have "unat a = unat (dev_itt d) + unat event * 8"
    unfolding a using b(1) m8 \<open>unat event < 2 ^ 32\<close> by (subst unat_add_no_wrap) simp_all
  then show ?thesis using ev by simp
qed

lemma dte_addr_words: "dte_addr cfg m dev = Inr (Some a) \<Longrightarrow> a \<in> set (device_words cfg m dev)"
  by (auto simp: dte_addr_def device_words_def table_words_def Let_def and_then_Inr_iff split: option.splits if_splits)

lemma write_confined:
  "gm_ok m \<Longrightarrow> its_write_u64 m a v = Inr m' \<Longrightarrow> gm_ok m' \<and> (\<forall>b n. disjoint_ranges a 8 b n \<longrightarrow> gm_read m' b n = gm_read m b n)"
  using ram64.put_ok [of m a v m'] ram64.rd_put_disjoint [of m a v m'] by (auto simp: its_write_Inr_iff)

lemma on_ite_cases:
  assumes "on_ite cfg m dev event f = Inr m'"
  obtains "m' = m" | d a where "device_entry_of cfg m dev = Inr (Some d)" "ite_addr d event = Some a" "f a = Inr m'"
  using assms by (auto simp: on_ite_def and_then_Inr_iff split: option.splits)



subsection \<open>Table descriptors and entries\<close>

lemma low_byte: "unat (x AND 0xff) < 256" for x :: u64
proof -
  have "unat (take_bit 8 x) < 2 ^ 8" unfolding unsigned_take_bit_eq by (rule take_bit_nat_less_exp)
  then show ?thesis by (simp add: take_bit_eq_mask mask_eq_exp_minus_1)
qed

lemma parse_kvm_queue:
  assumes "parse_kvm js kvm = Inr cfg"
  shows "queue_ok cfg"
proof -
  obtain cb where c: "cmd_size cfg = ((cb AND 0xff) + 1) * 4096"
    using assms by (auto simp: parse_kvm_def Let_def and_then_Inr_iff)
  have "unat ((cb AND 0xff) + 1) = unat (cb AND 0xff) + 1" using low_byte [of cb] by (subst unat_add_no_wrap) simp_all
  then have "unat (cmd_size cfg) = (unat (cb AND 0xff) + 1) * 4096"
    unfolding c using low_byte [of cb] by (subst unat_mult_no_wrap) simp_all
  then show ?thesis using low_byte [of cb] by (simp add: word_less_nat_alt word_le_nat_alt dvd_mult)
qed

lemma valid_bit: "drop_bit 63 x AND 1 = 0 \<longleftrightarrow> \<not> bit x 63" for x :: u64
  by (simp add: and_one_eq mod_2_eq_odd bit_iff_odd_drop_bit)

definition top_bit :: u64 where
  "top_bit = push_bit 63 1"

lemma bit_top_bit: "bit top_bit n \<longleftrightarrow> n = 63"
  unfolding top_bit_def bit_push_bit_iff bit_1_iff by auto

lemma mapd_decodes:
  assumes "bit dw2 63"
  shows "decode_dte (mapd_dte dw1 dw2) = Some \<lparr>dev_itt = dw2 AND 0x000fffffffffff00, eventid_bits = ucast ((dw1 AND 0x1f) + 1)\<rparr>"
proof -
  have m: "(0x000fffffffffff00 :: u64) = mask 52 AND NOT (mask 8)" by (simp add: mask_eq_exp_minus_1)
  define dte where "dte = top_bit OR push_bit 5 (drop_bit 8 (dw2 AND (mask 52 AND NOT (mask 8))) AND mask 44) OR (dw1 AND mask 5)"
  have e: "mapd_dte dw1 dw2 = dte" using assms unfolding mapd_dte_def valid_bit its_masks m dte_def Let_def top_bit_def by simp
  have b: "bit dte 63" unfolding dte_def by (simp add: bit_simps bit_top_bit)
  have "push_bit 8 (drop_bit 5 dte AND mask 44) = dw2 AND (mask 52 AND NOT (mask 8))" "dte AND mask 5 = dw1 AND mask 5"
    unfolding dte_def by (rule bit_word_eqI, auto simp: bit_simps bit_top_bit)+
  then show ?thesis unfolding e decode_dte_def valid_bit its_masks m using b by simp
qed

lemma mapc_decodes:
  assumes "bit dw2 63"
  shows "decode_cte (mapc_cte dw2) = Some (ucast (drop_bit 16 dw2))"
proof -
  define cte where "cte = top_bit OR push_bit 16 (drop_bit 16 dw2 AND mask 35) OR (dw2 AND mask 16)"
  have e: "mapc_cte dw2 = cte" using assms unfolding mapc_cte_def valid_bit its_masks cte_def top_bit_def by simp
  have b: "bit cte 63" unfolding cte_def by (simp add: bit_simps bit_top_bit)
  have "(ucast (drop_bit 16 cte AND mask 35) :: u32) = ucast (drop_bit 16 dw2)"
    unfolding cte_def by (rule bit_word_eqI) (auto simp: bit_simps bit_top_bit)
  then show ?thesis unfolding e decode_cte_def valid_bit its_masks using b by simp
qed

text \<open>
  The page size of a table is taken from the low bits of its page count: whatever the register's
  other bits hold, a valid descriptor has 4-kilobyte pages when its page count minus one is a
  multiple of four, 16-kilobyte pages when it is one more, and 64-kilobyte pages otherwise; the
  device table of a captured guest, whose page-size field says 64 kilobytes, decodes with
  4-kilobyte pages.
\<close>

theorem its_page_size_from_count:
  assumes "baser_parse raw = Some b"
  shows "b_page_size b = (if unat (b_num_pages b - 1) mod 4 = 0 then 4096 else if unat (b_num_pages b - 1) mod 4 = 1 then 16384 else 65536) \<and>
    map_option b_page_size (baser_parse 0xf907000040240600) = Some 4096"
proof -
  have n: "b_num_pages b - 1 = raw AND 0xff" using assms by (auto simp: baser_parse_def Let_def split: if_splits)
  have "raw AND 0x3 = (raw AND 0xff) AND 0x3" by (simp add: and.assoc)
  also have "\<dots> = take_bit 2 (raw AND 0xff)" by (simp add: take_bit_eq_mask mask_eq_exp_minus_1)
  finally have u: "unat (raw AND 0x3) = unat (raw AND 0xff) mod 4" by (simp add: unsigned_take_bit_eq take_bit_eq_mod unat_mod)
  have "raw AND 0x3 = 0 \<longleftrightarrow> unat (raw AND 0xff) mod 4 = 0" "raw AND 0x3 = 1 \<longleftrightarrow> unat (raw AND 0xff) mod 4 = 1"
    unfolding u [symmetric] by (simp_all add: word_unat_eq_iff)
  moreover have "b_page_size b = (if raw AND 0x3 = 0 then 4096 else if raw AND 0x3 = 1 then 16384 else 65536)"
    using assms by (auto simp: baser_parse_def Let_def split: if_splits)
  moreover have "map_option b_page_size (baser_parse 0xf907000040240600) = Some 4096" by (simp add: baser_parse_def Let_def)
  ultimately show ?thesis unfolding n by simp
qed

theorem its_page_size_from_count_witness:
  "\<exists>b. baser_parse 0xbc07000040250600 = Some b \<and> b_num_pages b = 1 \<and> b_page_size b = 4096"
proof -
  obtain b where b: "baser_parse 0xbc07000040250600 = Some b" "b_num_pages b = 1" by (simp add: baser_parse_def Let_def)
  then show ?thesis using its_page_size_from_count [OF b(1)] by simp
qed

subsection \<open>Injection\<close>

lemma signal_resolves: "its_signal ij m log v = log @ (case its_resolve ij m v of None \<Rightarrow> [] | Some l \<Rightarrow> [l])"
  by (auto simp: its_signal_def its_resolve_def split: sum.splits option.splits)

lemma translate_lpi: "its_translate cfg m dev event = Inr (Some l) \<Longrightarrow> GICV3_LPI_INTID_BASE \<le> lpi_intid l"
  by (auto simp: its_translate_def Let_def and_then_def not_less split: sum.splits option.splits if_splits)

end
