(* ===== verification/Rust_Text.thy ===== *)
theory Rust_Text
  imports Prelude
begin

text \<open>
  What the sources use of Rust's text library. A \<^verbatim>\<open>str\<close> is the list of its Unicode scalar
  values, so an operation that works on \<^verbatim>\<open>char\<close>s is an operation on the list, and the bytes of
  a \<^verbatim>\<open>str\<close> are its UTF-8 encoding. The lemmas are the round trips the components rely on:
  decimal numbers, IPv4 addresses and UTF-8.
\<close>

type_synonym rstr = "nat list"

definition lit :: "string \<Rightarrow> rstr" where
  "lit s = map of_char s"

subsection \<open>Trimming, case and splitting\<close>

text \<open>The code points with the Unicode property White\_Space.\<close>

definition is_whitespace :: "nat \<Rightarrow> bool" where
  "is_whitespace c \<longleftrightarrow> (9 \<le> c \<and> c \<le> 13) \<or> c = 0x20 \<or> c = 0x85 \<or> c = 0xA0 \<or> c = 0x1680 \<or>
     (0x2000 \<le> c \<and> c \<le> 0x200A) \<or> c = 0x2028 \<or> c = 0x2029 \<or> c = 0x202F \<or> c = 0x205F \<or> c = 0x3000"

definition trim_end_by :: "(nat \<Rightarrow> bool) \<Rightarrow> rstr \<Rightarrow> rstr" where
  "trim_end_by P s = rev (dropWhile P (rev s))"

definition trim :: "rstr \<Rightarrow> rstr" where
  "trim s = trim_end_by is_whitespace (dropWhile is_whitespace s)"

definition trim_end_matches :: "nat \<Rightarrow> rstr \<Rightarrow> rstr" where
  "trim_end_matches c s = trim_end_by (\<lambda>d. d = c) s"

definition ascii_lower :: "nat \<Rightarrow> nat" where
  "ascii_lower c = (if 65 \<le> c \<and> c \<le> 90 then c + 32 else c)"

definition to_ascii_lowercase :: "rstr \<Rightarrow> rstr" where
  "to_ascii_lowercase s = map ascii_lower s"

definition eq_ignore_ascii_case :: "rstr \<Rightarrow> rstr \<Rightarrow> bool" where
  "eq_ignore_ascii_case s t \<longleftrightarrow> to_ascii_lowercase s = to_ascii_lowercase t"

definition strip_prefix :: "rstr \<Rightarrow> rstr \<Rightarrow> rstr option" where
  "strip_prefix p s = (if take (length p) s = p then Some (drop (length p) s) else None)"

definition ends_with :: "rstr \<Rightarrow> rstr \<Rightarrow> bool" where
  "ends_with s t \<longleftrightarrow> take (length t) (rev s) = rev t"

definition rsplit_once :: "nat \<Rightarrow> rstr \<Rightarrow> (rstr \<times> rstr) option" where
  "rsplit_once c s =
     (case dropWhile (\<lambda>d. d \<noteq> c) (rev s) of
        [] \<Rightarrow> None
      | _ # h \<Rightarrow> Some (rev h, rev (takeWhile (\<lambda>d. d \<noteq> c) (rev s))))"

fun split_on :: "nat \<Rightarrow> rstr \<Rightarrow> rstr list" where
  "split_on c [] = [[]]"
| "split_on c (d # s) =
     (if d = c then [] # split_on c s
      else (case split_on c s of [] \<Rightarrow> [[d]] | l # ls \<Rightarrow> (d # l) # ls))"

fun join :: "rstr \<Rightarrow> rstr list \<Rightarrow> rstr" where
  "join sep [] = []"
| "join sep [l] = l"
| "join sep (l # m # ls) = l @ sep @ join sep (m # ls)"

subsection \<open>Decimal numbers\<close>

fun dec :: "nat \<Rightarrow> rstr" where
  "dec n = (if n < 10 then [48 + n] else dec (n div 10) @ [48 + n mod 10])"

definition is_digit :: "nat \<Rightarrow> bool" where
  "is_digit c \<longleftrightarrow> 48 \<le> c \<and> c \<le> 57"

definition digits_value :: "rstr \<Rightarrow> nat" where
  "digits_value s = foldl (\<lambda>v c. 10 * v + (c - 48)) 0 s"

text \<open>\<^verbatim>\<open>u16::from_str\<close>: an optional plus sign, at least one digit, a value that fits.\<close>

definition parse_u16 :: "rstr \<Rightarrow> u16 option" where
  "parse_u16 s =
     (let d = (case s of c # r \<Rightarrow> (if c = 43 then r else s) | [] \<Rightarrow> []) in
      if d \<noteq> [] \<and> list_all is_digit d \<and> digits_value d < 2 ^ 16 then Some (of_nat (digits_value d))
      else None)"

subsection \<open>IPv4 addresses\<close>

type_synonym ipv4 = "u8 \<times> u8 \<times> u8 \<times> u8"

text \<open>An octet has one to three digits, no leading zero unless it is zero itself, and fits a byte.\<close>

definition parse_octet :: "rstr \<Rightarrow> u8 option" where
  "parse_octet s =
     (if s \<noteq> [] \<and> length s \<le> 3 \<and> list_all is_digit s \<and> digits_value s < 256
         \<and> (hd s = 48 \<longrightarrow> length s = 1)
      then Some (of_nat (digits_value s)) else None)"

definition parse_ipv4 :: "rstr \<Rightarrow> ipv4 option" where
  "parse_ipv4 s =
     (case map parse_octet (split_on 46 s) of
        [Some a, Some b, Some c, Some d] \<Rightarrow> Some (a, b, c, d)
      | _ \<Rightarrow> None)"

definition show_ipv4 :: "ipv4 \<Rightarrow> rstr" where
  "show_ipv4 ip =
     (case ip of (a, b, c, d) \<Rightarrow>
        join [46] [dec (unat a), dec (unat b), dec (unat c), dec (unat d)])"

subsection \<open>UTF-8\<close>

definition utf8_char :: "nat \<Rightarrow> bytes" where
  "utf8_char c =
     (if c < 0x80 then [of_nat c]
      else if c < 0x800 then [of_nat (0xC0 + c div 64), of_nat (0x80 + c mod 64)]
      else if c < 0x10000 then
        [of_nat (0xE0 + c div 4096), of_nat (0x80 + c div 64 mod 64), of_nat (0x80 + c mod 64)]
      else
        [of_nat (0xF0 + c div 262144), of_nat (0x80 + c div 4096 mod 64),
         of_nat (0x80 + c div 64 mod 64), of_nat (0x80 + c mod 64)])"

definition as_bytes :: "rstr \<Rightarrow> bytes" where
  "as_bytes s = concat (map utf8_char s)"

definition is_cont :: "nat \<Rightarrow> bool" where
  "is_cont b \<longleftrightarrow> 0x80 \<le> b \<and> b \<le> 0xBF"

text \<open>The second bytes a leading byte admits (no overlong form, no surrogate, nothing above the range).\<close>

definition second_ok :: "nat \<Rightarrow> nat \<Rightarrow> bool" where
  "second_ok b c \<longleftrightarrow>
     is_cont c \<and> (b = 0xE0 \<longrightarrow> 0xA0 \<le> c) \<and> (b = 0xED \<longrightarrow> c \<le> 0x9F)
     \<and> (b = 0xF0 \<longrightarrow> 0x90 \<le> c) \<and> (b = 0xF4 \<longrightarrow> c \<le> 0x8F)"

text \<open>
  \<^verbatim>\<open>String::from_utf8_lossy\<close>: a well-formed sequence is decoded, each maximal ill-formed prefix
  of one becomes U+FFFD. A step takes the sequence that starts at the first byte and says
  which character it stands for and how many bytes it spends.
\<close>

definition byte_at :: "nat list \<Rightarrow> nat \<Rightarrow> nat" where
  "byte_at bs i = (if i < length bs then bs ! i else 0)"

definition utf8_step :: "nat list \<Rightarrow> nat \<times> nat" where
  "utf8_step bs =
     (let b = byte_at bs 0; c = byte_at bs 1; d = byte_at bs 2; e = byte_at bs 3 in
      if b < 0x80 then (b, 1)
      else if 0xC2 \<le> b \<and> b \<le> 0xDF then
        (if is_cont c then ((b - 0xC0) * 64 + (c - 0x80), 2) else (0xFFFD, 1))
      else if 0xE0 \<le> b \<and> b \<le> 0xEF then
        (if \<not> second_ok b c then (0xFFFD, 1)
         else if is_cont d then (((b - 0xE0) * 64 + (c - 0x80)) * 64 + (d - 0x80), 3)
         else (0xFFFD, 2))
      else if 0xF0 \<le> b \<and> b \<le> 0xF4 then
        (if \<not> second_ok b c then (0xFFFD, 1)
         else if \<not> is_cont d then (0xFFFD, 2)
         else if is_cont e
         then ((((b - 0xF0) * 64 + (c - 0x80)) * 64 + (d - 0x80)) * 64 + (e - 0x80), 4)
         else (0xFFFD, 3))
      else (0xFFFD, 1))"

lemma utf8_step_spends: "utf8_step bs = (c, n) \<Longrightarrow> 0 < n"
  by (auto simp: utf8_step_def Let_def split: if_splits)

function utf8_lossy :: "nat list \<Rightarrow> rstr" where
  "utf8_lossy bs =
     (if bs = [] then []
      else (case utf8_step bs of (c, n) \<Rightarrow> c # utf8_lossy (drop n bs)))"
  by auto
termination by (relation "measure length") (auto dest: utf8_step_spends [OF sym])

declare utf8_lossy.simps [simp del]

definition from_utf8_lossy :: "bytes \<Rightarrow> rstr" where
  "from_utf8_lossy bs = utf8_lossy (map unat bs)"

subsection \<open>Round trips\<close>

declare dec.simps [simp del]

lemma dec_small: "n < 10 \<Longrightarrow> dec n = [48 + n]"
  by (simp add: dec.simps)

lemma dec_big: "10 \<le> n \<Longrightarrow> dec n = dec (n div 10) @ [48 + n mod 10]"
  by (subst dec.simps) simp

lemma dec_not_Nil [simp]: "dec n \<noteq> []"
  by (subst dec.simps) simp

lemma dec_digits: "list_all is_digit (dec n)"
proof (induction n rule: dec.induct)
  case (1 n)
  show ?case
  proof (cases "n < 10")
    case True
    then show ?thesis by (simp add: dec_small is_digit_def)
  next
    case False
    have "n mod 10 < 10" by simp
    with False 1 show ?thesis by (simp add: dec_big is_digit_def)
  qed
qed

lemma dec_not_elem: "\<not> is_digit c \<Longrightarrow> c \<notin> set (dec n)"
  using dec_digits [of n] by (auto simp: list_all_iff)

lemma digits_value_snoc: "digits_value (s @ [c]) = 10 * digits_value s + (c - 48)"
  by (simp add: digits_value_def)

lemma digits_value_dec [simp]: "digits_value (dec n) = n"
proof (induction n rule: dec.induct)
  case (1 n)
  show ?case
  proof (cases "n < 10")
    case True
    then show ?thesis by (simp add: dec_small digits_value_def)
  next
    case False
    with 1 show ?thesis by (simp add: dec_big digits_value_snoc)
  qed
qed

lemma dec_inj: "dec m = dec n \<longleftrightarrow> m = n"
  by (metis digits_value_dec)

lemma dec_head: "hd (dec n) = 48 \<Longrightarrow> n = 0"
proof (induction n rule: dec.induct)
  case (1 n)
  show ?case
  proof (cases "n < 10")
    case True
    with 1(2) show ?thesis by (simp add: dec_small)
  next
    case False
    with 1(2) have "hd (dec (n div 10)) = 48" by (simp add: dec_big)
    with 1(1) False have "n div 10 = 0" by blast
    with False show ?thesis by simp
  qed
qed

lemma length_dec_octet: "n < 256 \<Longrightarrow> length (dec n) \<le> 3"
proof -
  assume n: "n < 256"
  show ?thesis
  proof (cases "n < 10")
    case True
    then show ?thesis by (simp add: dec_small)
  next
    case big: False
    show ?thesis
    proof (cases "n div 10 < 10")
      case True
      with big show ?thesis by (simp add: dec_big dec_small)
    next
      case False
      moreover have "n div 10 div 10 < 10" using n by simp
      ultimately show ?thesis using big by (simp add: dec_big [of n] dec_big [of "n div 10"] dec_small)
    qed
  qed
qed

lemma parse_u16_dec [simp]: "parse_u16 (dec (unat p)) = Some p"
proof -
  have b: "unat p < 65536" using unsigned_less [of p] by simp
  have "43 \<notin> set (dec (unat p))" by (rule dec_not_elem) (simp add: is_digit_def)
  then have "(case dec (unat p) of c # r \<Rightarrow> (if c = 43 then r else dec (unat p)) | [] \<Rightarrow> []) = dec (unat p)"
    by (cases "dec (unat p)") auto
  then show ?thesis using dec_digits [of "unat p"] b by (simp add: parse_u16_def)
qed

lemma parse_octet_dec [simp]: "parse_octet (dec (unat a)) = Some a"
proof -
  have b: "unat a < 256" using unsigned_less [of a] by simp
  have "hd (dec (unat a)) = 48 \<longrightarrow> length (dec (unat a)) = 1"
    using dec_head [of "unat a"] by (auto simp: dec_small)
  then show ?thesis using dec_digits [of "unat a"] length_dec_octet [OF b] b
    by (simp add: parse_octet_def)
qed

lemma split_on_free: "c \<notin> set l \<Longrightarrow> split_on c l = [l]"
  by (induction l) auto

lemma split_on_cons: "c \<notin> set l \<Longrightarrow> split_on c (l @ c # s) = l # split_on c s"
  by (induction l) auto

lemma split_on_join:
  "ls \<noteq> [] \<Longrightarrow> \<forall>l \<in> set ls. c \<notin> set l \<Longrightarrow> split_on c (join [c] ls) = ls"
proof (induction ls rule: induct_list012)
  case (3 l m ls)
  then show ?case by (simp add: split_on_cons)
qed (auto simp: split_on_free)

lemma split_on_not_Nil [simp]: "split_on c s \<noteq> []"
  by (induction s) (auto split: list.split)

lemma join_cons: "ls \<noteq> [] \<Longrightarrow> join sep (l # ls) = l @ sep @ join sep ls"
  by (cases ls) simp_all

lemma join_split: "join [c] (split_on c s) = s"
proof (induction s)
  case (Cons d s)
  show ?case
  proof (cases "d = c")
    case True
    then show ?thesis using Cons by (simp add: join_cons)
  next
    case False
    obtain l ls where s: "split_on c s = l # ls" by (cases "split_on c s") auto
    with False Cons show ?thesis by (cases ls) auto
  qed
qed simp

lemma parse_show_ipv4 [simp]: "parse_ipv4 (show_ipv4 ip) = Some ip"
proof -
  obtain a b c d where ip: "ip = (a, b, c, d)" by (cases ip)
  have "46 \<notin> set (dec n)" for n by (rule dec_not_elem) (simp add: is_digit_def)
  then have "split_on 46 (show_ipv4 ip) = [dec (unat a), dec (unat b), dec (unat c), dec (unat d)]"
    unfolding ip show_ipv4_def prod.case by (intro split_on_join) auto
  then show ?thesis by (simp add: parse_ipv4_def ip)
qed

lemma rsplit_once_last: "c \<notin> set p \<Longrightarrow> rsplit_once c (h @ c # p) = Some (h, p)"
proof -
  assume "c \<notin> set p"
  then have c: "\<forall>d \<in> set (rev p). d \<noteq> c" by auto
  then have "dropWhile (\<lambda>d. d \<noteq> c) (rev p @ c # rev h) = c # rev h"
    "takeWhile (\<lambda>d. d \<noteq> c) (rev p @ c # rev h) = rev p"
    using dropWhile_append2 [of "rev p" "\<lambda>d. d \<noteq> c" "c # rev h"]
      takeWhile_append2 [of "rev p" "\<lambda>d. d \<noteq> c" "c # rev h"] by auto
  then show ?thesis by (simp add: rsplit_once_def)
qed

lemma rsplit_once_none: "c \<notin> set s \<Longrightarrow> rsplit_once c s = None"
proof -
  assume "c \<notin> set s"
  then have "dropWhile (\<lambda>d. d \<noteq> c) (rev s) = []" by (auto simp: dropWhile_eq_Nil_conv)
  then show ?thesis by (simp only: rsplit_once_def list.case)
qed

lemma trim_end_by_id: "s \<noteq> [] \<Longrightarrow> \<not> P (last s) \<Longrightarrow> trim_end_by P s = s"
proof -
  assume s: "s \<noteq> []" "\<not> P (last s)"
  then have "dropWhile P (rev s) = rev s" by (cases "rev s") (auto simp: hd_rev [symmetric])
  then show ?thesis by (simp add: trim_end_by_def)
qed

lemma trim_id: "\<forall>c \<in> set s. \<not> is_whitespace c \<Longrightarrow> trim s = s"
proof -
  assume w: "\<forall>c \<in> set s. \<not> is_whitespace c"
  then have "dropWhile is_whitespace s = s" by (cases s) auto
  with w show ?thesis
    by (cases "s = []") (auto simp: trim_def trim_end_by_id, simp add: trim_end_by_def)
qed

lemma lower_id: "\<forall>c \<in> set s. c < 65 \<or> 90 < c \<Longrightarrow> to_ascii_lowercase s = s"
  by (auto simp: to_ascii_lowercase_def ascii_lower_def intro!: map_idI)

lemma lower_lower [simp]: "to_ascii_lowercase (to_ascii_lowercase s) = to_ascii_lowercase s"
  by (simp add: to_ascii_lowercase_def ascii_lower_def)

definition scalar :: "nat \<Rightarrow> bool" where
  "scalar c \<longleftrightarrow> c < 0x110000 \<and> \<not> (0xD800 \<le> c \<and> c \<le> 0xDFFF)"

lemma unat_byte: "n < 256 \<Longrightarrow> unat (of_nat n :: u8) = n"
  by (rule unat_of_nat_lt) simp

lemma unat_byte_add: "numeral k + n < 256 \<Longrightarrow> unat (numeral k + of_nat n :: u8) = numeral k + n"
  using unat_byte [of "numeral k + n"] by simp

lemma byte_at_simps [simp]:
  "byte_at (x # xs) 0 = x"
  "byte_at (x # xs) (Suc 0) = byte_at xs 0"
  "byte_at (x # xs) 2 = byte_at xs 1"
  "byte_at (x # xs) 3 = byte_at xs 2"
  by (simp_all add: byte_at_def numeral_2_eq_2 numeral_3_eq_3)

lemma utf8_step_1: "c < 0x80 \<Longrightarrow> utf8_step (map unat (utf8_char c) @ r) = (c, 1)"
  by (simp add: utf8_char_def utf8_step_def unat_byte)

lemma utf8_step_2:
  assumes "0x80 \<le> c" "c < 0x800"
  shows "utf8_step (map unat (utf8_char c) @ r) = (c, 2)"
proof -
  have e: "map unat (utf8_char c) = [0xC0 + c div 64, 0x80 + c mod 64]"
  proof -
    have "c div 64 < 32" using assms by (simp add: less_mult_imp_div_less)
    moreover have "c mod 64 < 64" by simp
    ultimately show ?thesis using assms by (simp add: utf8_char_def unat_byte_add)
  qed
  have d: "2 \<le> c div 64" "c div 64 \<le> 31" using assms by simp_all
  have m: "c mod 64 \<le> 63" by (simp add: less_Suc_eq_le [symmetric])
  have "c div 64 * 64 + c mod 64 = c" by (rule div_mult_mod_eq)
  then show ?thesis using d m by (simp add: e utf8_step_def is_cont_def Let_def)
qed

lemma utf8_step_3:
  assumes "0x800 \<le> c" "c < 0x10000" "scalar c"
  shows "utf8_step (map unat (utf8_char c) @ r) = (c, 3)"
proof -
  define x y z where xyz: "x = c div 4096" "y = c div 64 mod 64" "z = c mod 64"
  have b: "x < 16" "y < 64" "z < 64" using assms by (simp_all add: xyz less_mult_imp_div_less)
  have c: "c = (x * 64 + y) * 64 + z"
    using div_mult_mod_eq [of c 64] div_mult_mod_eq [of "c div 64" 64]
    by (simp add: xyz div_mult2_eq [symmetric])
  have e: "map unat (utf8_char c) = [0xE0 + x, 0x80 + y, 0x80 + z]"
    using assms b by (simp add: utf8_char_def unat_byte_add xyz)
  have "second_ok (0xE0 + x) (0x80 + y)"
    using assms b unfolding second_ok_def is_cont_def scalar_def c by auto
  then show ?thesis using b
    by (simp add: e utf8_step_def is_cont_def Let_def) (simp add: c)
qed

lemma utf8_step_4:
  assumes "0x10000 \<le> c" "scalar c"
  shows "utf8_step (map unat (utf8_char c) @ r) = (c, 4)"
proof -
  define w x y z where wxyz: "w = c div 262144" "x = c div 4096 mod 64" "y = c div 64 mod 64" "z = c mod 64"
  have cb: "c < 0x110000" using assms by (simp add: scalar_def)
  have b: "w < 5" "x < 64" "y < 64" "z < 64" using cb by (simp_all add: wxyz less_mult_imp_div_less)
  have c: "c = ((w * 64 + x) * 64 + y) * 64 + z"
    using div_mult_mod_eq [of c 64] div_mult_mod_eq [of "c div 64" 64] div_mult_mod_eq [of "c div 4096" 64]
    by (simp add: wxyz div_mult2_eq [symmetric])
  have e: "map unat (utf8_char c) = [0xF0 + w, 0x80 + x, 0x80 + y, 0x80 + z]"
    using assms b by (simp add: utf8_char_def unat_byte_add wxyz)
  have "second_ok (0xF0 + w) (0x80 + x)"
    using assms cb b unfolding second_ok_def is_cont_def c by auto
  then show ?thesis using b
    by (simp add: e utf8_step_def is_cont_def Let_def) (simp add: c)
qed

lemma utf8_step_char:
  "scalar c \<Longrightarrow> utf8_step (map unat (utf8_char c) @ r) = (c, length (utf8_char c))"
  using utf8_step_1 [of c r] utf8_step_2 [of c r] utf8_step_3 [of c r] utf8_step_4 [of c r]
  by (cases "c < 0x80"; cases "c < 0x800"; cases "c < 0x10000") (simp_all add: utf8_char_def)

lemma from_utf8_as_bytes [simp]: "list_all scalar s \<Longrightarrow> from_utf8_lossy (as_bytes s) = s"
proof (induction s)
  case Nil
  then show ?case by (simp add: from_utf8_lossy_def as_bytes_def utf8_lossy.simps)
next
  case (Cons c s)
  let ?b = "map unat (utf8_char c)" and ?r = "map unat (as_bytes s)"
  have "utf8_lossy (?b @ ?r) = c # utf8_lossy ?r"
    using Cons(2) utf8_step_char [of c ?r] by (subst utf8_lossy.simps) (auto simp: utf8_char_def)
  then show ?case using Cons by (simp add: from_utf8_lossy_def as_bytes_def)
qed

lemma as_bytes_Nil_iff [simp]: "as_bytes s = [] \<longleftrightarrow> s = []"
  by (cases s) (simp_all add: as_bytes_def utf8_char_def)

end
