(* ===== verification/Egress.thy ===== *)
theory Egress
  imports Rust_Text
begin

text \<open>
  The egress policy of the userspace NAT: \<^verbatim>\<open>src/hypervisor/src/hvf/virtio/nat/policy.rs\<close> and the
  reserved-address guard of \<^verbatim>\<open>nat/reserved.rs\<close>. A policy is a list of deny rules, a list of
  allow rules, a default and a cache from addresses to the names they were resolved from; it is
  consulted for every DNS question and every TCP connect. \<^verbatim>\<open>Instant::now()\<close> is the argument
  \<open>now\<close>, in nanoseconds of a monotonic clock, and an earlier-than-recorded \<open>now\<close> counts as no
  time elapsed, as \<^verbatim>\<open>Instant::duration_since\<close> has it.
\<close>

subsection \<open>Reserved addresses\<close>

definition is_private :: "ipv4 \<Rightarrow> bool" where
  "is_private ip = (case ip of (a, b, _, _) \<Rightarrow>
     a = 10 \<or> (a = 172 \<and> 16 \<le> b \<and> b \<le> 31) \<or> (a = 192 \<and> b = 168))"

definition is_loopback :: "ipv4 \<Rightarrow> bool" where
  "is_loopback ip = (case ip of (a, _, _, _) \<Rightarrow> a = 127)"

definition is_link_local :: "ipv4 \<Rightarrow> bool" where
  "is_link_local ip = (case ip of (a, b, _, _) \<Rightarrow> a = 169 \<and> b = 254)"

definition is_multicast :: "ipv4 \<Rightarrow> bool" where
  "is_multicast ip = (case ip of (a, _, _, _) \<Rightarrow> 224 \<le> a \<and> a \<le> 239)"

definition is_documentation :: "ipv4 \<Rightarrow> bool" where
  "is_documentation ip = (case ip of (a, b, c, _) \<Rightarrow>
     (a = 192 \<and> b = 0 \<and> c = 2) \<or> (a = 198 \<and> b = 51 \<and> c = 100) \<or> (a = 203 \<and> b = 0 \<and> c = 113))"

definition is_reserved_egress_ip :: "ipv4 \<Rightarrow> bool" where
  "is_reserved_egress_ip ip = (case ip of (a, b, _, _) \<Rightarrow>
     is_private ip \<or> is_loopback ip \<or> is_link_local ip \<or> is_multicast ip
     \<or> ip = (255, 255, 255, 255) \<or> ip = (0, 0, 0, 0) \<or> is_documentation ip
     \<or> a = 0
     \<or> (a = 100 \<and> 64 \<le> b \<and> b \<le> 127)
     \<or> (a = 192 \<and> b = 0)
     \<or> (a = 198 \<and> (b = 18 \<or> b = 19))
     \<or> 240 \<le> a)"

subsection \<open>Decisions and rules\<close>

datatype decision = Allow rstr | Deny rstr

fun is_allow :: "decision \<Rightarrow> bool" where
  "is_allow (Allow _) = True"
| "is_allow (Deny _) = False"

fun decision_rule :: "decision \<Rightarrow> rstr" where
  "decision_rule (Allow r) = r"
| "decision_rule (Deny r) = r"

datatype amendment = Amend_Allow rstr | Amend_Deny rstr

fun entry :: "amendment \<Rightarrow> rstr" where
  "entry (Amend_Allow e) = e"
| "entry (Amend_Deny e) = e"

fun amend_is_allow :: "amendment \<Rightarrow> bool" where
  "amend_is_allow (Amend_Allow _) = True"
| "amend_is_allow (Amend_Deny _) = False"

record amend_outcome =
  o_label :: rstr
  o_rule :: rstr
  o_allowed :: bool
  o_superseded :: "rstr list"
  o_established_retained :: nat

datatype host_match = Any | Exact rstr | Suffix rstr | Ip ipv4

definition normal_host :: "rstr \<Rightarrow> rstr" where
  "normal_host host = to_ascii_lowercase (trim_end_matches 46 (trim host))"

definition host_match_parse :: "rstr \<Rightarrow> host_match" where
  "host_match_parse host =
     (let h = normal_host host in
      if h = lit ''*'' \<or> h = [] then Any
      else case strip_prefix (lit ''*.'') h of
          Some rest \<Rightarrow> Suffix rest
        | None \<Rightarrow> (case parse_ipv4 h of Some ip \<Rightarrow> Ip ip | None \<Rightarrow> Exact h))"

definition matches_host :: "host_match \<Rightarrow> rstr \<Rightarrow> bool" where
  "matches_host m host =
     (let h = normal_host host in
      case m of
        Any \<Rightarrow> True
      | Exact e \<Rightarrow> e = h
      | Suffix d \<Rightarrow> h = d \<or> ends_with h (lit ''.'' @ d)
      | Ip _ \<Rightarrow> False)"

definition matches_ip :: "host_match \<Rightarrow> ipv4 \<Rightarrow> bool" where
  "matches_ip m ip =
     (case m of Any \<Rightarrow> True | Ip rule_ip \<Rightarrow> rule_ip = ip | Exact _ \<Rightarrow> False | Suffix _ \<Rightarrow> False)"

record rule =
  r_host :: host_match
  r_port :: "u16 option"
  r_raw :: rstr
  r_note :: "rstr option"

definition rule_parse :: "rstr \<Rightarrow> rule" where
  "rule_parse raw =
     (let text = trim raw;
          (host, port) =
            (case rsplit_once 58 text of
               Some (h, p) \<Rightarrow>
                 (if h \<noteq> [] \<and> parse_u16 p \<noteq> None then (h, parse_u16 p) else (text, None))
             | None \<Rightarrow> (text, None))
      in \<lparr>r_host = host_match_parse host, r_port = port, r_raw = text, r_note = None\<rparr>)"

definition port_matches :: "rule \<Rightarrow> u16 \<Rightarrow> bool" where
  "port_matches r port = (case r_port r of None \<Rightarrow> True | Some p \<Rightarrow> p = port)"

definition describe :: "rule \<Rightarrow> rstr" where
  "describe r =
     (case r_note r of Some note \<Rightarrow> r_raw r @ lit '' ('' @ note @ lit '')'' | None \<Rightarrow> r_raw r)"

subsection \<open>The resolve cache\<close>

record resolve_cache =
  entries :: "ipv4 \<rightharpoonup> rstr \<times> nat"
  ttl :: "nat option"

definition cache_record :: "resolve_cache \<Rightarrow> ipv4 \<Rightarrow> rstr \<Rightarrow> nat \<Rightarrow> resolve_cache" where
  "cache_record c ip host now = c\<lparr>entries := (entries c)(ip \<mapsto> (to_ascii_lowercase host, now))\<rparr>"

definition cache_lookup :: "resolve_cache \<Rightarrow> ipv4 \<Rightarrow> nat \<Rightarrow> rstr option" where
  "cache_lookup c ip now =
     (case entries c ip of
        None \<Rightarrow> None
      | Some (host, at) \<Rightarrow>
          (case ttl c of
             Some t \<Rightarrow> (if now - at > t then None else Some host)
           | None \<Rightarrow> Some host))"

subsection \<open>The policy\<close>

record egress_policy =
  default_allow :: bool
  p_allow :: "rule list"
  p_deny :: "rule list"
  p_cache :: resolve_cache
  p_label :: rstr
  base_label :: rstr
  amendments :: u32
  allow_local_egress :: bool

definition render_rules :: "rule list \<Rightarrow> rstr" where
  "render_rules rules =
     (let shown = map r_raw (take 4 rules) in
      if length rules > 4
      then join (lit '', '') shown @ lit '' and '' @ dec (length rules - 4) @ lit '' more''
      else join (lit '', '') shown)"

definition allow_all :: egress_policy where
  "allow_all =
     \<lparr>default_allow = True, p_allow = [], p_deny = [],
      p_cache = \<lparr>entries = Map.empty, ttl = None\<rparr>,
      p_label = lit ''allow-all'', base_label = lit ''allow-all'',
      amendments = 0, allow_local_egress = False\<rparr>"

definition from_profile :: "rstr \<Rightarrow> rstr list \<Rightarrow> rstr list \<Rightarrow> rstr \<Rightarrow> egress_policy" where
  "from_profile dflt allow deny label =
     \<lparr>default_allow = (\<not> eq_ignore_ascii_case dflt (lit ''deny'')),
      p_allow = map rule_parse allow, p_deny = map rule_parse deny,
      p_cache = \<lparr>entries = Map.empty, ttl = Some (600 * 10 ^ 9)\<rparr>,
      p_label = label, base_label = label,
      amendments = 0, allow_local_egress = False\<rparr>"

definition set_allow_local_egress :: "egress_policy \<Rightarrow> bool \<Rightarrow> egress_policy" where
  "set_allow_local_egress p allow = p\<lparr>allow_local_egress := allow\<rparr>"

definition allow_implied :: "egress_policy \<Rightarrow> rstr list \<Rightarrow> rstr \<Rightarrow> egress_policy" where
  "allow_implied p es source =
     foldl (\<lambda>q e. q\<lparr>p_allow := p_allow q @ [(rule_parse e)\<lparr>r_note := Some source\<rparr>]\<rparr>) p es"

definition same_target :: "rule \<Rightarrow> rule \<Rightarrow> bool" where
  "same_target r s \<longleftrightarrow> r_host r = r_host s \<and> r_port r = r_port s"

definition amend :: "egress_policy \<Rightarrow> amendment \<Rightarrow> egress_policy \<times> amend_outcome" where
  "amend p a =
     (let r = rule_parse (entry a);
          allowed = amend_is_allow a;
          losers = (if allowed then p_deny p else p_allow p);
          superseded = map describe (filter (\<lambda>s. same_target s r) losers);
          kept = filter (\<lambda>s. \<not> same_target s r) losers;
          q = (if allowed then p\<lparr>p_deny := kept, p_allow := p_allow p @ [r]\<rparr>
               else p\<lparr>p_allow := kept, p_deny := p_deny p @ [r]\<rparr>);
          n = amendments p + 1;
          lab = base_label p @ lit ''+live'' @ dec (unat n)
      in (q\<lparr>amendments := n, p_label := lab\<rparr>,
          \<lparr>o_label = lab, o_rule = r_raw r, o_allowed = allowed, o_superseded = superseded,
           o_established_retained = 0\<rparr>))"

definition is_restrictive :: "egress_policy \<Rightarrow> bool" where
  "is_restrictive p \<longleftrightarrow> \<not> default_allow p \<or> p_deny p \<noteq> []"

definition posture_summary :: "egress_policy \<Rightarrow> rstr" where
  "posture_summary p =
     (let s = (if default_allow p then
                 (if p_deny p = [] then lit ''the public internet is reachable''
                  else lit ''the public internet is reachable except '' @ render_rules (p_deny p))
               else if p_allow p = [] then lit ''nothing is reachable''
               else lit ''only '' @ render_rules (p_allow p) @ lit '' ''
                    @ (if length (p_allow p) = 1 then lit ''is'' else lit ''are'') @ lit '' reachable'');
          s = (if allow_local_egress p
               then s @ lit ''; the host, this LAN and cloud metadata are reachable too'' else s)
      in if amendments p > 0
         then s @ lit ''; changed live since start ('' @ dec (unat (amendments p)) @ lit '' amendment''
              @ (if amendments p = 1 then [] else lit ''s'') @ lit '', policy '' @ p_label p
              @ lit '' was '' @ base_label p @ lit '')''
         else s)"

definition record_resolution :: "egress_policy \<Rightarrow> nat \<Rightarrow> rstr \<Rightarrow> ipv4 \<Rightarrow> egress_policy" where
  "record_resolution p now host ip = p\<lparr>p_cache := cache_record (p_cache p) ip host now\<rparr>"

definition default_decision :: "egress_policy \<Rightarrow> decision" where
  "default_decision p =
     (if default_allow p then Allow (lit ''default-allow'') else Deny (lit ''default-deny''))"

definition decide_dns :: "egress_policy \<Rightarrow> rstr \<Rightarrow> decision" where
  "decide_dns p host =
     (case find (\<lambda>r. matches_host (r_host r) host) (p_deny p) of
        Some r \<Rightarrow> Deny (lit ''deny '' @ describe r)
      | None \<Rightarrow>
          (case find (\<lambda>r. matches_host (r_host r) host) (p_allow p) of
             Some r \<Rightarrow> Allow (lit ''allow '' @ describe r)
           | None \<Rightarrow> default_decision p))"

definition resolved_host :: "egress_policy \<Rightarrow> nat \<Rightarrow> ipv4 \<Rightarrow> rstr option" where
  "resolved_host p now ip = cache_lookup (p_cache p) ip now"

definition rule_hits :: "rstr option \<Rightarrow> ipv4 \<Rightarrow> u16 \<Rightarrow> rule \<Rightarrow> bool" where
  "rule_hits host ip port r \<longleftrightarrow>
     port_matches r port
     \<and> (matches_ip (r_host r) ip
        \<or> (case host of Some h \<Rightarrow> matches_host (r_host r) h | None \<Rightarrow> False))"

definition decide_connect :: "egress_policy \<Rightarrow> nat \<Rightarrow> ipv4 \<Rightarrow> u16 \<Rightarrow> decision" where
  "decide_connect p now ip port =
     (let host = cache_lookup (p_cache p) ip now in
      case find (rule_hits host ip port) (p_deny p) of
        Some r \<Rightarrow> Deny (lit ''deny '' @ describe r)
      | None \<Rightarrow>
          (if \<not> allow_local_egress p \<and> is_reserved_egress_ip ip
              \<and> \<not> (\<exists>r \<in> set (p_allow p). port_matches r port \<and> matches_ip (r_host r) ip)
           then Deny (lit ''reserved-address'')
           else case find (rule_hits host ip port) (p_allow p) of
               Some r \<Rightarrow> Allow (lit ''allow '' @ describe r)
             | None \<Rightarrow> default_decision p))"

subsection \<open>What a decision is\<close>

lemmas text_eval = lit_def trim_def trim_end_by_def trim_end_matches_def is_whitespace_def
  to_ascii_lowercase_def ascii_lower_def eq_ignore_ascii_case_def strip_prefix_def rsplit_once_def
  parse_u16_def parse_ipv4_def parse_octet_def is_digit_def digits_value_def

lemmas rule_eval = text_eval rule_parse_def host_match_parse_def normal_host_def Let_def

lemma find_hit: "(case find P xs of Some r \<Rightarrow> f r | None \<Rightarrow> y) = (if \<exists>x \<in> set xs. P x then f (the (find P xs)) else y)"
  by (auto simp: find_None_iff split: option.split) (metis find_None_iff2 option.distinct(1))

lemma decide_connect_iff:
  "is_allow (decide_connect p now ip port) \<longleftrightarrow>
     (let hit = rule_hits (resolved_host p now ip) ip port in
      \<not> (\<exists>r \<in> set (p_deny p). hit r)
      \<and> (allow_local_egress p \<or> \<not> is_reserved_egress_ip ip
         \<or> (\<exists>r \<in> set (p_allow p). port_matches r port \<and> matches_ip (r_host r) ip))
      \<and> (default_allow p \<or> (\<exists>r \<in> set (p_allow p). hit r)))"
  by (auto simp: decide_connect_def resolved_host_def Let_def default_decision_def find_hit)

lemma decide_dns_iff:
  "is_allow (decide_dns p host) \<longleftrightarrow>
     \<not> (\<exists>r \<in> set (p_deny p). matches_host (r_host r) host)
     \<and> (default_allow p \<or> (\<exists>r \<in> set (p_allow p). matches_host (r_host r) host))"
  by (auto simp: decide_dns_def default_decision_def find_hit)

lemma amend_fields:
  "p_cache (fst (amend p a)) = p_cache p"
  "default_allow (fst (amend p a)) = default_allow p"
  "allow_local_egress (fst (amend p a)) = allow_local_egress p"
  "base_label (fst (amend p a)) = base_label p"
  "amendments (fst (amend p a)) = amendments p + 1"
  "p_label (fst (amend p a)) = base_label p @ lit ''+live'' @ dec (unat (amendments p + 1))"
  "o_label (snd (amend p a)) = p_label (fst (amend p a))"
  by (simp_all add: amend_def Let_def)

lemma amend_deny_rules:
  "p_deny (fst (amend p (Amend_Deny e))) = p_deny p @ [rule_parse e]"
  "p_allow (fst (amend p (Amend_Deny e))) = filter (\<lambda>s. \<not> same_target s (rule_parse e)) (p_allow p)"
  by (simp_all add: amend_def Let_def)

lemma amend_allow_rules:
  "p_allow (fst (amend p (Amend_Allow e))) = p_allow p @ [rule_parse e]"
  "p_deny (fst (amend p (Amend_Allow e))) = filter (\<lambda>s. \<not> same_target s (rule_parse e)) (p_deny p)"
  by (simp_all add: amend_def Let_def)

lemma resolved_amend: "resolved_host (fst (amend p a)) = resolved_host p"
  by (simp add: resolved_host_def amend_fields fun_eq_iff)

lemma same_target_hits: "same_target r s \<Longrightarrow> rule_hits h ip port r = rule_hits h ip port s"
  by (auto simp: same_target_def rule_hits_def port_matches_def split: option.splits)

text \<open>How text becomes a rule: an address, with or without a port, names that address.\<close>

lemma octet_chars: "c \<in> set (show_ipv4 ip) \<Longrightarrow> is_digit c \<or> c = 46"
  using dec_digits by (cases ip) (auto simp: show_ipv4_def list_all_iff)

lemma show_ipv4_last: "last (show_ipv4 ip) \<noteq> 46"
proof -
  obtain a b c d where "ip = (a, b, c, d)" by (cases ip)
  moreover have "last (dec n) \<noteq> 46" for n
  proof -
    have "46 \<notin> set (dec n)" by (rule dec_not_elem) (simp add: is_digit_def)
    with last_in_set [of "dec n"] show ?thesis by fastforce
  qed
  ultimately show ?thesis by (simp add: show_ipv4_def)
qed

lemma show_ipv4_not_Nil: "show_ipv4 ip \<noteq> []"
  by (cases ip) (simp add: show_ipv4_def)

lemma normal_show_ipv4: "normal_host (show_ipv4 ip) = show_ipv4 ip"
proof -
  have c: "is_digit c \<or> c = 46" if "c \<in> set (show_ipv4 ip)" for c
    using that by (rule octet_chars)
  have "trim (show_ipv4 ip) = show_ipv4 ip"
    using c by (intro trim_id) (fastforce simp: is_whitespace_def is_digit_def)
  moreover have "trim_end_matches 46 (show_ipv4 ip) = show_ipv4 ip"
    by (simp add: trim_end_matches_def trim_end_by_id show_ipv4_last show_ipv4_not_Nil)
  moreover have "to_ascii_lowercase (show_ipv4 ip) = show_ipv4 ip"
    using c by (intro lower_id) (fastforce simp: is_digit_def)
  ultimately show ?thesis by (simp add: normal_host_def)
qed

lemma star_code: "lit ''*'' = [42]" "lit ''*.'' = [42, 46]" "lit ''.'' = [46]"
  by (simp_all add: lit_def)

lemma host_match_show: "host_match_parse (show_ipv4 ip) = Ip ip"
proof -
  obtain x xs where s: "show_ipv4 ip = x # xs" using show_ipv4_not_Nil by (cases "show_ipv4 ip") auto
  then have "x \<noteq> 42" using octet_chars [of x ip] by (auto simp: is_digit_def)
  then have "show_ipv4 ip \<noteq> [42]" "strip_prefix [42, 46] (show_ipv4 ip) = None"
    by (auto simp: s strip_prefix_def)
  then show ?thesis
    by (simp add: host_match_parse_def normal_show_ipv4 show_ipv4_not_Nil star_code Let_def)
qed

lemma rule_parse_ip:
  "rule_parse (show_ipv4 ip) = \<lparr>r_host = Ip ip, r_port = None, r_raw = show_ipv4 ip, r_note = None\<rparr>"
proof -
  have t: "trim (show_ipv4 ip) = show_ipv4 ip"
    by (intro trim_id) (auto dest!: octet_chars simp: is_whitespace_def is_digit_def)
  have "58 \<notin> set (show_ipv4 ip)" by (auto dest: octet_chars simp: is_digit_def)
  then show ?thesis by (simp add: rule_parse_def t rsplit_once_none host_match_show)
qed

lemma rule_parse_ip_port:
  "rule_parse (show_ipv4 ip @ 58 # dec (unat port)) =
     \<lparr>r_host = Ip ip, r_port = Some port, r_raw = show_ipv4 ip @ 58 # dec (unat port), r_note = None\<rparr>"
proof -
  have d: "\<forall>c \<in> set (dec n). is_digit c" for n using dec_digits by (simp add: list_all_iff)
  have n: "58 \<notin> set (dec (unat port))" by (rule dec_not_elem) (simp add: is_digit_def)
  have "trim (show_ipv4 ip @ 58 # dec (unat port)) = show_ipv4 ip @ 58 # dec (unat port)"
    using d by (intro trim_id) (fastforce dest!: octet_chars simp: is_whitespace_def is_digit_def)
  then show ?thesis
    by (simp add: rule_parse_def rsplit_once_last [OF n] host_match_show show_ipv4_not_Nil)
qed

text \<open>How a wildcard rule reads: it names its domain and every name under it, label by label.\<close>

lemma split_on_append: "split_on c (s @ c # t) = split_on c s @ split_on c t"
proof (induction s)
  case (Cons d s)
  then show ?case by (cases "split_on c s") auto
qed simp

lemma join_append: "ls \<noteq> [] \<Longrightarrow> ms \<noteq> [] \<Longrightarrow> join sep (ls @ ms) = join sep ls @ sep @ join sep ms"
  by (induction ls rule: induct_list012) (auto simp: join_cons)

lemma ends_with_iff: "ends_with s t \<longleftrightarrow> (\<exists>u. s = u @ t)"
proof
  assume "ends_with s t"
  then have "rev s = rev t @ drop (length t) (rev s)"
    by (metis append_take_drop_id ends_with_def)
  then have "s = rev (drop (length t) (rev s)) @ t" by (metis rev_append rev_rev_ident)
  then show "\<exists>u. s = u @ t" by blast
qed (auto simp: ends_with_def)

lemma suffix_labels:
  "h = d \<or> ends_with h (46 # d) \<longleftrightarrow> (\<exists>ls. split_on 46 h = ls @ split_on 46 d)"
proof
  assume "h = d \<or> ends_with h (46 # d)"
  then show "\<exists>ls. split_on 46 h = ls @ split_on 46 d"
    by (auto simp: ends_with_iff split_on_append)
next
  assume "\<exists>ls. split_on 46 h = ls @ split_on 46 d"
  then obtain ls where ls: "split_on 46 h = ls @ split_on 46 d" by blast
  have h: "h = join [46] (ls @ split_on 46 d)" using join_split [of 46 h] ls by simp
  show "h = d \<or> ends_with h (46 # d)"
  proof (cases "ls = []")
    case True
    with h join_split show ?thesis by simp
  next
    case False
    then have "h = join [46] ls @ 46 # d" using h by (simp add: join_append join_split)
    then show ?thesis by (auto simp: ends_with_iff)
  qed
qed

lemma matches_suffix_labels:
  "matches_host (Suffix d) host \<longleftrightarrow> (\<exists>ls. split_on 46 (normal_host host) = ls @ split_on 46 d)"
  using suffix_labels [of "normal_host host" d] by (auto simp: matches_host_def star_code)

subsection \<open>Properties\<close>

definition learn :: "egress_policy \<Rightarrow> (nat \<times> rstr \<times> ipv4) list \<Rightarrow> egress_policy" where
  "learn p as = foldl (\<lambda>q (now, host, ip). record_resolution q now host ip) p as"

lemma learn_fields:
  "p_allow (learn p as) = p_allow p \<and> p_deny (learn p as) = p_deny p
   \<and> allow_local_egress (learn p as) = allow_local_egress p"
proof (induction as arbitrary: p)
  case (Cons a as)
  obtain now host ip where "a = (now, host, ip)" by (rule prod_cases3)
  then have "learn p (a # as) = learn (record_resolution p now host ip) as" by (simp add: learn_def)
  then show ?case using Cons [of "record_resolution p now host ip"] by (simp add: record_resolution_def)
qed (simp add: learn_def)

fun amend_run :: "egress_policy \<Rightarrow> amendment list \<Rightarrow> amend_outcome list" where
  "amend_run p [] = []"
| "amend_run p (a # as) = snd (amend p a) # amend_run (fst (amend p a)) as"

lemma amend_run_labels:
  "unat (amendments p) + length as < 2 ^ 32 \<Longrightarrow>
   map o_label (amend_run p as)
   = map (\<lambda>k. base_label p @ lit ''+live'' @ dec k) [Suc (unat (amendments p)) ..< Suc (unat (amendments p) + length as)]"
proof (induction as arbitrary: p)
  case (Cons a as)
  let ?q = "fst (amend p a)"
  have n: "unat (amendments ?q) = Suc (unat (amendments p))"
    using Cons(2) unat_add_no_wrap [of "amendments p" 1] by (simp add: amend_fields)
  have "map o_label (amend_run ?q as)
      = map (\<lambda>k. base_label p @ lit ''+live'' @ dec k)
          [Suc (Suc (unat (amendments p))) ..< Suc (Suc (unat (amendments p) + length as))]"
    using Cons(1) [of ?q] Cons(2) n by (simp add: amend_fields)
  moreover have "o_label (snd (amend p a)) = base_label p @ lit ''+live'' @ dec (Suc (unat (amendments p)))"
    using n by (simp add: amend_fields)
  moreover have "[Suc (unat (amendments p)) ..< Suc (unat (amendments p) + length (a # as))]
      = Suc (unat (amendments p)) # [Suc (Suc (unat (amendments p))) ..< Suc (Suc (unat (amendments p) + length as))]"
    by (subst upt_conv_Cons) simp_all
  ultimately show ?case by (simp only: amend_run.simps list.map)
qed simp

text \<open>
  C31. A name never opens a reserved address. When local egress has not been opted in and no
  allow rule is a wildcard or names the address itself, a connect to a reserved address is
  refused on every port, whatever the resolver answered before and whenever it did: a rule for
  a host name does not lift the guard when the name resolves into a reserved range.
\<close>

theorem rebinding_denied:
  assumes "\<not> allow_local_egress p" "is_reserved_egress_ip ip"
    and "\<forall>r \<in> set (p_allow p). r_host r \<noteq> Any \<and> r_host r \<noteq> Ip ip"
  shows "\<not> is_allow (decide_connect (learn p answers) now ip port)"
proof -
  have "\<not> (\<exists>r \<in> set (p_allow p). port_matches r port \<and> matches_ip (r_host r) ip)"
    using assms(3) by (auto simp: matches_ip_def split: host_match.splits)
  then show ?thesis using assms(1,2) learn_fields [of p answers]
    by (auto simp: decide_connect_iff Let_def)
qed

theorem rebinding_denied_witness:
  "\<not> is_allow (decide_connect
      (learn (from_profile (lit ''deny'') [lit ''api.example.com''] [] (lit ''t''))
        [(0, lit ''api.example.com'', (127, 0, 0, 1))]) 5 (127, 0, 0, 1) 443)"
proof -
  let ?p = "from_profile (lit ''deny'') [lit ''api.example.com''] [] (lit ''t'')"
  have "r_host (rule_parse (lit ''api.example.com'')) = Exact (lit ''api.example.com'')"
    by (simp add: rule_eval)
  then have "\<forall>r \<in> set (p_allow ?p). r_host r \<noteq> Any \<and> r_host r \<noteq> Ip (127, 0, 0, 1)"
    by (simp add: from_profile_def)
  moreover have "\<not> allow_local_egress ?p" by (simp add: from_profile_def)
  moreover have "is_reserved_egress_ip (127, 0, 0, 1)" by (simp add: is_reserved_egress_ip_def is_loopback_def)
  ultimately show ?thesis by (intro rebinding_denied)
qed



text \<open>
  C33. The label tells the policies of one sandbox apart. Over any run of fewer than \<open>2 ^ 32\<close> live
  amendments of a policy built from a profile, the labels the amendments report are pairwise
  different and none of them is the label the profile was issued with.
\<close>

theorem amend_labels_distinct:
  assumes "length as < 2 ^ 32"
  shows "distinct (label # map o_label (amend_run (from_profile d al dn label) as))"
proof -
  let ?p = "from_profile d al dn label"
  have f: "amendments ?p = 0" "base_label ?p = label" by (simp_all add: from_profile_def)
  then have "map o_label (amend_run ?p as) = map (\<lambda>k. label @ lit ''+live'' @ dec k) [1 ..< Suc (length as)]"
    using amend_run_labels [of ?p as] assms by simp
  moreover have "inj_on (\<lambda>k. label @ lit ''+live'' @ dec k) A" for A
    by (auto simp: inj_on_def dec_inj)
  moreover have "label \<noteq> label @ lit ''+live'' @ dec k" for k by (simp add: lit_def)
  ultimately show ?thesis by (auto simp: distinct_map)
qed

theorem amend_labels_distinct_witness:
  "distinct (lit ''d'' # map o_label (amend_run (from_profile (lit ''deny'') [] [] (lit ''d''))
     [Amend_Allow (lit ''a.b''), Amend_Deny (lit ''a.b'')]))"
  by (rule amend_labels_distinct) simp

text \<open>
  A literal or wildcard allowance reaches the host's own networks. Amending any address,
  reserved ones included, into the unrestricted policy admits a connect to it on every port, and
  a deny-by-default profile whose allow list is the single entry \<open>*\<close> admits every address:
  neither needs the local-egress opt-in.
\<close>

theorem guard_lifted:
  "is_allow (decide_connect (fst (amend allow_all (Amend_Allow (show_ipv4 ip)))) now ip port)
   \<and> is_allow (decide_connect (from_profile (lit ''deny'') [lit ''*''] [] label) now ip port)"
proof
  show "is_allow (decide_connect (fst (amend allow_all (Amend_Allow (show_ipv4 ip)))) now ip port)"
    by (simp add: decide_connect_iff amend_allow_rules amend_fields rule_parse_ip port_matches_def
        matches_ip_def allow_all_def Let_def)
  have "rule_parse (lit ''*'') = \<lparr>r_host = Any, r_port = None, r_raw = lit ''*'', r_note = None\<rparr>"
    by (simp add: rule_eval)
  then show "is_allow (decide_connect (from_profile (lit ''deny'') [lit ''*''] [] label) now ip port)"
    by (simp add: decide_connect_iff from_profile_def rule_hits_def port_matches_def matches_ip_def Let_def)
qed

text \<open>
  A wildcard rule works on whole labels. The rule text \<open>*.d\<close>, for a \<open>d\<close> that is already in
  normal form, matches a host exactly when the host's labels end in the labels of \<open>d\<close>: the domain
  itself and every name below it, and no name that merely ends in the same characters.
\<close>

theorem wildcard_by_label:
  assumes "normal_host (lit ''*.'' @ d) = lit ''*.'' @ d"
  shows "matches_host (host_match_parse (lit ''*.'' @ d)) host \<longleftrightarrow>
    (\<exists>ls. split_on 46 (normal_host host) = ls @ split_on 46 d)"
proof -
  have "host_match_parse (lit ''*.'' @ d) = Suffix d"
    using assms by (simp add: host_match_parse_def Let_def star_code strip_prefix_def)
  then show ?thesis by (simp add: matches_suffix_labels)
qed

theorem wildcard_by_label_witness:
  "matches_host (host_match_parse (lit ''*.'' @ lit ''b.c'')) (lit ''x.B.c.'')
   \<and> \<not> matches_host (host_match_parse (lit ''*.'' @ lit ''b.c'')) (lit ''xb.c'')"
proof -
  have n: "normal_host (lit ''*.'' @ lit ''b.c'') = lit ''*.'' @ lit ''b.c''" by (simp add: rule_eval)
  have s: "split_on 46 (normal_host (lit ''x.B.c.'')) = [lit ''x''] @ split_on 46 (lit ''b.c'')"
    "split_on 46 (normal_host (lit ''xb.c'')) = [lit ''xb'', lit ''c'']"
    "split_on 46 (lit ''b.c'') = [lit ''b'', lit ''c'']" by (simp_all add: rule_eval)
  have "\<not> (\<exists>ls. [lit ''xb'', lit ''c''] = ls @ [lit ''b'', lit ''c''])" by (simp add: lit_def)
  then show ?thesis
    using wildcard_by_label [OF n, of "lit ''x.B.c.''"] wildcard_by_label [OF n, of "lit ''xb.c''"] s by auto
qed

text \<open>The reference for the guard: networks as an address and a prefix length.\<close>

definition addr_value :: "ipv4 \<Rightarrow> nat" where
  "addr_value ip = (case ip of (a, b, c, d) \<Rightarrow> ((unat a * 256 + unat b) * 256 + unat c) * 256 + unat d)"

definition in_net :: "ipv4 \<Rightarrow> ipv4 \<times> nat \<Rightarrow> bool" where
  "in_net ip n = (addr_value ip div 2 ^ (32 - snd n) = addr_value (fst n) div 2 ^ (32 - snd n))"

definition reserved_nets :: "(ipv4 \<times> nat) list" where
  "reserved_nets =
     [((127, 0, 0, 0), 8), ((10, 0, 0, 0), 8), ((172, 16, 0, 0), 12), ((192, 168, 0, 0), 16),
      ((169, 254, 0, 0), 16), ((0, 0, 0, 0), 8), ((100, 64, 0, 0), 10), ((192, 0, 0, 0), 16),
      ((198, 18, 0, 0), 15), ((198, 51, 100, 0), 24), ((203, 0, 113, 0), 24), ((224, 0, 0, 0), 4),
      ((240, 0, 0, 0), 4)]"

lemma radix: "q < m \<Longrightarrow> r < m \<Longrightarrow> x * m + q = y * m + r \<longleftrightarrow> x = y \<and> q = r" for m :: nat
  by (metis add_diff_cancel_right' div_mult_self3 div_less add_0 less_nat_zero_code mod_mult_self3 mod_less)

lemma div_peel: "k * m = n \<Longrightarrow> 0 < k \<Longrightarrow> r < k \<Longrightarrow> (x * k + r) div n = x div m" for k m n x r :: nat
  by (auto simp: div_mult2_eq)

lemma addr_div:
  fixes a b c d :: u8
  shows "addr_value (a, b, c, d) div (256 * m) = ((unat a * 256 + unat b) * 256 + unat c) div m"
    "((unat a * 256 + unat b) * 256 + unat c) div (256 * m) = (unat a * 256 + unat b) div m"
    "(unat a * 256 + unat b) div (256 * m) = unat a div m"
proof -
  have l: "unat x < 256" for x :: u8 using unsigned_less [of x] by simp
  show "addr_value (a, b, c, d) div (256 * m) = ((unat a * 256 + unat b) * 256 + unat c) div m"
    "((unat a * 256 + unat b) * 256 + unat c) div (256 * m) = (unat a * 256 + unat b) div m"
    "(unat a * 256 + unat b) div (256 * m) = unat a div m"
    unfolding addr_value_def prod.case by (rule div_peel, simp, simp, rule l)+
qed

lemma div_prefix:
  fixes a b c d :: u8
  defines "v \<equiv> addr_value (a, b, c, d)"
  shows "v div 2 ^ 28 = unat a div 16" "v div 2 ^ 24 = unat a"
    "v div 2 ^ 22 = (unat a * 256 + unat b) div 64" "v div 2 ^ 20 = (unat a * 256 + unat b) div 16"
    "v div 2 ^ 17 = (unat a * 256 + unat b) div 2" "v div 2 ^ 16 = unat a * 256 + unat b"
    "v div 2 ^ 8 = (unat a * 256 + unat b) * 256 + unat c"
proof -
  have p: "(2 :: nat) ^ 28 = 256 * (256 * (256 * 16))" "(2 :: nat) ^ 24 = 256 * (256 * (256 * 1))"
    "(2 :: nat) ^ 22 = 256 * (256 * 64)" "(2 :: nat) ^ 20 = 256 * (256 * 16)"
    "(2 :: nat) ^ 17 = 256 * (256 * 2)" "(2 :: nat) ^ 16 = 256 * (256 * 1)" "(2 :: nat) ^ 8 = 256 * 1"
    by simp_all
  show "v div 2 ^ 28 = unat a div 16" "v div 2 ^ 24 = unat a"
    "v div 2 ^ 22 = (unat a * 256 + unat b) div 64" "v div 2 ^ 20 = (unat a * 256 + unat b) div 16"
    "v div 2 ^ 17 = (unat a * 256 + unat b) div 2" "v div 2 ^ 16 = unat a * 256 + unat b"
    "v div 2 ^ 8 = (unat a * 256 + unat b) * 256 + unat c"
    by (simp_all only: p v_def addr_div div_by_1)
qed

lemma radix_div:
  fixes a b A B m k :: nat
  assumes "m * k = 256" "b < 256" "B < 256"
  shows "(a * 256 + b) div m = (A * 256 + B) div m \<longleftrightarrow> a = A \<and> b div m = B div m"
proof -
  have m: "0 < m" using assms(1) by (cases m) auto
  have d: "(x * 256 + y) div m = x * k + y div m" for x y
  proof -
    have "(x * k) * m = x * 256" using assms(1) by (metis mult.assoc mult.commute)
    moreover have "((x * k) * m + y) div m = x * k + y div m" using m by (simp only: div_mult_self3)
    ultimately show ?thesis by metis
  qed
  have "b div m < k" "B div m < k" using assms m by (auto intro: less_mult_imp_div_less simp: mult.commute)
  then show ?thesis by (simp add: d radix)
qed

lemma net_iff:
  fixes a b c d :: u8
  shows "in_net (a, b, c, d) ((A, 0, 0, 0), 8) \<longleftrightarrow> unat a = unat A"
    "in_net (a, b, c, d) ((A, 0, 0, 0), 4) \<longleftrightarrow> unat a div 16 = unat A div 16"
    "in_net (a, b, c, d) ((A, B, 0, 0), 16) \<longleftrightarrow> unat a = unat A \<and> unat b = unat B"
    "in_net (a, b, c, d) ((A, B, C, 0), 24) \<longleftrightarrow> (unat a = unat A \<and> unat b = unat B) \<and> unat c = unat C"
    "in_net (a, b, c, d) ((A, B, 0, 0), 10) \<longleftrightarrow> unat a = unat A \<and> unat b div 64 = unat B div 64"
    "in_net (a, b, c, d) ((A, B, 0, 0), 12) \<longleftrightarrow> unat a = unat A \<and> unat b div 16 = unat B div 16"
    "in_net (a, b, c, d) ((A, B, 0, 0), 15) \<longleftrightarrow> unat a = unat A \<and> unat b div 2 = unat B div 2"
proof -
  have l: "unat x < 256" for x :: u8 using unsigned_less [of x] by simp
  have e: "32 - 8 = (24 :: nat)" "32 - 4 = (28 :: nat)" "32 - 16 = (16 :: nat)" "32 - 24 = (8 :: nat)"
    "32 - 10 = (22 :: nat)" "32 - 12 = (20 :: nat)" "32 - 15 = (17 :: nat)" by simp_all
  show "in_net (a, b, c, d) ((A, 0, 0, 0), 8) \<longleftrightarrow> unat a = unat A"
    "in_net (a, b, c, d) ((A, 0, 0, 0), 4) \<longleftrightarrow> unat a div 16 = unat A div 16"
    "in_net (a, b, c, d) ((A, B, 0, 0), 16) \<longleftrightarrow> unat a = unat A \<and> unat b = unat B"
    "in_net (a, b, c, d) ((A, B, C, 0), 24) \<longleftrightarrow> (unat a = unat A \<and> unat b = unat B) \<and> unat c = unat C"
    unfolding in_net_def fst_conv snd_conv e div_prefix by (simp_all only: radix [OF l l])
  show "in_net (a, b, c, d) ((A, B, 0, 0), 10) \<longleftrightarrow> unat a = unat A \<and> unat b div 64 = unat B div 64"
    unfolding in_net_def fst_conv snd_conv e div_prefix by (rule radix_div [of _ 4]) (simp_all add: l)
  show "in_net (a, b, c, d) ((A, B, 0, 0), 12) \<longleftrightarrow> unat a = unat A \<and> unat b div 16 = unat B div 16"
    unfolding in_net_def fst_conv snd_conv e div_prefix by (rule radix_div [of _ 16]) (simp_all add: l)
  show "in_net (a, b, c, d) ((A, B, 0, 0), 15) \<longleftrightarrow> unat a = unat A \<and> unat b div 2 = unat B div 2"
    unfolding in_net_def fst_conv snd_conv e div_prefix by (rule radix_div [of _ 128]) (simp_all add: l)
qed


end
