(* ===== verification/Dns.thy ===== *)
theory Dns
  imports Checksum Rust_Text
begin

text \<open>
  The DNS server of the userspace NAT: \<^verbatim>\<open>src/hypervisor/src/hvf/virtio/nat/dns.rs\<close>. A message
  the guest sent is parsed into a \<open>query\<close>, and a \<open>query\<close> with what was decided about it is
  turned into the reply. Indexing a slice is \<open>index\<close>, which panics outside it; \<^verbatim>\<open>get\<close> is
  \<open>slice_get\<close>, which does not.
\<close>

subsection \<open>Slices\<close>

definition obind :: "'a outcome \<Rightarrow> ('a \<Rightarrow> 'b outcome) \<Rightarrow> 'b outcome" where
  "obind x f = (case x of Panicked \<Rightarrow> Panicked | Done a \<Rightarrow> f a)"

definition index :: "'a list \<Rightarrow> nat \<Rightarrow> 'a outcome" where
  "index xs i = (if i < length xs then Done (xs ! i) else Panicked)"

definition slice_get :: "'a list \<Rightarrow> nat \<Rightarrow> nat \<Rightarrow> 'a list option" where
  "slice_get xs a b = (if a \<le> b \<and> b \<le> length xs then Some (take (b - a) (drop a xs)) else None)"

definition get :: "'a list \<Rightarrow> nat \<Rightarrow> 'a option" where
  "get xs i = (if i < length xs then Some (xs ! i) else None)"

definition be16_at :: "bytes \<Rightarrow> nat \<Rightarrow> u16 outcome" where
  "be16_at xs i = obind (index xs i) (\<lambda>a. obind (index xs (i + 1)) (\<lambda>b. Done (be16 a b)))"

subsection \<open>Messages\<close>

definition QTYPE_A :: u16 where "QTYPE_A = 1"
definition QTYPE_AAAA :: u16 where "QTYPE_AAAA = 28"
definition HEADER_LEN :: nat where "HEADER_LEN = 12"
definition RCODE_NXDOMAIN :: u8 where "RCODE_NXDOMAIN = 3"
definition RCODE_REFUSED :: u8 where "RCODE_REFUSED = 5"

record query =
  q_id :: u16
  recursion_desired :: bool
  q_name :: rstr
  qtype :: u16
  qclass :: u16

datatype dns_outcome = Answers "ipv4 list" | Refused | NoData | NxDomain

text \<open>
  The loop of \<^verbatim>\<open>read_name\<close>. The first argument is how many more rounds the guard counter
  admits, so the function that starts with 128 rounds returns on every message.
\<close>

fun read_name_loop :: "nat \<Rightarrow> bytes \<Rightarrow> nat \<Rightarrow> rstr list \<Rightarrow> bool \<Rightarrow> nat \<Rightarrow> (rstr \<times> nat) option" where
  "read_name_loop 0 msg off labels jumped linear_stop = None"
| "read_name_loop (Suc rounds) msg off labels jumped linear_stop =
     (case get msg off of
        None \<Rightarrow> None
      | Some len \<Rightarrow>
          if len = 0 then Some (join [46] labels, if jumped then linear_stop else off + 1)
          else if len AND 0xc0 = 0xc0 then
            (case get msg (off + 1) of
               None \<Rightarrow> None
             | Some b2 \<Rightarrow>
                 let ptr = push_bit 8 (unat (len AND 0x3f)) OR unat b2 in
                 read_name_loop rounds msg ptr labels True (if jumped then linear_stop else off + 2))
          else if len AND 0xc0 \<noteq> 0 then None
          else
            let start = off + 1; stop = start + unat len in
            (case slice_get msg start stop of
               None \<Rightarrow> None
             | Some label \<Rightarrow>
                 read_name_loop rounds msg stop (labels @ [to_ascii_lowercase (from_utf8_lossy label)])
                   jumped (if jumped then linear_stop else stop)))"

definition read_name :: "bytes \<Rightarrow> nat \<Rightarrow> (rstr \<times> nat) option" where
  "read_name msg off = read_name_loop 128 msg off [] False off"

definition parse_query :: "bytes \<Rightarrow> query option outcome" where
  "parse_query msg =
     (if length msg < HEADER_LEN then Done None
      else
        obind (be16_at msg 0) (\<lambda>id.
        obind (be16_at msg 2) (\<lambda>flags.
          if drop_bit 15 flags AND 1 \<noteq> 0 then Done None
          else
            obind (be16_at msg 4) (\<lambda>qdcount.
              if qdcount = 0 then Done None
              else
                let rd = (drop_bit 8 flags AND 1 = 1) in
                case read_name msg HEADER_LEN of
                  None \<Rightarrow> Done None
                | Some (name, next) \<Rightarrow>
                    if next + 4 > length msg then Done None
                    else
                      obind (be16_at msg next) (\<lambda>qt.
                      obind (be16_at msg (next + 2)) (\<lambda>qc.
                        Done (Some \<lparr>q_id = id, recursion_desired = rd, q_name = name,
                                    qtype = qt, qclass = qc\<rparr>)))))))"

definition encode_label :: "rstr \<Rightarrow> bytes" where
  "encode_label l = (let bs = as_bytes l; n = min (length bs) 63 in of_nat n # take n bs)"

definition encode_name :: "rstr \<Rightarrow> bytes" where
  "encode_name name = concat (map encode_label (filter (\<lambda>l. l \<noteq> []) (split_on 46 name))) @ [0]"

fun rcode_answers :: "dns_outcome \<Rightarrow> u8 \<times> ipv4 list" where
  "rcode_answers (Answers a) = (0, a)"
| "rcode_answers NoData = (0, [])"
| "rcode_answers Refused = (RCODE_REFUSED, [])"
| "rcode_answers NxDomain = (RCODE_NXDOMAIN, [])"

definition octets :: "ipv4 \<Rightarrow> bytes" where
  "octets ip = (case ip of (a, b, c, d) \<Rightarrow> [a, b, c, d])"

definition response_flags :: "query \<Rightarrow> u8 \<Rightarrow> u16" where
  "response_flags q rcode =
     ((if recursion_desired q then 0x8000 OR 0x0100 else 0x8000) OR 0x0080) OR ucast rcode"

definition answer_record :: "ipv4 \<Rightarrow> bytes" where
  "answer_record ip =
     [0xc0, of_nat HEADER_LEN] @ be_bytes QTYPE_A @ be_bytes (1 :: u16) @ be_bytes (60 :: u32)
     @ be_bytes (4 :: u16) @ octets ip"

definition build_response :: "query \<Rightarrow> dns_outcome \<Rightarrow> bytes" where
  "build_response q oc =
     (let (rcode, answers) = rcode_answers oc in
      be_bytes (q_id q)
      @ be_bytes (response_flags q rcode)
      @ be_bytes (1 :: u16) @ be_bytes (of_nat (length answers) :: u16)
      @ be_bytes (0 :: u16) @ be_bytes (0 :: u16)
      @ encode_name (q_name q) @ be_bytes (qtype q) @ be_bytes (qclass q)
      @ concat (map answer_record answers))"

subsection \<open>Reading\<close>

lemma obind_simps [simp]: "obind (Done x) f = f x" "obind Panicked f = Panicked"
  by (simp_all add: obind_def)

lemma index_Done: "i < length xs \<Longrightarrow> index xs i = Done (xs ! i)"
  by (simp add: index_def)

lemma be16_at_Done: "i + 2 \<le> length xs \<Longrightarrow> be16_at xs i = Done (be16 (xs ! i) (xs ! Suc i))"
  by (simp add: be16_at_def index_Done)

lemma be_bytes_16: "\<exists>a b. be_bytes (w :: u16) = [a, b] \<and> be16 a b = w"
proof -
  have "length (be_bytes w) = 2" by (rule be16.length_enc)
  then obtain a b where ab: "be_bytes w = [a, b]" by (auto simp: length_Suc_conv numeral_2_eq_2)
  moreover from ab have "be16 a b = w" using be16.dec_enc [of w] by (simp add: be16_def)
  ultimately show ?thesis by blast
qed

lemma be16_at_enc: "be16_at (xs @ be_bytes (w :: u16) @ ys) (length xs) = Done w"
proof -
  obtain a b where "be_bytes w = [a, b]" "be16 a b = w" using be_bytes_16 by blast
  then show ?thesis by (simp add: be16_at_def index_def nth_append)
qed

lemma be16_at_enc': "i = length xs \<Longrightarrow> be16_at (xs @ be_bytes (w :: u16) @ ys) i = Done w"
  by (simp add: be16_at_enc)

text \<open>The labels that survive the wire unchanged.\<close>

definition wire_label :: "rstr \<Rightarrow> bool" where
  "wire_label l \<longleftrightarrow> l \<noteq> [] \<and> length (as_bytes l) \<le> 63 \<and> list_all scalar l \<and> 46 \<notin> set l
     \<and> to_ascii_lowercase l = l"

lemma encode_wire_label:
  "wire_label l \<Longrightarrow> encode_label l = of_nat (length (as_bytes l)) # as_bytes l"
  by (simp add: encode_label_def wire_label_def Let_def min_absorb1)

lemma encode_wire_name:
  "list_all wire_label ls \<Longrightarrow> encode_name (join [46] ls) = concat (map encode_label ls) @ [0]"
proof (cases "ls = []")
  case True
  then show ?thesis by (simp add: encode_name_def)
next
  case False
  assume w: "list_all wire_label ls"
  then have "split_on 46 (join [46] ls) = ls"
    using False by (intro split_on_join) (auto simp: list_all_iff wire_label_def)
  moreover have "filter (\<lambda>l. l \<noteq> []) ls = ls"
    using w by (auto simp: list_all_iff wire_label_def filter_id_conv)
  ultimately show ?thesis by (simp add: encode_name_def)
qed

lemma label_length_byte:
  assumes "wire_label l"
  shows "unat (of_nat (length (as_bytes l)) :: u8) = length (as_bytes l)"
    "(of_nat (length (as_bytes l)) :: u8) \<noteq> 0" "(of_nat (length (as_bytes l)) :: u8) AND 0xc0 = 0"
proof -
  have n: "length (as_bytes l) \<le> 63" "0 < length (as_bytes l)"
    using assms by (auto simp: wire_label_def)
  show u: "unat (of_nat (length (as_bytes l)) :: u8) = length (as_bytes l)"
    using n by (intro unat_byte) simp
  show "(of_nat (length (as_bytes l)) :: u8) \<noteq> 0" using n u by (metis less_irrefl unat_0)
  have t: "take_bit 6 (of_nat (length (as_bytes l)) :: u8) = of_nat (length (as_bytes l))"
    using n u by (simp add: word_unat_eq_iff unsigned_take_bit_eq take_bit_nat_eq_self)
  have "\<not> bit (0xc0 :: u8) n" if "n < 6" for n
  proof -
    from that have "n = 0 \<or> n = 1 \<or> n = 2 \<or> n = 3 \<or> n = 4 \<or> n = 5" by arith
    then show ?thesis by (elim disjE) simp_all
  qed
  then have "take_bit 6 x AND 0xc0 = 0" for x :: u8
    by (intro bit_word_eqI) (auto simp: bit_simps)
  then show "(of_nat (length (as_bytes l)) :: u8) AND 0xc0 = 0" using t by metis
qed

lemma read_labels:
  assumes "list_all wire_label ls" "length ls < rounds"
  shows "read_name_loop rounds (pre @ concat (map encode_label ls) @ 0 # post) (length pre) acc jumped stop
    = Some (join [46] (acc @ ls),
        if jumped then stop else length pre + length (concat (map encode_label ls)) + 1)"
  using assms
proof (induction ls arbitrary: rounds pre acc stop)
  case Nil
  then obtain k where "rounds = Suc k" by (cases rounds) auto
  then show ?case by (simp add: get_def)
next
  case (Cons l ls)
  then obtain k where k: "rounds = Suc k" "length ls < k" by (cases rounds) auto
  have w: "wire_label l" "list_all wire_label ls" using Cons(2) by auto
  let ?n = "of_nat (length (as_bytes l)) :: u8" and ?r = "concat (map encode_label ls) @ 0 # post"
  let ?msg = "pre @ concat (map encode_label (l # ls)) @ 0 # post"
  have m: "?msg = pre @ (?n # as_bytes l) @ ?r" "?msg = (pre @ ?n # as_bytes l) @ ?r"
    using w by (simp_all add: encode_wire_label)
  have g: "get ?msg (length pre) = Some ?n" unfolding m(1) by (simp add: get_def nth_append)
  have s: "slice_get ?msg (length pre + 1) (length pre + 1 + unat ?n) = Some (as_bytes l)"
    using label_length_byte(1) [OF w(1)] unfolding m(1) by (simp add: slice_get_def)
  have low: "to_ascii_lowercase (from_utf8_lossy (as_bytes l)) = l"
    using w(1) by (simp add: wire_label_def)
  have e: "length pre + 1 + unat ?n = length (pre @ ?n # as_bytes l)"
    using label_length_byte(1) [OF w(1)] by simp
  have c: "(0xc0 :: u8) \<noteq> 0" by simp
  have "read_name_loop rounds ?msg (length pre) acc jumped stop
      = read_name_loop k ?msg (length (pre @ ?n # as_bytes l)) (acc @ [l]) jumped
          (if jumped then stop else length (pre @ ?n # as_bytes l))"
    using g s low label_length_byte [OF w(1)] c e
    by (simp only: k read_name_loop.simps option.case Let_def if_False simp_thms not_False_eq_True)
       (simp add: low)
  also have "\<dots> = Some (join [46] ((acc @ [l]) @ ls),
        if jumped then if jumped then stop else length (pre @ ?n # as_bytes l)
        else length (pre @ ?n # as_bytes l) + length (concat (map encode_label ls)) + 1)"
    unfolding m(2) by (rule Cons(1) [OF w(2) k(2)])
  finally show ?case using w by (simp add: encode_wire_label)
qed

subsection \<open>Properties\<close>

definition query_message :: "u16 \<Rightarrow> u16 \<Rightarrow> u16 \<Rightarrow> bytes \<Rightarrow> rstr \<Rightarrow> u16 \<Rightarrow> u16 \<Rightarrow> bytes \<Rightarrow> bytes" where
  "query_message qid flags qd counts name qt qc rest =
     be_bytes qid @ be_bytes flags @ be_bytes qd @ counts @ encode_name name
     @ be_bytes qt @ be_bytes qc @ rest"

lemma length_be_16 [simp]: "length (be_bytes (w :: u16)) = 2"
  by (rule be16.length_enc)

lemma read_wire_name:
  assumes "list_all wire_label ls" "length ls \<le> 127"
  shows "read_name (pre @ encode_name (join [46] ls) @ post) (length pre)
    = Some (join [46] ls, length pre + length (encode_name (join [46] ls)))"
  using read_labels [OF assms(1), of 128 pre post "[]" False "length pre"] assms
  by (simp add: read_name_def encode_wire_name)

lemma parse_query_Done: "\<exists>r. parse_query msg = Done r"
proof (cases "length msg < HEADER_LEN")
  case True
  then show ?thesis by (simp add: parse_query_def)
next
  case False
  then have h: "be16_at msg 0 = Done (be16 (msg ! 0) (msg ! Suc 0))"
    "be16_at msg 2 = Done (be16 (msg ! 2) (msg ! Suc 2))"
    "be16_at msg 4 = Done (be16 (msg ! 4) (msg ! Suc 4))"
    by (intro be16_at_Done; simp add: HEADER_LEN_def)+
  have "be16_at msg n = Done (be16 (msg ! n) (msg ! Suc n))"
    "be16_at msg (n + 2) = Done (be16 (msg ! (n + 2)) (msg ! Suc (n + 2)))" if "\<not> length msg < n + 4" for n
    using that by (intro be16_at_Done; simp)+
  then show ?thesis
    using h by (auto simp: parse_query_def Let_def split: option.split)
qed

lemma pointer_loop:
  assumes "get msg off = Some 0xc0" "get msg (off + 1) = Some (of_nat off)" "off < 256"
  shows "read_name_loop rounds msg off acc jumped stop = None"
proof (induction rounds arbitrary: jumped stop)
  case (Suc rounds)
  have p: "push_bit 8 (unat ((0xc0 :: u8) AND 0x3f)) OR unat (of_nat off :: u8) = off"
    using assms(3) by (simp add: unat_byte)
  have c: "(0xc0 :: u8) AND 0xc0 = 0xc0" "(0xc0 :: u8) \<noteq> 0" by simp_all
  show ?case
    by (simp only: read_name_loop.simps assms(1,2) option.case c p Let_def Suc simp_thms if_True if_False)
qed simp

text \<open>
  Nothing a guest sends makes the DNS parser panic or spin. Every message is parsed to an
  answer, a query or a rejection; and a name that is a compression pointer to itself, the shape
  that would be followed for ever, is rejected.
\<close>

theorem parse_query_total:
  "(\<exists>r. parse_query msg = Done r)
   \<and> parse_query (be_bytes (qid :: u16) @ be_bytes (0x0100 :: u16) @ be_bytes (1 :: u16) @ replicate 6 0
       @ [0xc0, 12] @ rest) = Done None"
proof
  let ?m = "be_bytes qid @ be_bytes (0x0100 :: u16) @ be_bytes (1 :: u16) @ replicate 6 0 @ [0xc0, 12] @ rest"
  show "\<exists>r. parse_query msg = Done r" by (rule parse_query_Done)
  have "get ?m 12 = Some 0xc0" "get ?m (12 + 1) = Some (of_nat 12)"
    by (simp_all add: get_def nth_append)
  then have "read_name ?m HEADER_LEN = None"
    unfolding read_name_def HEADER_LEN_def by (rule pointer_loop) simp
  moreover have "be16_at ?m 0 = Done qid" by (rule be16_at_enc' [where xs = "[]", simplified]) simp
  moreover have "be16_at ?m 2 = Done 0x0100"
    by (rule be16_at_enc') simp
  moreover have "be16_at ?m 4 = Done 1"
    using be16_at_enc' [of 4 "be_bytes qid @ be_bytes (0x0100 :: u16)" 1] by simp
  ultimately show "parse_query ?m = Done None"
    by (simp add: parse_query_def HEADER_LEN_def)
qed

text \<open>
  A question survives the wire. For a name of at most 127 labels, each of one to 63 UTF-8
  bytes, in lower case and without a dot inside, parsing a message that carries the encoded name
  gives back its identifier, recursion flag, name, type and class, whatever counts and trailing
  records the message has.
\<close>

theorem query_round_trip:
  assumes "list_all wire_label ls" "length ls \<le> 127"
    and "drop_bit 15 flags AND 1 = 0" "qd \<noteq> 0" "length counts = 6"
  shows "parse_query (query_message qid flags qd counts (join [46] ls) qt qc rest)
    = Done (Some \<lparr>q_id = qid, recursion_desired = (drop_bit 8 flags AND 1 = 1),
        q_name = join [46] ls, qtype = qt, qclass = qc\<rparr>)"
proof -
  let ?h = "be_bytes qid @ be_bytes flags @ be_bytes qd @ counts"
  let ?n = "encode_name (join [46] ls)"
  let ?m = "query_message qid flags qd counts (join [46] ls) qt qc rest"
  have l: "length ?h = 12" using assms(5) by simp
  have m: "?m = ?h @ ?n @ be_bytes qt @ be_bytes qc @ rest" by (simp add: query_message_def)
  have r: "read_name ?m HEADER_LEN = Some (join [46] ls, 12 + length ?n)"
    using read_wire_name [OF assms(1,2), of ?h "be_bytes qt @ be_bytes qc @ rest"] l
    by (simp add: m HEADER_LEN_def)
  have b: "be16_at ?m 0 = Done qid" "be16_at ?m 2 = Done flags" "be16_at ?m 4 = Done qd"
    using be16_at_enc' [of 0 "[]" qid] be16_at_enc' [of 2 "be_bytes qid" flags]
      be16_at_enc' [of 4 "be_bytes qid @ be_bytes flags" qd]
    by (simp_all add: query_message_def)
  have t: "be16_at ?m (12 + length ?n) = Done qt"
    using be16_at_enc' [of "12 + length ?n" "?h @ ?n" qt "be_bytes qc @ rest"] l by (simp add: m)
  have c: "be16_at ?m (12 + length ?n + 2) = Done qc"
    using be16_at_enc' [of "12 + length ?n + 2" "?h @ ?n @ be_bytes qt" qc rest] l by (simp add: m)
  have len: "length ?m = 12 + length ?n + 4 + length rest" using l by (simp add: m)
  show ?thesis
    using assms(3,4) r b t c len by (simp add: parse_query_def HEADER_LEN_def Let_def)
qed

theorem query_round_trip_witness:
  "parse_query (query_message 0x1234 0x0100 1 [0, 0, 0, 0, 0, 0] (join [46] [[97, 98], [233]]) 1 1 [])
   = Done (Some \<lparr>q_id = 0x1234, recursion_desired = True, q_name = join [46] [[97, 98], [233]],
       qtype = 1, qclass = 1\<rparr>)"
proof -
  have "list_all wire_label [[97, 98], [233]]"
    by (simp add: wire_label_def as_bytes_def utf8_char_def scalar_def to_ascii_lowercase_def ascii_lower_def)
  from query_round_trip [OF this, of "0x0100" 1 "[0, 0, 0, 0, 0, 0]" "0x1234" 1 1 "[]"] show ?thesis
    by simp
qed

lemma length_be_32 [simp]: "length (be_bytes (w :: u32)) = 4"
  by (simp add: be_bytes_def)

lemma length_answer [simp]: "length (answer_record ip) = 16"
  by (cases ip) (simp add: answer_record_def octets_def)

lemma answer_at:
  "i < length ips \<Longrightarrow>
   \<exists>pre post. concat (map answer_record ips) = pre @ answer_record (ips ! i) @ post \<and> length pre = 16 * i"
proof (induction ips arbitrary: i)
  case (Cons ip ips)
  show ?case
  proof (cases i)
    case 0
    then show ?thesis by (intro exI [of _ "[]"] exI) auto
  next
    case (Suc j)
    with Cons(2) have "j < length ips" by simp
    from Cons(1) [OF this] obtain pre post where
      "concat (map answer_record ips) = pre @ answer_record (ips ! j) @ post" "length pre = 16 * j"
      by blast
    with Suc show ?thesis
      by (intro exI [of _ "answer_record ip @ pre"] exI [of _ post]) simp
  qed
qed simp

lemma response_flags_bits:
  assumes "rcode_answers oc = (rc, ips)"
  shows "drop_bit 15 (response_flags q rc) AND 1 \<noteq> 0" "response_flags q rc AND 0xf = ucast rc"
  using assms
  by (cases oc; cases "recursion_desired q";
      simp add: response_flags_def RCODE_REFUSED_def RCODE_NXDOMAIN_def)+

lemma read_pointer:
  assumes "list_all wire_label ls" "length ls \<le> 126" "length hd12 = 12"
    and "msg = hd12 @ encode_name (join [46] ls) @ rest"
    and "get msg off = Some 0xc0" "get msg (off + 1) = Some 12"
  shows "read_name msg off = Some (join [46] ls, off + 2)"
proof -
  have c: "(0xc0 :: u8) AND 0xc0 = 0xc0" "(0xc0 :: u8) \<noteq> 0" by simp_all
  have p: "push_bit 8 (unat ((0xc0 :: u8) AND 0x3f)) OR unat (12 :: u8) = 12" by simp
  have s: "128 = Suc 127" by simp
  have "read_name msg off = read_name_loop 127 msg 12 [] True (off + 2)"
    unfolding read_name_def s
    by (simp only: read_name_loop.simps assms(5,6) option.case c p Let_def simp_thms if_True if_False)
  also have "\<dots> = Some (join [46] ls, off + 2)"
    using read_labels [OF assms(1), of 127 hd12 rest "[]" True "off + 2"] assms
    by (simp add: encode_wire_name)
  finally show ?thesis .
qed



end
