(* ===== verification/Nat_Responder.thy ===== *)
theory Nat_Responder
  imports Egress Dns "HOL-Library.Multiset"
begin

text \<open>
  The userspace NAT: \<^verbatim>\<open>src/hypervisor/src/hvf/virtio/nat/mod.rs\<close> and the frame queues of
  \<^verbatim>\<open>nat/device.rs\<close>. The TCP/IP stack is the \<^verbatim>\<open>smoltcp\<close> crate and host connections are operating
  system sockets; both are parameters, the records \<open>stack_ops\<close>, \<open>sock_ops\<close> and \<open>stream_ops\<close> of
  the operations the code calls on them. What the code decides itself is modelled in full: which
  SYN arms a listener, which name is resolved, which flows exist, which ports inbound
  connections use, how bytes move between the two sides, and the audit trail. Console output is
  left out. The bandwidth bucket is a 64-bit float; the byte budget it grants one pass is the
  argument \<open>budget\<close>.
\<close>

subsection \<open>Frame queues\<close>

record frame_device =
  from_guest :: "bytes list"
  to_guest :: "bytes list"

definition push_from_guest :: "frame_device \<Rightarrow> bytes \<Rightarrow> frame_device" where
  "push_from_guest d frame = d\<lparr>from_guest := from_guest d @ [frame]\<rparr>"

definition pop_to_guest :: "frame_device \<Rightarrow> bytes option \<times> frame_device" where
  "pop_to_guest d =
     (case to_guest d of [] \<Rightarrow> (None, d) | f # fs \<Rightarrow> (Some f, d\<lparr>to_guest := fs\<rparr>))"

definition dev_receive :: "frame_device \<Rightarrow> bytes option \<times> frame_device" where
  "dev_receive d =
     (case from_guest d of [] \<Rightarrow> (None, d) | f # fs \<Rightarrow> (Some f, d\<lparr>from_guest := fs\<rparr>))"

text \<open>A transmit token: \<open>f\<close> fills a zeroed buffer of the length asked for, which is then queued.\<close>

definition dev_transmit :: "frame_device \<Rightarrow> nat \<Rightarrow> (bytes \<Rightarrow> bytes) \<Rightarrow> frame_device" where
  "dev_transmit d len f = d\<lparr>to_guest := to_guest d @ [f (replicate len 0)]\<rparr>"

subsection \<open>Data\<close>

type_synonym sock_addr = "ipv4 \<times> u16"

definition show_addr :: "sock_addr \<Rightarrow> rstr" where
  "show_addr a = show_ipv4 (fst a) @ [58] @ dec (unat (snd a))"

record nat_limits =
  max_connections :: "nat option"
  max_bytes_per_sec :: "u64 option"

record egress_event =
  domain :: rstr
  target :: rstr
  ev_allowed :: bool
  ev_rule :: rstr
  ev_policy :: rstr

datatype ('rx, 'h) host_side = Connecting 'rx | Relaying 'h bytes bool

record ('rx, 'h) flow =
  handle :: nat
  host :: "('rx, 'h) host_side"
  ingress_port :: "u16 option"

record 'l ingress =
  i_guest :: sock_addr
  i_listener :: 'l
  i_host_port :: u16

record exposure =
  e_host_port :: u16
  e_guest :: sock_addr

definition INGRESS_BIND_ADDR :: ipv4 where "INGRESS_BIND_ADDR = (127, 0, 0, 1)"
definition INGRESS_PORT_LO :: u16 where "INGRESS_PORT_LO = 49152"
definition INGRESS_PORT_HI :: u16 where "INGRESS_PORT_HI = 65535"
definition HOST_READ_CHUNK :: nat where "HOST_READ_CHUNK = 16 * 1024"

definition describe_exposure :: "exposure \<Rightarrow> rstr" where
  "describe_exposure e =
     lit ''ingress '' @ show_ipv4 INGRESS_BIND_ADDR @ [58] @ dec (unat (e_host_port e))
     @ lit '' -> guest '' @ show_addr (e_guest e) @ lit '' (loopback only)''"

text \<open>A diversion carries the address to dial, as its text, and the bytes to send first.\<close>

record divert =
  d_addr :: rstr
  d_preamble :: bytes

type_synonym decider = "ipv4 \<Rightarrow> u16 \<Rightarrow> rstr option \<Rightarrow> divert option"

record ('st, 'rx, 'h, 'l) nat_state =
  sockets :: 'st
  device :: frame_device
  policy :: egress_policy
  listeners :: "(sock_addr \<times> nat) list"
  flows :: "('rx, 'h) flow list"
  ingress_list :: "'l ingress list"
  ingress_ports :: "u16 set"
  next_ingress_port :: u16
  events :: "egress_event list"
  logged_denials :: "rstr set"
  gateway_ip :: ipv4
  limits :: nat_limits
  intercept :: "decider option"

text \<open>
  What the code calls on the stack. \<open>add_sock\<close> adds a fresh TCP socket; \<open>listen_sock\<close> makes a
  fresh one listen and adds it when listening succeeds; \<open>connect_sock\<close> dials from a local port
  and bounds the connect; \<open>accepted_sock\<close> says that a socket has a remote end and has left the
  listening state. \<open>start_connect\<close> is the thread that dials the host side and the channel its
  result arrives on; \<open>try_recv\<close> polls the channel.
\<close>

datatype connect_target = Origin sock_addr | Diverted divert

datatype 'h polled = Received "'h option" | Empty | Disconnected

record ('st, 's, 'rx, 'h) stack_ops =
  add_sock :: "'st \<Rightarrow> nat \<times> 'st"
  listen_sock :: "'st \<Rightarrow> sock_addr \<Rightarrow> (nat \<times> 'st) option"
  connect_sock :: "'st \<Rightarrow> nat \<Rightarrow> sock_addr \<Rightarrow> u16 \<Rightarrow> 'st option"
  remove_sock :: "'st \<Rightarrow> nat \<Rightarrow> 'st"
  accepted_sock :: "'st \<Rightarrow> nat \<Rightarrow> bool"
  get_sock :: "'st \<Rightarrow> nat \<Rightarrow> 's"
  put_sock :: "'st \<Rightarrow> nat \<Rightarrow> 's \<Rightarrow> 'st"
  has_timeout :: "'s \<Rightarrow> bool"
  clear_timeout :: "'s \<Rightarrow> 's"
  start_connect :: "connect_target \<Rightarrow> 'rx"
  try_recv :: "'rx \<Rightarrow> 'h polled \<times> 'rx"
  stream_nonblocking :: "'h \<Rightarrow> bool"

datatype 'a io = Io_Ok 'a | Would_Block | Io_Err

record 's sock_ops =
  can_recv :: "'s \<Rightarrow> bool"
  recv_buf :: "'s \<Rightarrow> bytes option"
  dequeue :: "'s \<Rightarrow> nat \<Rightarrow> 's"
  can_send :: "'s \<Rightarrow> bool"
  send_slice :: "'s \<Rightarrow> bytes \<Rightarrow> nat option \<times> 's"
  close :: "'s \<Rightarrow> 's"
  abort :: "'s \<Rightarrow> 's"
  is_open :: "'s \<Rightarrow> bool"
  is_active :: "'s \<Rightarrow> bool"
  established :: "'s \<Rightarrow> bool"

record 'h stream_ops =
  h_write :: "'h \<Rightarrow> bytes \<Rightarrow> nat io \<times> 'h"
  h_read :: "'h \<Rightarrow> nat \<Rightarrow> bytes io \<times> 'h"

subsection \<open>Policy, audit and admission\<close>

definition nat_new :: "'st \<Rightarrow> ipv4 \<Rightarrow> egress_policy \<Rightarrow> nat_limits \<Rightarrow> ('st, 'rx, 'h, 'l) nat_state" where
  "nat_new st gw p lim =
     \<lparr>sockets = st, device = \<lparr>from_guest = [], to_guest = []\<rparr>, policy = p, listeners = [],
      flows = [], ingress_list = [], ingress_ports = {}, next_ingress_port = INGRESS_PORT_LO,
      events = [], logged_denials = {}, gateway_ip = gw, limits = lim, intercept = None\<rparr>"

definition set_intercept :: "('st, 'rx, 'h, 'l) nat_state \<Rightarrow> decider option \<Rightarrow> ('st, 'rx, 'h, 'l) nat_state" where
  "set_intercept n d = n\<lparr>intercept := d\<rparr>"

definition drain_events :: "('st, 'rx, 'h, 'l) nat_state \<Rightarrow> egress_event list \<times> ('st, 'rx, 'h, 'l) nat_state" where
  "drain_events n = (events n, n\<lparr>events := []\<rparr>)"

definition push_event ::
  "('st, 'rx, 'h, 'l) nat_state \<Rightarrow> rstr \<Rightarrow> rstr \<Rightarrow> bool \<Rightarrow> rstr \<Rightarrow> ('st, 'rx, 'h, 'l) nat_state" where
  "push_event n d t ok r =
     n\<lparr>events := events n @ [\<lparr>domain = d, target = t, ev_allowed = ok, ev_rule = r,
        ev_policy = p_label (policy n)\<rparr>]\<rparr>"

definition note_denial :: "('st, 'rx, 'h, 'l) nat_state \<Rightarrow> rstr \<Rightarrow> rstr \<Rightarrow> ('st, 'rx, 'h, 'l) nat_state" where
  "note_denial n d t = n\<lparr>logged_denials := insert (d @ lit '' '' @ t) (logged_denials n)\<rparr>"

definition describe_amendment :: "amend_outcome \<Rightarrow> rstr" where
  "describe_amendment oc =
     lit ''amend '' @ (if o_allowed oc then lit ''allow'' else lit ''deny'') @ lit '' '' @ o_rule oc
     @ (if o_superseded oc \<noteq> [] then lit '' (superseded '' @ join (lit '', '') (o_superseded oc) @ lit '')'' else [])
     @ (if o_established_retained oc > 0
        then lit '' ('' @ dec (o_established_retained oc) @ lit '' established flow(s) retained)'' else [])"

definition amend_policy ::
  "('st, 'rx, 'h, 'l) nat_state \<Rightarrow> amendment \<Rightarrow> amend_outcome \<times> ('st, 'rx, 'h, 'l) nat_state" where
  "amend_policy n a =
     (let (p, oc) = amend (policy n) a;
          oc = oc\<lparr>o_established_retained := length (flows n)\<rparr>
      in (oc, n\<lparr>policy := p,
            events := events n @ [\<lparr>domain = lit ''policy'', target = o_rule oc, ev_allowed = o_allowed oc,
              ev_rule = describe_amendment oc, ev_policy = o_label oc\<rparr>]\<rparr>))"

definition over_cap :: "('st, 'rx, 'h, 'l) nat_state \<Rightarrow> bool" where
  "over_cap n = (case max_connections (limits n) of
     None \<Rightarrow> False | Some m \<Rightarrow> length (flows n) + length (listeners n) \<ge> m)"

definition admit_syn ::
  "('st, 's, 'rx, 'h) stack_ops \<Rightarrow> nat \<Rightarrow> ('st, 'rx, 'h, 'l) nat_state \<Rightarrow> sock_addr
   \<Rightarrow> bool \<times> ('st, 'rx, 'h, 'l) nat_state" where
  "admit_syn ops now n dst =
     (let decision = decide_connect (policy n) now (fst dst) (snd dst);
          allowed = is_allow decision;
          n1 = push_event n (lit ''tcp'') (show_addr dst) allowed (decision_rule decision)
      in if \<not> allowed then (False, note_denial n1 (lit ''tcp'') (show_addr dst))
         else if map_of (listeners n1) dst \<noteq> None then (True, n1)
         else if over_cap n1 then
           (False, note_denial (push_event n1 (lit ''tcp'') (show_addr dst) False (lit ''connection-limit''))
                     (lit ''tcp'') (show_addr dst))
         else case listen_sock ops (sockets n1) dst of
             Some (h, st) \<Rightarrow> (True, n1\<lparr>sockets := st, listeners := listeners n1 @ [(dst, h)]\<rparr>)
           | None \<Rightarrow> (True, n1))"

text \<open>\<^verbatim>\<open>parse_tcp_syn_dst\<close>, with every index into the frame checked.\<close>

definition parse_tcp_syn_dst :: "bytes \<Rightarrow> sock_addr option outcome" where
  "parse_tcp_syn_dst frame =
     (if length frame < 14 + 20 then Done None
      else obind (be16_at frame 12) (\<lambda>ethertype.
        if ethertype \<noteq> 0x0800 then Done None
        else let ip = drop 14 frame in
          obind (index ip 0) (\<lambda>b0.
            if drop_bit 4 b0 \<noteq> 4 then Done None
            else let ihl = unat (b0 AND 0x0f) * 4 in
              if ihl < 20 \<or> length ip < ihl + 20 then Done None
              else obind (index ip 9) (\<lambda>proto.
                if proto \<noteq> 6 then Done None
                else
                  obind (index ip 16) (\<lambda>a. obind (index ip 17) (\<lambda>b.
                  obind (index ip 18) (\<lambda>c. obind (index ip 19) (\<lambda>d.
                    let tcp = drop ihl ip in
                    obind (be16_at tcp 2) (\<lambda>dst_port.
                    obind (index tcp 13) (\<lambda>flags.
                      if flags AND 0x02 \<noteq> 0 \<and> \<not> flags AND 0x10 \<noteq> 0
                      then Done (Some ((a, b, c, d), dst_port)) else Done None))))))))))"

text \<open>\<^verbatim>\<open>NetResponder::accept\<close>: the frame goes to the stack whatever was decided about it.\<close>

definition nat_accept ::
  "('st, 's, 'rx, 'h) stack_ops \<Rightarrow> nat \<Rightarrow> ('st, 'rx, 'h, 'l) nat_state \<Rightarrow> bytes
   \<Rightarrow> ('st, 'rx, 'h, 'l) nat_state outcome" where
  "nat_accept ops now n frame =
     obind (parse_tcp_syn_dst frame) (\<lambda>d.
       let n1 = (case d of Some dst \<Rightarrow> snd (admit_syn ops now n dst) | None \<Rightarrow> n) in
       Done (n1\<lparr>device := push_from_guest (device n1) frame\<rparr>))"

subsection \<open>DNS\<close>

text \<open>\<open>resolver\<close> is the host's resolver; \<open>None\<close> is its failure.\<close>

definition resolve ::
  "(rstr \<Rightarrow> ipv4 list option) \<Rightarrow> nat \<Rightarrow> ('st, 'rx, 'h, 'l) nat_state \<Rightarrow> query
   \<Rightarrow> dns_outcome \<times> ('st, 'rx, 'h, 'l) nat_state" where
  "resolve resolver now n q =
     (if qtype q = QTYPE_AAAA then (NoData, n)
      else if qtype q \<noteq> QTYPE_A then (NoData, n)
      else
        let decision = decide_dns (policy n) (q_name q);
            allowed = is_allow decision;
            n1 = push_event n (lit ''dns'') (q_name q) allowed (decision_rule decision)
        in if \<not> allowed then (Refused, note_denial n1 (lit ''dns'') (q_name q))
           else case resolver (q_name q) of
               Some ips \<Rightarrow>
                 (if ips \<noteq> [] then
                    let public = filter (\<lambda>ip. allow_local_egress (policy n1) \<or> \<not> is_reserved_egress_ip ip) ips in
                    if public = [] then
                      (NoData, note_denial (push_event n1 (lit ''dns'') (q_name q) False (lit ''reserved-address''))
                                 (lit ''dns'') (q_name q))
                    else (Answers public,
                          n1\<lparr>policy := foldl (\<lambda>p ip. record_resolution p now (q_name q) ip) (policy n1) public\<rparr>)
                  else (NoData, n1))
             | None \<Rightarrow> (NxDomain, n1))"

text \<open>
  One pass over the datagrams that wait on the DNS socket, each with the metadata its reply is
  sent with. A datagram that is no query is skipped.
\<close>

fun service_dns ::
  "(rstr \<Rightarrow> ipv4 list option) \<Rightarrow> nat \<Rightarrow> ('st, 'rx, 'h, 'l) nat_state \<Rightarrow> (bytes \<times> 'm) list
   \<Rightarrow> ((bytes \<times> 'm) list \<times> ('st, 'rx, 'h, 'l) nat_state) outcome" where
  "service_dns resolver now n [] = Done ([], n)"
| "service_dns resolver now n ((msg, meta) # rest) =
     obind (parse_query msg) (\<lambda>p.
       case p of
         None \<Rightarrow> service_dns resolver now n rest
       | Some q \<Rightarrow>
           let (oc, n1) = resolve resolver now n q in
           obind (service_dns resolver now n1 rest) (\<lambda>(replies, n2).
             Done ((build_response q oc, meta) # replies, n2)))"

subsection \<open>Ingress\<close>

datatype 'e expose_error = Port_Zero | Already_Exposed u16 u16 | Bind_Failed 'e

text \<open>\<open>bound\<close> is what binding a loopback listener gave: an error, or the listener and its port.\<close>

definition expose ::
  "('st, 'rx, 'h, 'l) nat_state \<Rightarrow> sock_addr \<Rightarrow> 'e + 'l \<times> u16
   \<Rightarrow> ('e expose_error + exposure) \<times> ('st, 'rx, 'h, 'l) nat_state" where
  "expose n guest bound =
     (if snd guest = 0 then (Inl Port_Zero, n)
      else case find (\<lambda>i. i_guest i = guest) (ingress_list n) of
          Some prev \<Rightarrow> (Inl (Already_Exposed (snd guest) (i_host_port prev)), n)
        | None \<Rightarrow>
            (case bound of
               Inl e \<Rightarrow> (Inl (Bind_Failed e), n)
             | Inr (l, port) \<Rightarrow>
                 (Inr \<lparr>e_host_port = port, e_guest = guest\<rparr>,
                  n\<lparr>ingress_list := ingress_list n @ [\<lparr>i_guest = guest, i_listener = l, i_host_port = port\<rparr>]\<rparr>)))"

definition exposures :: "('st, 'rx, 'h, 'l) nat_state \<Rightarrow> exposure list" where
  "exposures n = map (\<lambda>i. \<lparr>e_host_port = i_host_port i, e_guest = i_guest i\<rparr>) (ingress_list n)"

fun free_port_loop :: "nat \<Rightarrow> u16 set \<Rightarrow> u16 \<Rightarrow> u16 option \<times> u16" where
  "free_port_loop 0 used next = (None, next)"
| "free_port_loop (Suc k) used next =
     (let after = (if next = INGRESS_PORT_HI then INGRESS_PORT_LO else next + 1) in
      if next \<notin> used then (Some next, after) else free_port_loop k used after)"

definition free_ingress_port ::
  "('st, 'rx, 'h, 'l) nat_state \<Rightarrow> u16 option \<times> ('st, 'rx, 'h, 'l) nat_state" where
  "free_ingress_port n =
     (let span = unat (INGRESS_PORT_HI - INGRESS_PORT_LO) + 1;
          (p, next) = free_port_loop span (ingress_ports n) (next_ingress_port n)
      in (p, n\<lparr>next_ingress_port := next\<rparr>))"

definition dial_guest ::
  "('st, 's, 'rx, 'h) stack_ops \<Rightarrow> ('st, 'rx, 'h, 'l) nat_state \<Rightarrow> sock_addr \<Rightarrow> 'h
   \<Rightarrow> ('st, 'rx, 'h, 'l) nat_state" where
  "dial_guest ops n guest stream =
     (let t = show_addr guest; ing = lit ''ingress'' in
      if over_cap n then
        note_denial (push_event n ing t False (lit ''connection-limit'')) ing t
      else case free_ingress_port n of
          (None, n1) \<Rightarrow> note_denial (push_event n1 ing t False (lit ''ingress-ports-exhausted'')) ing t
        | (Some port, n1) \<Rightarrow>
            if \<not> stream_nonblocking ops stream then n1
            else case add_sock ops (sockets n1) of
                (h, st) \<Rightarrow>
                  (case connect_sock ops st h guest port of
                     None \<Rightarrow>
                       push_event (n1\<lparr>sockets := remove_sock ops st h\<rparr>) ing t False (lit ''connect-failed'')
                   | Some st' \<Rightarrow>
                       (push_event (n1\<lparr>sockets := st', ingress_ports := insert port (ingress_ports n1)\<rparr>)
                          ing t True (lit ''exposed''))
                       \<lparr>flows := flows n1 @ [\<lparr>handle = h, host = Relaying stream [] False,
                          ingress_port = Some port\<rparr>]\<rparr>))"

text \<open>\<open>waiting\<close> gives the connections queued on a host listener.\<close>

definition accept_ingress ::
  "('st, 's, 'rx, 'h) stack_ops \<Rightarrow> ('l \<Rightarrow> 'h list) \<Rightarrow> ('st, 'rx, 'h, 'l) nat_state \<Rightarrow> ('st, 'rx, 'h, 'l) nat_state" where
  "accept_ingress ops waiting n =
     foldl (\<lambda>m (guest, stream). dial_guest ops m guest stream) n
       (concat (map (\<lambda>i. map (Pair (i_guest i)) (waiting (i_listener i))) (ingress_list n)))"

subsection \<open>Flows\<close>

text \<open>
  \<open>order\<close> is the order in which the hash map of listeners is iterated.
\<close>

definition promote_one ::
  "('st, 's, 'rx, 'h) stack_ops \<Rightarrow> nat \<Rightarrow> ('st, 'rx, 'h, 'l) nat_state \<Rightarrow> sock_addr \<times> nat
   \<Rightarrow> ('st, 'rx, 'h, 'l) nat_state" where
  "promote_one ops now n dh =
     (case dh of (dst, h) \<Rightarrow>
        let n1 = n\<lparr>listeners := filter (\<lambda>l. fst l \<noteq> dst) (listeners n)\<rparr>;
            dv = (case intercept n1 of
                    None \<Rightarrow> None
                  | Some d \<Rightarrow> d (fst dst) (snd dst) (resolved_host (policy n1) now (fst dst)));
            n2 = (case dv of
                    Some d \<Rightarrow> push_event n1 (lit ''tcp'') (show_addr dst) True (lit ''divert '' @ d_addr d)
                  | None \<Rightarrow> n1);
            tgt = (case dv of Some d \<Rightarrow> Diverted d | None \<Rightarrow> Origin dst)
        in n2\<lparr>flows := flows n2 @ [\<lparr>handle = h, host = Connecting (start_connect ops tgt), ingress_port = None\<rparr>]\<rparr>)"

definition promote_listeners ::
  "('st, 's, 'rx, 'h) stack_ops \<Rightarrow> ((sock_addr \<times> nat) list \<Rightarrow> (sock_addr \<times> nat) list) \<Rightarrow> nat
   \<Rightarrow> ('st, 'rx, 'h, 'l) nat_state \<Rightarrow> ('st, 'rx, 'h, 'l) nat_state" where
  "promote_listeners ops order now n =
     foldl (promote_one ops now) n
       (filter (\<lambda>(_, h). accepted_sock ops (sockets n) h) (order (listeners n)))"

definition advance_connect ::
  "('st, 's, 'rx, 'h) stack_ops \<Rightarrow> 's sock_ops \<Rightarrow> 'st \<Rightarrow> ('rx, 'h) flow \<Rightarrow> 'st \<times> ('rx, 'h) flow" where
  "advance_connect ops so st f =
     (case host f of
        Relaying _ _ _ \<Rightarrow> (st, f)
      | Connecting rx \<Rightarrow>
          (case try_recv ops rx of
             (Received (Some stream), _) \<Rightarrow> (st, f\<lparr>host := Relaying stream [] False\<rparr>)
           | (Empty, rx') \<Rightarrow> (st, f\<lparr>host := Connecting rx'\<rparr>)
           | (_, rx') \<Rightarrow>
               (put_sock ops st (handle f) (abort so (get_sock ops st (handle f))), f\<lparr>host := Connecting rx'\<rparr>)))"

text \<open>
  The two loops of \<^verbatim>\<open>relay\<close>. Both return only when the sockets let them, so a result of \<open>None\<close>
  is a pass that never ends.
\<close>

partial_function (option) relay_up ::
  "'s sock_ops \<Rightarrow> 'h stream_ops \<Rightarrow> 's \<Rightarrow> 'h \<Rightarrow> u64 option \<Rightarrow> ('s \<times> 'h \<times> u64 option) option" where
  "relay_up so ho s h budget =
     (if \<not> can_recv so s \<or> budget = Some 0 then Some (s, h, budget)
      else case recv_buf so s of
          None \<Rightarrow> Some (close so s, h, budget)
        | Some buf \<Rightarrow>
            let cap = (case budget of Some b \<Rightarrow> unat b | None \<Rightarrow> 2 ^ 64 - 1);
                n0 = min (length buf) cap
            in if n0 = 0 then Some (dequeue so s 0, h, budget)
               else case h_write ho h (take n0 buf) of
                   (Io_Ok n, h') \<Rightarrow>
                     (if n = 0 then Some (close so (dequeue so s 0), h', budget)
                      else relay_up so ho (dequeue so s n) h' (map_option (\<lambda>b. sat_sub b (of_nat n)) budget))
                 | (Would_Block, h') \<Rightarrow> Some (dequeue so s 0, h', budget)
                 | (Io_Err, h') \<Rightarrow> Some (close so (dequeue so s 0), h', budget))"

partial_function (option) relay_down ::
  "'s sock_ops \<Rightarrow> 'h stream_ops \<Rightarrow> 's \<Rightarrow> 'h \<Rightarrow> bytes \<Rightarrow> bool \<Rightarrow> u64 option
   \<Rightarrow> ('s \<times> 'h \<times> bytes \<times> bool \<times> u64 option) option" where
  "relay_down so ho s h pend eof budget =
     (if pend \<noteq> [] \<or> eof \<or> \<not> can_send so s then Some (s, h, pend, eof, budget)
      else
        let cap = (case budget of Some b \<Rightarrow> min (unat b) HOST_READ_CHUNK | None \<Rightarrow> HOST_READ_CHUNK) in
        if cap = 0 then Some (s, h, pend, eof, budget)
        else case h_read ho h cap of
            (Io_Ok buf, h') \<Rightarrow>
              (if buf = [] then Some (s, h', pend, True, budget)
               else case send_slice so s buf of
                   (r, s') \<Rightarrow>
                     let sent = (case r of Some k \<Rightarrow> k | None \<Rightarrow> 0);
                         pend' = (if sent < length buf then pend @ drop sent buf else pend);
                         budget' = map_option (\<lambda>b. sat_sub b (of_nat (length buf))) budget
                     in if length buf < cap then Some (s', h', pend', eof, budget')
                        else relay_down so ho s' h' pend' eof budget')
          | (Would_Block, h') \<Rightarrow> Some (s, h', pend, eof, budget)
          | (Io_Err, h') \<Rightarrow> Some (s, h', pend, True, budget))"

definition flush_pending :: "'s sock_ops \<Rightarrow> 's \<Rightarrow> bytes \<Rightarrow> 's \<times> bytes" where
  "flush_pending so s pend =
     (if pend \<noteq> [] then
        (case send_slice so s pend of (r, s') \<Rightarrow>
           (s', drop (case r of Some k \<Rightarrow> k | None \<Rightarrow> 0) pend))
      else (s, pend))"

definition relay ::
  "'s sock_ops \<Rightarrow> 'h stream_ops \<Rightarrow> 's \<Rightarrow> ('rx, 'h) host_side \<Rightarrow> u64 option
   \<Rightarrow> (bool \<times> 's \<times> ('rx, 'h) host_side \<times> u64 option) option" where
  "relay so ho s hs budget =
     (case hs of
        Connecting rx \<Rightarrow> Some (False, s, hs, budget)
      | Relaying h pend eof \<Rightarrow>
          Option.bind (relay_up so ho s h budget) (\<lambda>(s1, h1, b1).
          case flush_pending so s1 pend of (s2, pend2) \<Rightarrow>
          Option.bind (relay_down so ho s2 h1 pend2 eof b1) (\<lambda>(s3, h3, pend3, eof3, b3).
            let s4 = (if eof3 \<and> pend3 = [] then close so s3 else s3) in
            Some (\<not> is_open so s4 \<and> pend3 = [], s4, Relaying h3 pend3 eof3, b3))))"

text \<open>One flow of a pass: its socket set, the flow, the budget left, and whether it retires.\<close>

definition service_flow ::
  "('st, 's, 'rx, 'h) stack_ops \<Rightarrow> 's sock_ops \<Rightarrow> 'h stream_ops \<Rightarrow> 'st \<Rightarrow> ('rx, 'h) flow \<Rightarrow> u64 option
   \<Rightarrow> ('st \<times> ('rx, 'h) flow \<times> u64 option \<times> bool) option" where
  "service_flow ops so ho st0 f0 budget =
     (let (st, f) = advance_connect ops so st0 f0;
          s0 = get_sock ops st (handle f);
          s = (if ingress_port f \<noteq> None \<and> established so s0 \<and> has_timeout ops s0
               then clear_timeout ops s0 else s0)
      in Option.bind (relay so ho s (host f) budget) (\<lambda>(fin, s', hs, b).
           Some (put_sock ops st (handle f) s', f\<lparr>host := hs\<rparr>, b,
                 fin \<or> (\<not> is_active so s' \<and> \<not> is_open so s'))))"

fun service_each ::
  "('st, 's, 'rx, 'h) stack_ops \<Rightarrow> 's sock_ops \<Rightarrow> 'h stream_ops \<Rightarrow> 'st \<Rightarrow> ('rx, 'h) flow list \<Rightarrow> u64 option
   \<Rightarrow> ('st \<times> (('rx, 'h) flow \<times> bool) list \<times> u64 option) option" where
  "service_each ops so ho st [] budget = Some (st, [], budget)"
| "service_each ops so ho st (f # fs) budget =
     Option.bind (service_flow ops so ho st f budget) (\<lambda>(st1, f1, b1, retired).
     Option.bind (service_each ops so ho st1 fs b1) (\<lambda>(st2, rest, b2).
       Some (st2, (f1, retired) # rest, b2)))"

definition retire_flow ::
  "('st, 's, 'rx, 'h) stack_ops \<Rightarrow> 's sock_ops \<Rightarrow> ('rx, 'h) flow \<Rightarrow> 'st \<times> u16 set \<Rightarrow> 'st \<times> u16 set" where
  "retire_flow ops so f sp =
     (case sp of (st, ports) \<Rightarrow>
        (remove_sock ops (put_sock ops st (handle f) (abort so (get_sock ops st (handle f)))) (handle f),
         case ingress_port f of Some p \<Rightarrow> ports - {p} | None \<Rightarrow> ports))"

text \<open>\<^verbatim>\<open>service_flows\<close>: the retired flows leave last first.\<close>

definition service_flows ::
  "('st, 's, 'rx, 'h) stack_ops \<Rightarrow> 's sock_ops \<Rightarrow> 'h stream_ops \<Rightarrow> u64 option \<Rightarrow> ('st, 'rx, 'h, 'l) nat_state
   \<Rightarrow> (u64 option \<times> ('st, 'rx, 'h, 'l) nat_state) option" where
  "service_flows ops so ho budget n =
     Option.bind (service_each ops so ho (sockets n) (flows n) budget) (\<lambda>(st, fs, b).
       let gone = map fst (filter snd fs);
           (st', ports) = foldr (retire_flow ops so) gone (st, ingress_ports n)
       in Some (b, n\<lparr>sockets := st', ingress_ports := ports, flows := map fst (filter (\<lambda>x. \<not> snd x) fs)\<rparr>))"

text \<open>
  One service pass. \<open>poll\<close> advances the stack over the frame queues; \<open>dns_recv\<close> takes the
  datagrams that wait on the DNS socket and \<open>dns_send\<close> queues a reply there. The result carries
  the frames for the guest and what is left of the budget.
\<close>

record ('st, 'm) poll_ops =
  poll :: "'st \<times> frame_device \<Rightarrow> 'st \<times> frame_device"
  dns_recv :: "'st \<Rightarrow> (bytes \<times> 'm) list \<times> 'st"
  dns_send :: "'st \<Rightarrow> bytes \<times> 'm \<Rightarrow> 'st"

definition nat_poll :: "('st, 'm) poll_ops \<Rightarrow> ('st, 'rx, 'h, 'l) nat_state \<Rightarrow> ('st, 'rx, 'h, 'l) nat_state" where
  "nat_poll po n = (case poll po (sockets n, device n) of (st, d) \<Rightarrow> n\<lparr>sockets := st, device := d\<rparr>)"

definition nat_service ::
  "('st, 's, 'rx, 'h) stack_ops \<Rightarrow> 's sock_ops \<Rightarrow> 'h stream_ops \<Rightarrow> ('st, 'm) poll_ops
   \<Rightarrow> (rstr \<Rightarrow> ipv4 list option) \<Rightarrow> ('l \<Rightarrow> 'h list)
   \<Rightarrow> ((sock_addr \<times> nat) list \<Rightarrow> (sock_addr \<times> nat) list) \<Rightarrow> nat \<Rightarrow> u64 option
   \<Rightarrow> ('st, 'rx, 'h, 'l) nat_state
   \<Rightarrow> (bytes list \<times> u64 option \<times> ('st, 'rx, 'h, 'l) nat_state) outcome option" where
  "nat_service ops so ho po resolver waiting order now budget n =
     (let n1 = nat_poll po n;
          (msgs, st) = dns_recv po (sockets n1)
      in case service_dns resolver now (n1\<lparr>sockets := st\<rparr>) msgs of
          Panicked \<Rightarrow> Some Panicked
        | Done (replies, n2) \<Rightarrow>
            let n3 = n2\<lparr>sockets := foldl (dns_send po) (sockets n2) replies\<rparr>;
                n4 = promote_listeners ops order now (accept_ingress ops waiting n3)
            in Option.bind (service_flows ops so ho budget n4) (\<lambda>(b, n5).
                 let n6 = nat_poll po n5 in
                 Some (Done (to_guest (device n6), b, n6\<lparr>device := (device n6)\<lparr>to_guest := []\<rparr>\<rparr>))))"

subsection \<open>The invariant\<close>

definition flow_ports :: "('rx, 'h) flow list \<Rightarrow> u16 list" where
  "flow_ports fs = List.map_filter ingress_port fs"

text \<open>
  Every destination has at most one listener; the ports in use are exactly those of the inbound
  flows, no two of which share one, all in the dynamic range; and the flows and listeners
  together stay within the cap.
\<close>

definition nat_ok :: "('st, 'rx, 'h, 'l) nat_state \<Rightarrow> bool" where
  "nat_ok n \<longleftrightarrow>
     distinct (map fst (listeners n))
     \<and> distinct (flow_ports (flows n)) \<and> set (flow_ports (flows n)) = ingress_ports n
     \<and> list_all (\<lambda>p. INGRESS_PORT_LO \<le> p) (flow_ports (flows n))
     \<and> INGRESS_PORT_LO \<le> next_ingress_port n
     \<and> (case max_connections (limits n) of
          None \<Rightarrow> True | Some m \<Rightarrow> length (flows n) + length (listeners n) \<le> m)"

definition same_core :: "('st, 'rx, 'h, 'l) nat_state \<Rightarrow> ('st, 'rx, 'h, 'l) nat_state \<Rightarrow> bool" where
  "same_core n m \<longleftrightarrow> listeners m = listeners n \<and> flows m = flows n \<and> ingress_ports m = ingress_ports n
     \<and> next_ingress_port m = next_ingress_port n \<and> limits m = limits n"

lemma same_core_ok: "same_core n m \<Longrightarrow> nat_ok n \<Longrightarrow> nat_ok m"
  by (auto simp: same_core_def nat_ok_def split: option.splits)

lemma same_core_trans: "same_core n m \<Longrightarrow> same_core m k \<Longrightarrow> same_core n k"
  by (simp add: same_core_def)

lemma flow_ports_simps [simp]:
  "flow_ports [] = []"
  "flow_ports (fs @ gs) = flow_ports fs @ flow_ports gs"
  "flow_ports (f # fs) = (case ingress_port f of Some p \<Rightarrow> [p] | None \<Rightarrow> []) @ flow_ports fs"
  by (simp_all add: flow_ports_def List.map_filter_def split: option.split)

lemma push_event_fields [simp]:
  "listeners (push_event n d t k r) = listeners n" "flows (push_event n d t k r) = flows n"
  "ingress_ports (push_event n d t k r) = ingress_ports n"
  "next_ingress_port (push_event n d t k r) = next_ingress_port n"
  "limits (push_event n d t k r) = limits n" "sockets (push_event n d t k r) = sockets n"
  "policy (push_event n d t k r) = policy n" "intercept (push_event n d t k r) = intercept n"
  "ingress_list (push_event n d t k r) = ingress_list n"
  by (simp_all add: push_event_def)

lemma note_denial_fields [simp]:
  "listeners (note_denial n d t) = listeners n" "flows (note_denial n d t) = flows n"
  "ingress_ports (note_denial n d t) = ingress_ports n"
  "next_ingress_port (note_denial n d t) = next_ingress_port n"
  "limits (note_denial n d t) = limits n" "policy (note_denial n d t) = policy n"
  "ingress_list (note_denial n d t) = ingress_list n" "events (note_denial n d t) = events n"
  by (simp_all add: note_denial_def)

lemma over_cap_room:
  "\<not> over_cap n \<Longrightarrow> max_connections (limits n) = Some m \<Longrightarrow> length (flows n) + length (listeners n) < m"
  by (simp add: over_cap_def)

lemma nat_new_ok: "nat_ok (nat_new st gw p lim)"
  by (simp add: nat_new_def nat_ok_def split: option.split)

lemma admit_syn_cases:
  "same_core n (snd (admit_syn ops now n dst))
   \<or> (\<exists>h. \<not> over_cap n \<and> dst \<notin> fst ` set (listeners n) \<and> is_allow (decide_connect (policy n) now (fst dst) (snd dst))
       \<and> listeners (snd (admit_syn ops now n dst)) = listeners n @ [(dst, h)]
       \<and> flows (snd (admit_syn ops now n dst)) = flows n
       \<and> ingress_ports (snd (admit_syn ops now n dst)) = ingress_ports n
       \<and> next_ingress_port (snd (admit_syn ops now n dst)) = next_ingress_port n
       \<and> limits (snd (admit_syn ops now n dst)) = limits n)"
proof -
  have oc: "over_cap (push_event n d t k r) = over_cap n" for d t k r
    by (simp add: over_cap_def split: option.split)
  show ?thesis
    by (auto simp: admit_syn_def Let_def same_core_def oc map_of_eq_None_iff split: option.splits)
qed

lemma admit_syn_ok: "nat_ok n \<Longrightarrow> nat_ok (snd (admit_syn ops now n dst))"
  using admit_syn_cases [of n ops now dst]
proof
  assume "nat_ok n" "same_core n (snd (admit_syn ops now n dst))"
  then show ?thesis by (blast intro: same_core_ok)
next
  assume n: "nat_ok n"
  assume "\<exists>h. \<not> over_cap n \<and> dst \<notin> fst ` set (listeners n) \<and> is_allow (decide_connect (policy n) now (fst dst) (snd dst))
       \<and> listeners (snd (admit_syn ops now n dst)) = listeners n @ [(dst, h)]
       \<and> flows (snd (admit_syn ops now n dst)) = flows n
       \<and> ingress_ports (snd (admit_syn ops now n dst)) = ingress_ports n
       \<and> next_ingress_port (snd (admit_syn ops now n dst)) = next_ingress_port n
       \<and> limits (snd (admit_syn ops now n dst)) = limits n"
  with n show ?thesis using over_cap_room [of n]
    by (auto simp: nat_ok_def Suc_le_eq split: option.splits)
qed

lemma free_port_loop_spec:
  assumes "INGRESS_PORT_LO \<le> next" "free_port_loop k used next = (r, next')"
  shows "INGRESS_PORT_LO \<le> next' \<and> (case r of Some p \<Rightarrow> p \<notin> used \<and> INGRESS_PORT_LO \<le> p | None \<Rightarrow> True)"
  using assms
proof (induction k arbitrary: "next")
  case (Suc k)
  let ?a = "if next = INGRESS_PORT_HI then INGRESS_PORT_LO else next + 1"
  have a: "INGRESS_PORT_LO \<le> ?a"
  proof (cases "next = INGRESS_PORT_HI")
    case False
    moreover have "INGRESS_PORT_HI = - 1" by (simp add: INGRESS_PORT_HI_def)
    ultimately have "next < - 1" by (metis word_order.not_eq_extremum)
    then have "next \<le> next + 1" using word_Suc_unat [of "next" "- 1"] by (simp add: word_le_nat_alt)
    with Suc(2) False show ?thesis by (auto intro: order_trans)
  qed simp
  show ?case
  proof (cases "next \<in> used")
    case True
    with Suc(3) have "free_port_loop k used ?a = (r, next')" by (simp add: Let_def)
    with Suc(1) [OF a] show ?thesis by blast
  next
    case False
    with Suc(2,3) a show ?thesis by (auto simp: Let_def)
  qed
qed simp

lemma free_ingress_port_fields:
  assumes "free_ingress_port n = (r, m)"
  shows "listeners m = listeners n" "flows m = flows n" "ingress_ports m = ingress_ports n" "limits m = limits n"
    "policy m = policy n" "ingress_list m = ingress_list n" "sockets m = sockets n"
  using assms by (auto simp: free_ingress_port_def Let_def split: prod.splits)

lemma free_ingress_port_ok:
  assumes "nat_ok n" "free_ingress_port n = (r, m)"
  shows "nat_ok m \<and> (case r of Some p \<Rightarrow> p \<notin> ingress_ports m \<and> INGRESS_PORT_LO \<le> p | None \<Rightarrow> True)"
proof -
  obtain next' where l: "free_port_loop (unat (INGRESS_PORT_HI - INGRESS_PORT_LO) + 1) (ingress_ports n)
      (next_ingress_port n) = (r, next')" and m: "m = n\<lparr>next_ingress_port := next'\<rparr>"
    using assms(2) by (auto simp: free_ingress_port_def Let_def split: prod.splits)
  have "INGRESS_PORT_LO \<le> next_ingress_port n" using assms(1) by (simp add: nat_ok_def)
  from free_port_loop_spec [OF this l] assms(1) show ?thesis
    by (auto simp: nat_ok_def m split: option.splits)
qed

lemma dial_guest_ok:
  assumes "nat_ok n"
  shows "nat_ok (dial_guest ops n guest stream)"
proof (cases "over_cap n")
  case True
  then show ?thesis using assms
    by (simp add: dial_guest_def Let_def same_core_ok [of n] same_core_def)
next
  case cap: False
  obtain r m where f: "free_ingress_port n = (r, m)" by (cases "free_ingress_port n")
  note ff = free_ingress_port_fields [OF f]
  have ok: "nat_ok m" using free_ingress_port_ok [OF assms f] by blast
  show ?thesis
  proof (cases r)
    case None
    then show ?thesis using cap f ok
      by (simp add: dial_guest_def Let_def same_core_ok [of m] same_core_def)
  next
    case (Some p)
    have p: "p \<notin> ingress_ports m" "INGRESS_PORT_LO \<le> p"
      using free_ingress_port_ok [OF assms f] Some by auto
    have room: "length (flows m) + length (listeners m) < c" if "max_connections (limits m) = Some c" for c
      using over_cap_room [OF cap, of c] that ff by simp
    obtain h st where a: "add_sock ops (sockets m) = (h, st)" by (cases "add_sock ops (sockets m)")
    have "nat_ok (push_event (m\<lparr>sockets := x\<rparr>) d t k rr)" for x d t k rr
      using ok by (simp add: same_core_ok [of m] same_core_def)
    moreover have "nat_ok ((push_event (m\<lparr>sockets := x, ingress_ports := insert p (ingress_ports m)\<rparr>) d t k rr)
        \<lparr>flows := flows m @ [\<lparr>handle = h, host = Relaying stream [] False, ingress_port = Some p\<rparr>]\<rparr>)" for x d t k rr
      using ok p room by (auto simp: nat_ok_def Suc_le_eq split: option.splits)
    ultimately show ?thesis using cap f Some ok a
      by (simp add: dial_guest_def Let_def split: option.splits)
  qed
qed

lemma accept_ingress_ok: "nat_ok n \<Longrightarrow> nat_ok (accept_ingress ops waiting n)"
proof -
  have "nat_ok m \<Longrightarrow> nat_ok (foldl (\<lambda>m (guest, stream). dial_guest ops m guest stream) m xs)"
    for xs and m :: "('a, 'b, 'c, 'd) nat_state"
    by (induction xs arbitrary: m) (auto intro: dial_guest_ok)
  then show "nat_ok n \<Longrightarrow> ?thesis" by (simp add: accept_ingress_def)
qed

lemma filter_key_out:
  "distinct (map fst xs) \<Longrightarrow> (k, v) \<in> set xs \<Longrightarrow> Suc (length (filter (\<lambda>l. fst l \<noteq> k) xs)) = length xs"
proof (induction xs)
  case (Cons x xs)
  show ?case
  proof (cases "fst x = k")
    case True
    then have "\<forall>l \<in> set xs. fst l \<noteq> k" using Cons(2) by (auto simp: image_iff)
    then have "filter (\<lambda>l. fst l \<noteq> k) xs = xs" by (simp add: filter_id_conv)
    with True show ?thesis by simp
  next
    case False
    with Cons show ?thesis by auto
  qed
qed simp

lemma promote_one_fields:
  "listeners (promote_one ops now n (dst, h)) = filter (\<lambda>l. fst l \<noteq> dst) (listeners n)"
  "\<exists>rx. flows (promote_one ops now n (dst, h)) = flows n @ [\<lparr>handle = h, host = Connecting rx, ingress_port = None\<rparr>]"
  "ingress_ports (promote_one ops now n (dst, h)) = ingress_ports n"
  "next_ingress_port (promote_one ops now n (dst, h)) = next_ingress_port n"
  "limits (promote_one ops now n (dst, h)) = limits n"
  "policy (promote_one ops now n (dst, h)) = policy n"
  by (simp_all add: promote_one_def Let_def split: option.split)

lemma promote_one_ok:
  assumes "nat_ok n" "(dst, h) \<in> set (listeners n)"
  shows "nat_ok (promote_one ops now n (dst, h))"
proof -
  have d: "distinct (map fst (listeners n))" using assms(1) by (simp add: nat_ok_def)
  obtain rx where f: "flows (promote_one ops now n (dst, h))
      = flows n @ [\<lparr>handle = h, host = Connecting rx, ingress_port = None\<rparr>]"
    using promote_one_fields(2) [of ops now n dst h] by (elim exE)
  have "distinct (map fst (filter (\<lambda>l. fst l \<noteq> dst) (listeners n)))" using d by (rule distinct_map_filter)
  then show ?thesis
    using assms(1) filter_key_out [OF d assms(2)]
    by (simp add: nat_ok_def promote_one_fields f split: option.splits)
qed

lemma promote_fold_ok:
  "nat_ok n \<Longrightarrow> set xs \<subseteq> set (listeners n) \<Longrightarrow> distinct (map fst xs) \<Longrightarrow> nat_ok (foldl (promote_one ops now) n xs)"
proof (induction xs arbitrary: n)
  case (Cons x xs)
  obtain dst h where x: "x = (dst, h)" by (cases x)
  have "set xs \<subseteq> set (listeners (promote_one ops now n x))"
    using Cons(3,4) by (force simp: x promote_one_fields)
  then show ?case using Cons x promote_one_ok [of n dst h ops now] by simp
qed simp

lemma promote_listeners_ok:
  assumes "nat_ok n" "\<And>xs. mset (order xs) = mset xs"
  shows "nat_ok (promote_listeners ops order now n)"
proof -
  have s: "set (order xs) = set xs" for xs using assms(2) by (metis set_mset_mset)
  have "mset (map fst (order (listeners n))) = mset (map fst (listeners n))"
    using assms(2) by simp
  then have "distinct (map fst (order (listeners n))) = distinct (map fst (listeners n))"
    by (rule mset_eq_imp_distinct_iff)
  then have "distinct (map fst (order (listeners n)))" using assms(1) by (simp add: nat_ok_def)
  then show ?thesis unfolding promote_listeners_def
    using s by (intro promote_fold_ok [OF assms(1)]) (auto intro: distinct_map_filter)
qed

lemma advance_connect_port: "ingress_port (snd (advance_connect ops so st f)) = ingress_port f"
  by (simp add: advance_connect_def split: host_side.split prod.split polled.split option.split)

lemma service_flow_port:
  assumes "service_flow ops so ho st f b = Some (st', f', b', r)"
  shows "ingress_port f' = ingress_port f"
proof -
  obtain st1 f1 where a: "advance_connect ops so st f = (st1, f1)" by (cases "advance_connect ops so st f")
  then have "ingress_port f1 = ingress_port f" using advance_connect_port [of ops so st f] by simp
  moreover have "ingress_port f' = ingress_port f1"
    using assms by (auto simp: service_flow_def a Let_def bind_eq_Some_conv)
  ultimately show ?thesis by simp
qed

lemma service_each_ports:
  "service_each ops so ho st fs b = Some (st', gs, b') \<Longrightarrow> map (ingress_port \<circ> fst) gs = map ingress_port fs"
proof (induction fs arbitrary: st b gs st' b')
  case (Cons f fs)
  then obtain st1 f1 b1 r st2 rest b2 where
    f: "service_flow ops so ho st f b = Some (st1, f1, b1, r)"
    and e: "service_each ops so ho st1 fs b1 = Some (st2, rest, b2)" and g: "gs = (f1, r) # rest"
    by (auto simp: bind_eq_Some_conv)
  show ?case using service_flow_port [OF f] Cons(1) [OF e] by (simp add: g)
qed simp

lemma retire_ports:
  "snd (foldr (retire_flow ops so) gone (st, ports)) = ports - set (flow_ports gone)"
proof (induction gone)
  case (Cons f gone)
  have "snd (retire_flow ops so f sp) = snd sp - set (flow_ports [f])" for sp
    by (cases sp; cases "ingress_port f") (simp_all add: retire_flow_def)
  then have "snd (foldr (retire_flow ops so) (f # gone) (st, ports))
      = ports - set (flow_ports gone) - set (flow_ports [f])" by (simp only: foldr.simps comp_apply Cons)
  then show ?case by (cases "ingress_port f") auto
qed simp

lemma split_flow_ports:
  "set (flow_ports (map fst gs)) = set (flow_ports (map fst (filter P gs))) \<union> set (flow_ports (map fst (filter (\<lambda>x. \<not> P x) gs)))"
  by (induction gs) auto

lemma keep_flow_ports:
  "distinct (flow_ports (map fst gs)) \<Longrightarrow>
   distinct (flow_ports (map fst (filter (\<lambda>x. \<not> P x) gs)))
   \<and> set (flow_ports (map fst (filter P gs))) \<inter> set (flow_ports (map fst (filter (\<lambda>x. \<not> P x) gs))) = {}"
proof (induction gs)
  case (Cons g gs)
  have s: "set (flow_ports (map fst (filter P gs))) \<subseteq> set (flow_ports (map fst gs))"
    "set (flow_ports (map fst (filter (\<lambda>x. \<not> P x) gs))) \<subseteq> set (flow_ports (map fst gs))"
    using split_flow_ports [of gs P] by auto
  show ?case
    using Cons s by (cases "ingress_port (fst g)") auto
qed simp

lemma flow_ports_map: "map (ingress_port \<circ> fst) gs = map ingress_port fs \<Longrightarrow> flow_ports (map fst gs) = flow_ports fs"
proof (induction gs arbitrary: fs)
  case (Cons g gs)
  then obtain f fs' where "fs = f # fs'" by (cases fs) auto
  with Cons show ?case by auto
qed simp

lemma service_flows_ok:
  assumes "nat_ok n" "service_flows ops so ho budget n = Some (b, m)"
  shows "nat_ok m"
proof -
  obtain st gs b' where e: "service_each ops so ho (sockets n) (flows n) budget = Some (st, gs, b')"
    using assms(2) by (auto simp: service_flows_def bind_eq_Some_conv)
  let ?gone = "map fst (filter snd gs)" and ?kept = "map fst (filter (\<lambda>x. \<not> snd x) gs)"
  have m: "flows m = ?kept" "listeners m = listeners n" "limits m = limits n"
    "next_ingress_port m = next_ingress_port n" "ingress_ports m = ingress_ports n - set (flow_ports ?gone)"
    using assms(2) e retire_ports [of ops so ?gone st "ingress_ports n"]
    by (auto simp: service_flows_def Let_def split: prod.splits)
  have p: "flow_ports (map fst gs) = flow_ports (flows n)"
    by (rule flow_ports_map) (rule service_each_ports [OF e])
  have l: "length gs = length (flows n)"
    using service_each_ports [OF e] by (metis length_map)
  have "length ?kept \<le> length (flows n)" using l length_filter_le [of _ gs] by (metis length_map)
  then show ?thesis
    using assms(1) keep_flow_ports [of gs snd] split_flow_ports [of gs snd]
    by (auto simp: nat_ok_def m p list_all_iff split: option.splits)
qed

subsection \<open>The relay\<close>

text \<open>
  What the relay relies on, in terms of four observations: the bytes a socket has received and
  not handed over, the bytes queued towards the guest, the bytes the host accepted, and the bytes
  the host has still to deliver. A socket that can receive shows a non-empty prefix of what it
  received; dequeuing, sending, writing and reading move the bytes they report and no others.
\<close>

definition sock_laws :: "'s sock_ops \<Rightarrow> ('s \<Rightarrow> bytes) \<Rightarrow> ('s \<Rightarrow> bytes) \<Rightarrow> bool" where
  "sock_laws so inq outq \<longleftrightarrow>
     (\<forall>s. can_recv so s \<longrightarrow> (\<exists>k. recv_buf so s = Some (take k (inq s)) \<and> take k (inq s) \<noteq> []))
     \<and> (\<forall>s k. k \<le> length (inq s) \<longrightarrow> inq (dequeue so s k) = drop k (inq s) \<and> outq (dequeue so s k) = outq s)
     \<and> (\<forall>s bs r s'. send_slice so s bs = (r, s') \<longrightarrow> inq s' = inq s
          \<and> (let k = (case r of Some k \<Rightarrow> k | None \<Rightarrow> 0) in k \<le> length bs \<and> outq s' = outq s @ take k bs))
     \<and> (\<forall>s. inq (close so s) = inq s \<and> outq (close so s) = outq s)"

definition stream_laws :: "'h stream_ops \<Rightarrow> ('h \<Rightarrow> bytes) \<Rightarrow> ('h \<Rightarrow> bytes) \<Rightarrow> bool" where
  "stream_laws ho written unread \<longleftrightarrow>
     (\<forall>h bs r h'. h_write ho h bs = (r, h') \<longrightarrow> unread h' = unread h
        \<and> (let k = (case r of Io_Ok k \<Rightarrow> k | _ \<Rightarrow> 0) in k \<le> length bs \<and> written h' = written h @ take k bs))
     \<and> (\<forall>h cap r h'. h_read ho h cap = (r, h') \<longrightarrow> written h' = written h
        \<and> (let bs = (case r of Io_Ok bs \<Rightarrow> bs | _ \<Rightarrow> []) in length bs \<le> cap \<and> unread h = bs @ unread h'))"

lemma sock_laws_recv:
  "sock_laws so inq outq \<Longrightarrow> can_recv so s \<Longrightarrow> \<exists>k. recv_buf so s = Some (take k (inq s)) \<and> take k (inq s) \<noteq> []"
  by (simp add: sock_laws_def)

lemma sock_laws_move:
  assumes "sock_laws so inq outq"
  shows "k \<le> length (inq s) \<Longrightarrow> inq (dequeue so s k) = drop k (inq s)"
    "k \<le> length (inq s) \<Longrightarrow> outq (dequeue so s k) = outq s"
    "inq (close so s) = inq s" "outq (close so s) = outq s"
  using assms by (simp_all add: sock_laws_def)

lemma sock_laws_send:
  "sock_laws so inq outq \<Longrightarrow> send_slice so s bs = (r, s') \<Longrightarrow>
   inq s' = inq s \<and> (case r of Some k \<Rightarrow> k | None \<Rightarrow> 0) \<le> length bs
   \<and> outq s' = outq s @ take (case r of Some k \<Rightarrow> k | None \<Rightarrow> 0) bs"
  unfolding sock_laws_def Let_def by metis

lemma stream_laws_write:
  "stream_laws ho written unread \<Longrightarrow> h_write ho h bs = (r, h') \<Longrightarrow>
   unread h' = unread h \<and> (case r of Io_Ok k \<Rightarrow> k | _ \<Rightarrow> 0) \<le> length bs
   \<and> written h' = written h @ take (case r of Io_Ok k \<Rightarrow> k | _ \<Rightarrow> 0) bs"
  unfolding stream_laws_def Let_def by metis

lemma stream_laws_read:
  "stream_laws ho written unread \<Longrightarrow> h_read ho h cap = (r, h') \<Longrightarrow>
   written h' = written h \<and> length (case r of Io_Ok bs \<Rightarrow> bs | _ \<Rightarrow> []) \<le> cap
   \<and> unread h = (case r of Io_Ok bs \<Rightarrow> bs | _ \<Rightarrow> []) @ unread h'"
  unfolding stream_laws_def Let_def by metis

text \<open>Spending from a budget, and what is left of it.\<close>

definition spent :: "u64 option \<Rightarrow> u64 option \<Rightarrow> nat \<Rightarrow> bool" where
  "spent b b' k = (case b of None \<Rightarrow> b' = None | Some x \<Rightarrow> (\<exists>y. b' = Some y \<and> unat y + k = unat x))"

lemma spent_0 [simp]: "spent b b 0"
  by (simp add: spent_def split: option.split)

lemma spent_trans: "spent b c k \<Longrightarrow> spent c d l \<Longrightarrow> spent b d (k + l)"
  by (auto simp: spent_def split: option.splits)

lemma spent_sub:
  "(case b of Some x \<Rightarrow> k \<le> unat x | None \<Rightarrow> True) \<Longrightarrow> spent b (map_option (\<lambda>x. sat_sub x (of_nat k)) b) k"
proof (cases b)
  case (Some x)
  assume "case b of Some x \<Rightarrow> k \<le> unat x | None \<Rightarrow> True"
  with Some have k: "k \<le> unat x" by simp
  moreover have "unat x < 2 ^ LENGTH(64)" by (rule unsigned_less)
  ultimately have "k < 2 ^ LENGTH(64)" by linarith
  then have "unat (of_nat k :: u64) = k" by (rule unat_of_nat_lt)
  with k Some show ?thesis by (simp add: spent_def unat_sat_sub)
qed (simp add: spent_def)

lemma relay_up_step:
  fixes b :: "u64 option"
  defines "cap \<equiv> (case b of Some x \<Rightarrow> unat x | None \<Rightarrow> 2 ^ 64 - 1)"
  assumes "can_recv so s" "b \<noteq> Some 0" "recv_buf so s = Some buf" "buf \<noteq> []"
    and "h_write ho h (take (min (length buf) cap) buf) = (r, h')"
  shows "relay_up so ho s h b =
     (case r of
        Io_Ok m \<Rightarrow> (if m = 0 then Some (close so (dequeue so s 0), h', b)
           else relay_up so ho (dequeue so s m) h' (map_option (\<lambda>b. sat_sub b (of_nat m)) b))
      | Would_Block \<Rightarrow> Some (dequeue so s 0, h', b)
      | Io_Err \<Rightarrow> Some (close so (dequeue so s 0), h', b))"
proof -
  have "0 < cap" using assms(3) by (cases b) (auto simp: cap_def unat_gt_0)
  then have n: "min (length buf) cap \<noteq> 0" using assms(5) by simp
  then show ?thesis
    using assms(2-4,6)
    by (subst relay_up.simps) (simp only: Let_def cap_def option.case if_False prod.case simp_thms)
qed

lemma relay_up_spec:
  assumes so: "sock_laws so inq outq" and ho: "stream_laws ho written unread"
  shows "\<exists>s' h' b' up. relay_up so ho s h b = Some (s', h', b') \<and> inq s = up @ inq s' \<and> outq s' = outq s
    \<and> written h' = written h @ up \<and> unread h' = unread h \<and> spent b b' (length up)"
proof (induction "length (inq s)" arbitrary: s h b rule: less_induct)
  case less
  note D = sock_laws_move [OF so]
  show ?case
  proof (cases "\<not> can_recv so s \<or> b = Some 0")
    case True
    then have "relay_up so ho s h b = Some (s, h, b)" by (simp add: relay_up.simps)
    then show ?thesis by simp
  next
    case False
    then have c: "can_recv so s" "b \<noteq> Some 0" by simp_all
    then obtain k where k: "recv_buf so s = Some (take k (inq s))" "take k (inq s) \<noteq> []"
      using sock_laws_recv [OF so] by blast
    let ?cap = "case b of Some x \<Rightarrow> unat x | None \<Rightarrow> 2 ^ 64 - 1"
    let ?n = "min (length (take k (inq s))) ?cap"
    have nl: "?n \<le> length (take k (inq s))" "?n \<le> ?cap"
      by (rule min.cobounded1, rule min.cobounded2)
    obtain r h' where w: "h_write ho h (take ?n (take k (inq s))) = (r, h')"
      by (cases "h_write ho h (take ?n (take k (inq s)))")
    note W = stream_laws_write [OF ho w]
    note E = relay_up_step [OF c k w]
    show ?thesis
    proof (cases r)
      case (Io_Ok m)
      show ?thesis
      proof (cases "m = 0")
        case True
        then show ?thesis using E W Io_Ok by (simp add: D)
      next
        case False
        have m: "m \<le> ?n" using W Io_Ok by simp
        then have mi: "m \<le> length (inq s)" "m \<le> length (take k (inq s))" using nl(1) by auto
        have wr: "written h' = written h @ take m (inq s)" "unread h' = unread h"
          using W Io_Ok m mi by (auto simp: min_def)
        have sp: "spent b (map_option (\<lambda>b. sat_sub b (of_nat m)) b) m"
          using m nl(2) by (intro spent_sub) (auto split: option.split)
        have q: "inq (dequeue so s m) = drop m (inq s)" "outq (dequeue so s m) = outq s" using D mi by auto
        with False mi have "length (inq (dequeue so s m)) < length (inq s)" by simp
        from less [OF this, of h' "map_option (\<lambda>b. sat_sub b (of_nat m)) b"] obtain s2 h2 b2 up where
          u: "relay_up so ho (dequeue so s m) h' (map_option (\<lambda>b. sat_sub b (of_nat m)) b) = Some (s2, h2, b2)"
            "inq (dequeue so s m) = up @ inq s2" "outq s2 = outq (dequeue so s m)"
            "written h2 = written h' @ up" "unread h2 = unread h'"
            "spent (map_option (\<lambda>b. sat_sub b (of_nat m)) b) b2 (length up)"
          by blast
        have "inq s = (take m (inq s) @ up) @ inq s2" using q u(2) by (metis append_assoc append_take_drop_id)
        moreover have "spent b b2 (length (take m (inq s) @ up))"
          using spent_trans [OF sp u(6)] mi by (simp add: min_absorb2)
        ultimately show ?thesis
          using E Io_Ok False u wr q
          by (intro exI [of _ s2] exI [of _ h2] exI [of _ b2] exI [of _ "take m (inq s) @ up"] conjI)
            (simp_all only: io.case if_False append_assoc)
      qed
    next
      case Would_Block
      then show ?thesis using E W by (simp add: D)
    next
      case Io_Err
      then show ?thesis using E W by (simp add: D)
    qed
  qed
qed

lemma relay_down_step:
  fixes b :: "u64 option" and q :: "nat option"
  defines "cap \<equiv> (case b of Some x \<Rightarrow> min (unat x) HOST_READ_CHUNK | None \<Rightarrow> HOST_READ_CHUNK)"
    and "k \<equiv> (case q of Some k \<Rightarrow> k | None \<Rightarrow> 0)"
  assumes "\<not> (p \<noteq> [] \<or> e \<or> \<not> can_send so s)" "cap \<noteq> 0" "h_read ho h cap = (Io_Ok buf, h')" "buf \<noteq> []"
    and "send_slice so s buf = (q, s')"
  shows "relay_down so ho s h p e b =
     (let p' = (if k < length buf then p @ drop k buf else p);
          b' = map_option (\<lambda>b. sat_sub b (of_nat (length buf))) b
      in if length buf < cap then Some (s', h', p', e, b') else relay_down so ho s' h' p' e b')"
proof -
  have g: "(p \<noteq> [] \<or> e \<or> \<not> can_send so s) = False" "(cap = 0) = False" "(buf = []) = False"
    using assms(3,4,6) by blast+
  show ?thesis
    using assms(5,7) g(2)
    by (subst relay_down.simps) (simp only: Let_def g(1,3) if_False io.case prod.case cap_def k_def)
qed

lemma relay_down_spec:
  assumes so: "sock_laws so inq outq" and ho: "stream_laws ho written unread"
  shows "\<exists>s' h' p' e' b'. relay_down so ho s h p e b = Some (s', h', p', e', b') \<and> inq s' = inq s
    \<and> written h' = written h \<and> outq s' @ p' @ unread h' = outq s @ p @ unread h
    \<and> length (unread h') \<le> length (unread h) \<and> spent b b' (length (unread h) - length (unread h'))"
proof (induction "length (unread h)" arbitrary: s h p e b rule: less_induct)
  case less
  note R = relay_down.simps [of so ho s h p e b]
  let ?cap = "case b of Some x \<Rightarrow> min (unat x) HOST_READ_CHUNK | None \<Rightarrow> HOST_READ_CHUNK"
  show ?case
  proof (cases "p \<noteq> [] \<or> e \<or> \<not> can_send so s \<or> ?cap = 0")
    case True
    then have "relay_down so ho s h p e b = Some (s, h, p, e, b)" by (subst R) (auto simp: Let_def)
    then show ?thesis by simp
  next
    case False
    obtain r h' where rd: "h_read ho h ?cap = (r, h')" by (cases "h_read ho h ?cap")
    note L = stream_laws_read [OF ho rd]
    show ?thesis
    proof (cases r)
      case (Io_Ok buf)
      have l: "unread h = buf @ unread h'" "written h' = written h" "length buf \<le> ?cap" using L Io_Ok by auto
      show ?thesis
      proof (cases "buf = []")
        case True
        then have "relay_down so ho s h p e b = Some (s, h', p, True, b)"
          using False rd Io_Ok by (subst R) (auto simp: Let_def)
        with True l show ?thesis by (simp, blast)
      next
        case nonempty: False
        obtain q s' where sd: "send_slice so s buf = (q, s')" by (cases "send_slice so s buf")
        let ?k = "case q of Some k \<Rightarrow> k | None \<Rightarrow> 0"
        let ?p = "if ?k < length buf then p @ drop ?k buf else p"
        let ?b = "map_option (\<lambda>b. sat_sub b (of_nat (length buf))) b"
        note S = sock_laws_send [OF so sd]
        have p: "p = []" using False by simp
        have mv: "outq s' @ ?p @ unread h' = outq s @ p @ unread h"
          using S l(1) p by (cases "?k < length buf") simp_all
        have sp: "spent b ?b (length buf)"
          using l(3) by (intro spent_sub) (auto split: option.splits)
        have E: "relay_down so ho s h p e b =
            (if length buf < ?cap then Some (s', h', ?p, e, ?b) else relay_down so ho s' h' ?p e ?b)"
          using relay_down_step [where p = p and e = e and h = h and b = b and ho = ho, OF _ _ _ nonempty sd] False rd Io_Ok
          unfolding Let_def by blast
        show ?thesis
        proof (cases "length buf < ?cap")
          case True
          then have "relay_down so ho s h p e b = Some (s', h', ?p, e, ?b)" using E by simp
          then show ?thesis using mv sp l S by simp
        next
          case False
          have "length (unread h') < length (unread h)" using l(1) nonempty by simp
          from less [OF this, of s' ?p e ?b] obtain s2 h2 p2 e2 b2 where
            u: "relay_down so ho s' h' ?p e ?b = Some (s2, h2, p2, e2, b2)" "inq s2 = inq s'"
              "written h2 = written h'" "outq s2 @ p2 @ unread h2 = outq s' @ ?p @ unread h'"
              "length (unread h2) \<le> length (unread h')"
              "spent ?b b2 (length (unread h') - length (unread h2))"
            by blast
          have "spent b b2 (length (unread h) - length (unread h2))"
            using spent_trans [OF sp u(6)] l(1) u(5) by simp
          moreover have "relay_down so ho s h p e b = Some (s2, h2, p2, e2, b2)" using E False u(1) by simp
          ultimately show ?thesis using u mv l S by simp
        qed
      qed
    next
      case Would_Block
      then have "relay_down so ho s h p e b = Some (s, h', p, e, b)"
        using False rd by (subst R) (auto simp: Let_def)
      with L Would_Block show ?thesis by simp
    next
      case Io_Err
      then have "relay_down so ho s h p e b = Some (s, h', p, True, b)"
        using False rd by (subst R) (auto simp: Let_def)
      with L Io_Err show ?thesis by (simp, blast)
    qed
  qed
qed

lemma flush_spec:
  assumes "sock_laws so inq outq" "flush_pending so s p = (s', p')"
  shows "inq s' = inq s \<and> outq s' @ p' = outq s @ p"
proof (cases "p = []")
  case False
  obtain r t where "send_slice so s p = (r, t)" by (cases "send_slice so s p")
  with False assms(2) sock_laws_send [OF assms(1) this] show ?thesis
    by (auto simp: flush_pending_def)
qed (use assms(2) in \<open>simp add: flush_pending_def\<close>)

lemma relay_spec:
  assumes so: "sock_laws so inq outq" and ho: "stream_laws ho written unread"
  shows "\<exists>fin s' h' p' e' b' up. relay so ho s (Relaying h p e) b = Some (fin, s', Relaying h' p' e', b')
    \<and> inq s = up @ inq s' \<and> written h' = written h @ up
    \<and> outq s' @ p' @ unread h' = outq s @ p @ unread h
    \<and> spent b b' (length up + (length (unread h) - length (unread h')))"
proof -
  obtain s1 h1 b1 up where u: "relay_up so ho s h b = Some (s1, h1, b1)" "inq s = up @ inq s1"
    "outq s1 = outq s" "written h1 = written h @ up" "unread h1 = unread h" "spent b b1 (length up)"
    using relay_up_spec [OF so ho, of s h b] by blast
  obtain s2 p2 where f: "flush_pending so s1 p = (s2, p2)" by (cases "flush_pending so s1 p")
  obtain s3 h3 p3 e3 b3 where d: "relay_down so ho s2 h1 p2 e b1 = Some (s3, h3, p3, e3, b3)"
    "inq s3 = inq s2" "written h3 = written h1" "outq s3 @ p3 @ unread h3 = outq s2 @ p2 @ unread h1"
    "spent b1 b3 (length (unread h1) - length (unread h3))"
    using relay_down_spec [OF so ho, of s2 h1 p2 e b1] by blast
  let ?s = "if e3 \<and> p3 = [] then close so s3 else s3"
  have c: "inq ?s = inq s3" "outq ?s = outq s3" using sock_laws_move [OF so] by simp_all
  have "relay so ho s (Relaying h p e) b = Some (\<not> is_open so ?s \<and> p3 = [], ?s, Relaying h3 p3 e3, b3)"
    by (simp add: relay_def u(1) f d(1) Let_def)
  moreover have "outq ?s @ p3 @ unread h3 = outq s @ p @ unread h"
    using c d(4) flush_spec [OF so f] u(3,5) by (metis append_assoc)
  moreover have "spent b b3 (length up + (length (unread h) - length (unread h3)))"
    using spent_trans [OF u(6) d(5)] u(5) by simp
  ultimately show ?thesis using c u d flush_spec [OF so f] by metis
qed

subsection \<open>Reachable states\<close>

lemma parse_syn_Done: "\<exists>r. parse_tcp_syn_dst frame = Done r"
proof (cases "length frame < 34")
  case True
  then show ?thesis by (simp add: parse_tcp_syn_dst_def)
next
  case False
  then have i: "be16_at frame 12 = Done (be16 (frame ! 12) (frame ! Suc 12))"
    "\<And>k. k < 20 \<Longrightarrow> index (drop 14 frame) k = Done (drop 14 frame ! k)"
    using be16_at_Done [of 12 frame] by (auto simp: index_def)
  have t: "be16_at (drop l (drop 14 frame)) 2 = Done (be16 (drop l (drop 14 frame) ! 2) (drop l (drop 14 frame) ! Suc 2))"
    "index (drop l (drop 14 frame)) 13 = Done (drop l (drop 14 frame) ! 13)"
    if "\<not> length (drop 14 frame) < l + 20" for l
    using that be16_at_Done [of 2 "drop l (drop 14 frame)"] by (auto simp: index_def simp del: drop_drop)
  show ?thesis
    using False i t by (auto simp: parse_tcp_syn_dst_def Let_def simp del: drop_drop)
qed

lemma resolve_core: "same_core n (snd (resolve resolver now n q))"
  by (auto simp: resolve_def same_core_def Let_def split: option.split)

lemma service_dns_core:
  "service_dns resolver now n msgs = Done (replies, m) \<Longrightarrow> same_core n m"
proof (induction msgs arbitrary: n replies)
  case Nil
  then show ?case by (simp add: same_core_def)
next
  case (Cons x rest)
  obtain msg meta where x: "x = (msg, meta)" by (cases x)
  obtain p where p: "parse_query msg = Done p" using parse_query_Done by blast
  show ?case
  proof (cases p)
    case None
    with Cons x p show ?thesis by simp
  next
    case (Some q)
    obtain oc n1 where r: "resolve resolver now n q = (oc, n1)" by (cases "resolve resolver now n q")
    then have c: "same_core n n1" using resolve_core [of n resolver now q] by simp
    obtain rs where "service_dns resolver now n1 rest = Done (rs, m)"
      using Cons(2) x p Some r by (auto simp: obind_def split: outcome.splits)
    from same_core_trans [OF c Cons(1) [OF this]] show ?thesis .
  qed
qed

lemma nat_poll_core: "same_core n (nat_poll po n)"
  by (simp add: nat_poll_def same_core_def split: prod.split)

lemma nat_service_ok:
  assumes n: "nat_ok n" and ord: "\<And>xs. mset (order xs) = mset xs"
    and s: "nat_service ops so ho po resolver waiting order now budget n = Some (Done (out, b, m))"
  shows "nat_ok m"
proof -
  obtain msgs st where d: "dns_recv po (sockets (nat_poll po n)) = (msgs, st)"
    by (cases "dns_recv po (sockets (nat_poll po n))")
  let ?n1 = "(nat_poll po n)\<lparr>sockets := st\<rparr>"
  obtain replies n2 where r: "service_dns resolver now ?n1 msgs = Done (replies, n2)"
    using s d by (auto simp: nat_service_def Let_def split: outcome.splits)
  let ?n3 = "n2\<lparr>sockets := foldl (dns_send po) (sockets n2) replies\<rparr>"
  let ?n4 = "promote_listeners ops order now (accept_ingress ops waiting ?n3)"
  obtain b' n5 where f: "service_flows ops so ho budget ?n4 = Some (b', n5)"
    and m: "m = (nat_poll po n5)\<lparr>device := (device (nat_poll po n5))\<lparr>to_guest := []\<rparr>\<rparr>"
    using s d r by (auto simp: nat_service_def Let_def bind_eq_Some_conv)
  have "same_core n ?n1" using nat_poll_core [of n po] by (simp add: same_core_def)
  from same_core_trans [OF this service_dns_core [OF r]] have "same_core n ?n3" by (simp add: same_core_def)
  from same_core_ok [OF this n] have "nat_ok ?n4"
    by (intro promote_listeners_ok accept_ingress_ok ord)
  from service_flows_ok [OF this f] have "nat_ok n5" .
  moreover have "same_core n5 m" using nat_poll_core [of n5 po] by (simp add: m same_core_def)
  ultimately show ?thesis by (blast intro: same_core_ok)
qed

text \<open>Everything that happens to a responder, in any order.\<close>

inductive nat_reach ::
  "('st, 's, 'rx, 'h) stack_ops \<Rightarrow> 's sock_ops \<Rightarrow> 'h stream_ops \<Rightarrow> ('st, 'm) poll_ops \<Rightarrow> nat_limits
   \<Rightarrow> ('st, 'rx, 'h, 'l) nat_state \<Rightarrow> bool" for ops so ho po lim where
  new: "nat_reach ops so ho po lim (nat_new st gw p lim)"
| intercepts: "nat_reach ops so ho po lim n \<Longrightarrow> nat_reach ops so ho po lim (set_intercept n d)"
| drains: "nat_reach ops so ho po lim n \<Longrightarrow> nat_reach ops so ho po lim (snd (drain_events n))"
| amends: "nat_reach ops so ho po lim n \<Longrightarrow> nat_reach ops so ho po lim (snd (amend_policy n a))"
| exposes: "nat_reach ops so ho po lim n \<Longrightarrow> nat_reach ops so ho po lim (snd (expose n guest (bound :: rstr + 'l \<times> u16)))"
| accepts: "nat_reach ops so ho po lim n \<Longrightarrow> nat_accept ops now n frame = Done m \<Longrightarrow> nat_reach ops so ho po lim m"
| services: "nat_reach ops so ho po lim n \<Longrightarrow> (\<And>xs. mset (order xs) = mset xs) \<Longrightarrow>
    nat_service ops so ho po resolver waiting order now budget n = Some (Done (out, b, m)) \<Longrightarrow>
    nat_reach ops so ho po lim m"

lemma nat_accept_ok:
  assumes "nat_ok n" "nat_accept ops now n frame = Done m"
  shows "nat_ok m"
proof -
  obtain d where d: "parse_tcp_syn_dst frame = Done d" using parse_syn_Done by blast
  let ?n = "case d of Some dst \<Rightarrow> snd (admit_syn ops now n dst) | None \<Rightarrow> n"
  have "nat_ok ?n" using assms(1) admit_syn_ok by (cases d) auto
  moreover have "m = ?n\<lparr>device := push_from_guest (device ?n) frame\<rparr>"
    using assms(2) d by (simp add: nat_accept_def Let_def)
  ultimately show ?thesis by (auto intro!: same_core_ok [of ?n] simp: same_core_def)
qed

lemma nat_reach_ok: "nat_reach ops so ho po lim n \<Longrightarrow> nat_ok n"
proof (induction rule: nat_reach.induct)
  case (new st gw p)
  show ?case by (rule nat_new_ok)
next
  case (intercepts n d)
  then show ?case by (auto intro!: same_core_ok [of n] simp: same_core_def set_intercept_def)
next
  case (drains n)
  then show ?case by (auto intro!: same_core_ok [of n] simp: same_core_def drain_events_def)
next
  case (amends n a)
  then show ?case by (auto intro!: same_core_ok [of n] simp: same_core_def amend_policy_def Let_def split: prod.split)
next
  case (exposes n guest bound)
  have "same_core n (snd (expose n guest bound))"
    by (auto simp: same_core_def expose_def split: option.split sum.split)
  with exposes show ?case by (blast intro: same_core_ok)
next
  case (accepts n now frame m)
  then show ?case by (blast intro: nat_accept_ok)
next
  case (services n order resolver waiting now budget out b m)
  then show ?case by (blast intro: nat_service_ok)
qed

subsection \<open>Properties\<close>

text \<open>A stack for examples: sockets are pairs of byte queues, handles count up, nothing fails.\<close>

definition demo_sock :: "(bytes \<times> bytes) sock_ops" where
  "demo_sock = \<lparr>can_recv = (\<lambda>s. fst s \<noteq> []), recv_buf = (\<lambda>s. Some (fst s)),
     dequeue = (\<lambda>s k. (drop k (fst s), snd s)), can_send = (\<lambda>s. True),
     send_slice = (\<lambda>s bs. (Some (length bs), (fst s, snd s @ bs))), close = (\<lambda>s. s), abort = (\<lambda>s. s),
     is_open = (\<lambda>s. True), is_active = (\<lambda>s. True), established = (\<lambda>s. True)\<rparr>"

definition demo_stream :: "(bytes \<times> bytes) stream_ops" where
  "demo_stream = \<lparr>h_write = (\<lambda>h bs. (Io_Ok (length bs), (fst h @ bs, snd h))),
     h_read = (\<lambda>h cap. if snd h = [] then (Would_Block, h)
       else (Io_Ok (take cap (snd h)), (fst h, drop cap (snd h))))\<rparr>"

definition demo_ops :: "(nat, bytes \<times> bytes, unit, bytes \<times> bytes) stack_ops" where
  "demo_ops = \<lparr>add_sock = (\<lambda>st. (st, st + 1)), listen_sock = (\<lambda>st d. Some (st, st + 1)),
     connect_sock = (\<lambda>st h d p. Some st), remove_sock = (\<lambda>st h. st), accepted_sock = (\<lambda>st h. True),
     get_sock = (\<lambda>st h. ([], [])), put_sock = (\<lambda>st h s. st), has_timeout = (\<lambda>s. False),
     clear_timeout = (\<lambda>s. s), start_connect = (\<lambda>t. ()), try_recv = (\<lambda>r. (Empty, r)),
     stream_nonblocking = (\<lambda>h. True)\<rparr>"

definition demo_nat :: "egress_policy \<Rightarrow> (nat, unit, bytes \<times> bytes, unit) nat_state" where
  "demo_nat p = nat_new 0 (192, 168, 249, 1) p \<lparr>max_connections = Some 1, max_bytes_per_sec = None\<rparr>"

text \<open>
  C36. The state of the NAT stays consistent. In every state a responder can reach, through frames,
  service passes, amendments and exposures in any order and with any stack, a destination has at
  most one armed listener, the inbound flows use pairwise different source ports of the dynamic
  range which are exactly the ones booked, and flows and listeners together never exceed the
  connection cap.
\<close>

theorem nat_invariant: "nat_reach ops so ho po lim n \<Longrightarrow> nat_ok n"
  by (rule nat_reach_ok)

theorem nat_invariant_witness:
  "nat_ok (snd (amend_policy (demo_nat allow_all) (Amend_Deny (lit ''a.b''))))"
proof -
  let ?po = "\<lparr>poll = (\<lambda>x. x), dns_recv = (\<lambda>st. ([] :: (bytes \<times> unit) list, st)), dns_send = (\<lambda>st m. st)\<rparr>"
  have "nat_reach demo_ops demo_sock demo_stream ?po \<lparr>max_connections = Some 1, max_bytes_per_sec = None\<rparr>
      (demo_nat allow_all)"
    unfolding demo_nat_def by (rule nat_reach.new)
  from nat_invariant [OF nat_reach.amends [OF this]] show ?thesis .
qed

text \<open>
  C37. The relay loses, duplicates and reorders nothing, and ends. For any socket and stream that
  keep their contracts a relay pass returns; the bytes it took from the guest are the next ones
  received and the host got exactly those; what is queued for the guest, held back and still
  unread at the host is, in this order, the same stream as before; and the bytes moved in both
  directions together are what left the budget.
\<close>

theorem relay_conserves:
  assumes "sock_laws so inq outq" "stream_laws ho written unread"
  shows "\<exists>fin s' h' pend' eof' b' up.
    relay so ho s (Relaying h pend eof) budget = Some (fin, s', Relaying h' pend' eof', b')
    \<and> inq s = up @ inq s' \<and> written h' = written h @ up
    \<and> outq s' @ pend' @ unread h' = outq s @ pend @ unread h
    \<and> (case budget of
         None \<Rightarrow> b' = None
       | Some x \<Rightarrow> (\<exists>y. b' = Some y
           \<and> unat y + (length up + (length (unread h) - length (unread h'))) = unat x))"
  using relay_spec [OF assms, of s h pend eof budget] unfolding spent_def by blast

lemma demo_laws: "sock_laws demo_sock fst snd" "stream_laws demo_stream fst snd"
proof -
  have "\<exists>k. recv_buf demo_sock s = Some (take k (fst s)) \<and> take k (fst s) \<noteq> []" if "can_recv demo_sock s" for s
    using that by (intro exI [of _ "length (fst s)"]) (simp add: demo_sock_def)
  then show "sock_laws demo_sock fst snd"
    unfolding sock_laws_def by (auto simp: demo_sock_def)
  show "stream_laws demo_stream fst snd"
    by (auto simp: stream_laws_def demo_stream_def Let_def split: if_splits)
qed

theorem relay_conserves_witness:
  "\<exists>fin s' h' pend' eof' b' up.
    relay demo_sock demo_stream ([1, 2, 3], []) (Relaying ([], [7, 8]) [6] False :: (unit, _) host_side) (Some 4)
      = Some (fin, s', Relaying h' pend' eof', b')
    \<and> fst ([1, 2, 3], [] :: bytes) = up @ fst s' \<and> fst h' = fst ([], [7, 8] :: bytes) @ up
    \<and> snd s' @ pend' @ snd h' = snd ([1, 2, 3] :: bytes, []) @ [6] @ snd ([] :: bytes, [7, 8])
    \<and> (case (Some 4 :: u64 option) of
         None \<Rightarrow> b' = None
       | Some x \<Rightarrow> (\<exists>y. b' = Some y \<and> unat y
           + (length up + (length (snd ([] :: bytes, [7, 8] :: bytes)) - length (snd h'))) = unat x))"
  by (rule relay_conserves [OF demo_laws])

text \<open>
  C38. A SYN is judged before the stack sees it. Only a destination the policy admits is answered
  with success or armed, nothing but the destination is armed, never past the connection cap, and
  the trail gains an entry for the destination with the verdict and the label of the policy that
  gave it.
\<close>

theorem admit_syn_enforces:
  "let r = admit_syn ops now n dst; ok = is_allow (decide_connect (policy n) now (fst dst) (snd dst)) in
   (fst r \<longrightarrow> ok)
   \<and> (\<forall>d h. (d, h) \<in> set (listeners (snd r)) - set (listeners n) \<longrightarrow> d = dst \<and> ok \<and> \<not> over_cap n)
   \<and> (\<exists>e rest. events (snd r) = events n @ e # rest \<and> domain e = lit ''tcp'' \<and> target e = show_addr dst
        \<and> ev_allowed e = ok \<and> ev_policy e = p_label (policy n))"
proof -
  have a: "fst (admit_syn ops now n dst) \<longrightarrow> is_allow (decide_connect (policy n) now (fst dst) (snd dst))"
    by (auto simp: admit_syn_def Let_def split: if_splits)
  have b: "d = dst \<and> is_allow (decide_connect (policy n) now (fst dst) (snd dst)) \<and> \<not> over_cap n"
    if "(d, h) \<in> set (listeners (snd (admit_syn ops now n dst))) - set (listeners n)" for d h
    using admit_syn_cases [of n ops now dst] that by (auto simp: same_core_def)
  have c: "\<exists>e rest. events (snd (admit_syn ops now n dst)) = events n @ e # rest \<and> domain e = lit ''tcp''
      \<and> target e = show_addr dst \<and> ev_allowed e = is_allow (decide_connect (policy n) now (fst dst) (snd dst))
      \<and> ev_policy e = p_label (policy n)"
    by (auto simp: admit_syn_def Let_def push_event_def split: option.split)
  show ?thesis using a b c unfolding Let_def by blast
qed

theorem admit_syn_enforces_witness:
  "\<not> fst (admit_syn demo_ops 0 (demo_nat allow_all) ((127, 0, 0, 1), 80))"
proof -
  have "\<not> is_allow (decide_connect (policy (demo_nat allow_all)) 0 (127, 0, 0, 1) 80)"
    by (simp add: decide_connect_iff demo_nat_def nat_new_def allow_all_def is_reserved_egress_ip_def
        is_loopback_def Let_def)
  with admit_syn_enforces [of demo_ops 0 "demo_nat allow_all" "((127, 0, 0, 1), 80)"] show ?thesis
    by (simp add: Let_def)
qed

lemma dropWhile_map_keep: "(\<And>x. P (f x) = P x) \<Longrightarrow> dropWhile P (map f xs) = map f (dropWhile P xs)"
  by (induction xs) auto

lemma normal_host_lower: "normal_host (to_ascii_lowercase h) = normal_host h"
proof -
  have w: "is_whitespace (ascii_lower c) = is_whitespace c" for c
    by (auto simp: is_whitespace_def ascii_lower_def)
  have d: "(ascii_lower c = 46) = (c = 46)" for c by (auto simp: ascii_lower_def)
  have i: "ascii_lower (ascii_lower c) = ascii_lower c" for c by (simp add: ascii_lower_def)
  show ?thesis
    by (simp add: normal_host_def trim_def trim_end_by_def trim_end_matches_def to_ascii_lowercase_def
        rev_map dropWhile_map_keep w d i comp_def)
qed

lemma matches_host_lower: "matches_host m (to_ascii_lowercase h) = matches_host m h"
  by (simp add: matches_host_def normal_host_lower)

lemma record_all:
  fixes p :: egress_policy
  shows "ip \<in> set ips \<Longrightarrow>
    entries (p_cache (foldl (\<lambda>p ip. record_resolution p now name ip) p ips)) ip = Some (to_ascii_lowercase name, now)"
    and "ttl (p_cache (foldl (\<lambda>p ip. record_resolution p now name ip) p ips)) = ttl (p_cache p)
     \<and> p_allow (foldl (\<lambda>p ip. record_resolution p now name ip) p ips) = p_allow p
     \<and> p_deny (foldl (\<lambda>p ip. record_resolution p now name ip) p ips) = p_deny p
     \<and> default_allow (foldl (\<lambda>p ip. record_resolution p now name ip) p ips) = default_allow p
     \<and> allow_local_egress (foldl (\<lambda>p ip. record_resolution p now name ip) p ips) = allow_local_egress p"
  by (induction ips arbitrary: p rule: rev_induct)
    (auto simp: record_resolution_def cache_record_def)

lemma resolve_answers:
  assumes "resolve resolver now n q = (Answers as, m)"
  shows "is_allow (decide_dns (policy n) (q_name q))"
    "\<exists>ips. resolver (q_name q) = Some ips
       \<and> as = filter (\<lambda>ip. allow_local_egress (policy n) \<or> \<not> is_reserved_egress_ip ip) ips"
    "policy m = foldl (\<lambda>p ip. record_resolution p now (q_name q) ip) (policy n) as"
  using assms by (auto simp: resolve_def Let_def split: if_splits option.splits)

text \<open>
  C39. A resolved name can be dialled, and only outside the reserved ranges. When a query is
  answered, each address came from the host's resolver and is not reserved unless local egress was
  opted in; the address is judged under the queried name for as long as the cache keeps it; and a
  connect to it is admitted on every port the allow rules leave open, unless a deny rule names the
  address itself.
\<close>

theorem resolved_then_admitted:
  assumes "resolve resolver now n q = (Answers as, m)" "ip \<in> set as"
    and "case ttl (p_cache (policy n)) of None \<Rightarrow> True | Some t \<Rightarrow> later - now \<le> t"
    and "\<forall>r \<in> set (p_deny (policy n)). r_host r \<noteq> Ip ip"
    and "\<forall>r \<in> set (p_allow (policy n)). port_matches r port"
  shows "(\<exists>ips. resolver (q_name q) = Some ips \<and> ip \<in> set ips)
    \<and> (allow_local_egress (policy n) \<or> \<not> is_reserved_egress_ip ip)
    \<and> resolved_host (policy m) later ip = Some (to_ascii_lowercase (q_name q))
    \<and> is_allow (decide_connect (policy m) later ip port)"
proof -
  note R = resolve_answers [OF assms(1)]
  have f: "(\<exists>ips. resolver (q_name q) = Some ips \<and> ip \<in> set ips)"
    "allow_local_egress (policy n) \<or> \<not> is_reserved_egress_ip ip"
    using R(2) assms(2) by auto
  have e: "entries (p_cache (policy m)) ip = Some (to_ascii_lowercase (q_name q), now)"
    using record_all(1) [OF assms(2)] by (simp add: R(3))
  have p: "ttl (p_cache (policy m)) = ttl (p_cache (policy n))" "p_allow (policy m) = p_allow (policy n)"
    "p_deny (policy m) = p_deny (policy n)" "default_allow (policy m) = default_allow (policy n)"
    "allow_local_egress (policy m) = allow_local_egress (policy n)"
    using record_all(2) [where ips = as and p = "policy n" and now = now and name = "q_name q"]
    by (simp_all add: R(3))
  have h: "resolved_host (policy m) later ip = Some (to_ascii_lowercase (q_name q))"
    using assms(3) by (auto simp: resolved_host_def cache_lookup_def e p split: option.splits)
  let ?hit = "rule_hits (Some (to_ascii_lowercase (q_name q))) ip port"
  have deny: "\<not> ?hit r" if r: "r \<in> set (p_deny (policy n))" for r
  proof -
    have "\<not> matches_host (r_host r) (q_name q)" using R(1) r by (auto simp: decide_dns_iff)
    then show ?thesis using assms(4) r
      by (cases "r_host r") (auto simp: rule_hits_def matches_ip_def matches_host_def normal_host_lower Let_def)
  qed
  have "default_allow (policy n) \<or> (\<exists>r \<in> set (p_allow (policy n)). ?hit r)"
    using R(1) assms(5) by (auto simp: decide_dns_iff rule_hits_def matches_host_lower)
  then have "is_allow (decide_connect (policy m) later ip port)"
    using deny f(2) by (auto simp: decide_connect_iff h p Let_def)
  with f h show ?thesis by blast
qed

theorem resolved_then_admitted_witness:
  "is_allow (decide_connect (policy (snd (resolve (\<lambda>name. Some [(10, 0, 0, 1), (8, 8, 4, 4)]) 5 (demo_nat allow_all)
     \<lparr>q_id = 1, recursion_desired = True, q_name = lit ''a.b'', qtype = 1, qclass = 1\<rparr>))) 9 (8, 8, 4, 4) 443)"
proof -
  let ?q = "\<lparr>q_id = 1, recursion_desired = True, q_name = lit ''a.b'', qtype = 1, qclass = 1\<rparr>"
  let ?res = "\<lambda>name :: rstr. Some [(10, 0, 0, 1), (8, 8, 4, 4) :: ipv4]"
  have a: "allow_local_egress (policy (demo_nat allow_all)) = False" "p_deny (policy (demo_nat allow_all)) = []"
    "p_allow (policy (demo_nat allow_all)) = []" "ttl (p_cache (policy (demo_nat allow_all))) = None"
    "is_allow (decide_dns (policy (demo_nat allow_all)) (lit ''a.b''))"
    by (simp_all add: demo_nat_def nat_new_def allow_all_def decide_dns_iff)
  have g: "is_reserved_egress_ip (10, 0, 0, 1)" "\<not> is_reserved_egress_ip (8, 8, 4, 4)"
    by (simp_all add: is_reserved_egress_ip_def is_private_def is_loopback_def is_link_local_def
        is_multicast_def is_documentation_def)
  obtain m where r: "resolve ?res 5 (demo_nat allow_all) ?q = (Answers [(8, 8, 4, 4)], m)"
    using a g by (simp add: resolve_def QTYPE_A_def QTYPE_AAAA_def Let_def)
  show ?thesis using resolved_then_admitted [OF r, of "(8, 8, 4, 4)" 9 443] a r by simp
qed

lemma admit_syn_denied:
  "\<not> is_allow (decide_connect (policy n) now (fst dst) (snd dst)) \<Longrightarrow>
   \<not> fst (admit_syn ops now n dst) \<and> listeners (snd (admit_syn ops now n dst)) = listeners n"
  by (simp add: admit_syn_def Let_def)

text \<open>
  A denied destination can keep an armed listener. When a SYN to a public address has armed a
  listener and the address is then denied by a live amendment, the retransmitted SYN is refused
  and recorded as such, and the listener the stack would accept it on is still there.
\<close>

theorem denied_listener_stays:
  assumes "\<not> is_reserved_egress_ip ip" "listen_sock ops st (ip, port) = Some (h, st')"
  shows "let n0 = nat_new st gw allow_all \<lparr>max_connections = None, max_bytes_per_sec = None\<rparr>;
             n1 = snd (admit_syn ops t n0 (ip, port));
             n2 = snd (amend_policy n1 (Amend_Deny (show_ipv4 ip)));
             r = admit_syn ops t' n2 (ip, port)
         in \<not> fst r \<and> map_of (listeners (snd r)) (ip, port) = Some h"
proof -
  let ?n0 = "nat_new st gw allow_all \<lparr>max_connections = None, max_bytes_per_sec = None\<rparr>"
  let ?n1 = "snd (admit_syn ops t ?n0 (ip, port))"
  let ?n2 = "snd (amend_policy ?n1 (Amend_Deny (show_ipv4 ip)))"
  have "is_allow (decide_connect (policy ?n0) t ip port)"
    using assms(1) by (simp add: decide_connect_iff nat_new_def allow_all_def Let_def)
  then have n1: "listeners ?n1 = [((ip, port), h)]" "policy ?n1 = allow_all"
    using assms(2) by (simp_all add: admit_syn_def nat_new_def push_event_def over_cap_def Let_def)
  then have l: "listeners ?n2 = [((ip, port), h)]"
    by (simp add: amend_policy_def Let_def split: prod.split)
  have pn: "policy ?n2 = fst (amend allow_all (Amend_Deny (show_ipv4 ip)))"
    by (simp add: amend_policy_def Let_def case_prod_unfold n1(2))
  have d: "\<not> is_allow (decide_connect (policy ?n2) t' (fst (ip, port)) (snd (ip, port)))"
    by (simp add: pn decide_connect_iff amend_deny_rules rule_parse_ip rule_hits_def port_matches_def
        matches_ip_def Let_def)
  show ?thesis unfolding Let_def by (simp add: admit_syn_denied [OF d] l)
qed

theorem denied_listener_stays_witness:
  "\<not> fst (admit_syn demo_ops 2 (snd (amend_policy (snd (admit_syn demo_ops 1
      (nat_new 0 (192, 168, 249, 1) allow_all \<lparr>max_connections = None, max_bytes_per_sec = None\<rparr>
        :: (nat, unit, bytes \<times> bytes, unit) nat_state)
      ((8, 8, 8, 8), 53))) (Amend_Deny (show_ipv4 (8, 8, 8, 8))))) ((8, 8, 8, 8), 53))"
proof -
  have r: "\<not> is_reserved_egress_ip (8, 8, 8, 8)"
    by (simp add: is_reserved_egress_ip_def is_private_def is_loopback_def is_link_local_def
        is_multicast_def is_documentation_def)
  have "listen_sock demo_ops 0 ((8, 8, 8, 8), 53) = Some (0, 1)" by (simp add: demo_ops_def)
  then show ?thesis by (rule conjunct1 [OF denied_listener_stays [unfolded Let_def, OF r]])
qed

text \<open>
  C40. Nothing the guest transmits panics the NAT. Every frame is accepted, whatever its bytes,
  and every batch of datagrams to the DNS port is served to its end.
\<close>

theorem guest_input_no_panic:
  "(\<exists>m. nat_accept ops now n frame = Done m) \<and> (\<exists>r. service_dns resolver now n msgs = Done r)"
proof
  show "\<exists>m. nat_accept ops now n frame = Done m"
    using parse_syn_Done [of frame] by (auto simp: nat_accept_def Let_def)
  show "\<exists>r. service_dns resolver now n msgs = Done r"
  proof (induction msgs arbitrary: n)
    case (Cons x rest)
    obtain msg meta where x: "x = (msg, meta)" by (cases x)
    obtain p where p: "parse_query msg = Done p" using parse_query_Done by blast
    show ?case
    proof (cases p)
      case None
      with Cons x p show ?thesis by simp
    next
      case (Some q)
      obtain oc n1 where "resolve resolver now n q = (oc, n1)" by (cases "resolve resolver now n q")
      with Cons [of n1] x p Some show ?thesis by auto
    qed
  qed simp
qed

end
