(* ===== verification/Spec2Isabelle.thy ===== *)
theory Spec2Isabelle
  imports Pci Gic_Translate Its Nat_Responder
begin

text \<open>
  Verification of the device model and state translation of a virtual machine monitor that resumes
  cloud arm64 snapshots on a Mac (\<^verbatim>\<open>src/hypervisor/src/hvf\<close>).

  \<^bold>\<open>The program.\<close> A guest's memory is a set of host mappings. Virtio devices read descriptor chains
  from rings in that memory, act on a backend (a disk image with a copy-on-write overlay, the
  guest network, an entropy source), write completions back and raise interrupts. Two transports
  expose one device core to the guest: registers in an MMIO window for a cold-booted guest, and the
  windows of a PCI BAR for a resumed one. An MMIO bus routes accesses to the transports, to a
  serial port and to a clock. The interrupt controller is modelled in software, and its state and
  the registers of each vCPU are translated between the form KVM saves and the form the local
  hypervisor takes. The guest's network ends in a userspace NAT that answers its DNS queries and
  opens a host connection for each flow an egress policy admits.

  \<^bold>\<open>The theories.\<close>
  \<^item> \<^verbatim>\<open>Prelude\<close>: machine words, saturating and checked arithmetic, little- and big-endian codecs, the
    outcome of code that may panic, list updates at an offset.
  \<^item> \<^verbatim>\<open>Guest_Memory\<close> (\<^verbatim>\<open>virtio/mod.rs\<close>): regions, \<^verbatim>\<open>with_ptr\<close> and the typed accessors, with the
    contracts \<^verbatim>\<open>byte_codec\<close>, \<^verbatim>\<open>byte_ram\<close> and \<^verbatim>\<open>typed_ram\<close> the clients rely on; an access is granted
    exactly inside one region, and a write reads back and disturbs nothing else.
  \<^item> \<^verbatim>\<open>Virtqueue\<close> (\<^verbatim>\<open>virtio/queue.rs\<close>): descriptor chains, indirect tables, the two rings and the
    event-index suppression; chains are delivered whole, completions published once, \<^verbatim>\<open>pop\<close> returns
    below 16384 entries and may not return from there on.
  \<^item> \<^verbatim>\<open>Host_File\<close>, \<^verbatim>\<open>Block\<close>, \<^verbatim>\<open>Overlay\<close> (\<^verbatim>\<open>virtio/block.rs\<close>): host files with injected faults, block
    requests, and the copy-on-write overlay as a refinement of one flat disk whose base never
    changes and whose content survives suspension.
  \<^item> \<^verbatim>\<open>Checksum\<close>, \<^verbatim>\<open>Lro\<close>, \<^verbatim>\<open>Net\<close> (\<^verbatim>\<open>virtio/lro.rs\<close>, \<^verbatim>\<open>virtio/net.rs\<close>): internet checksums, coalescing of
    received segments, and the echo responder.
  \<^item> \<^verbatim>\<open>Devcore\<close> (\<^verbatim>\<open>virtio/devcore.rs\<close>, \<^verbatim>\<open>virtio/rng.rs\<close>): draining a queue into a backend, completion
    interrupts, both directions of the network device.
  \<^item> \<^verbatim>\<open>Devices\<close> (\<^verbatim>\<open>devices.rs\<close>): the bus and its contract \<^verbatim>\<open>mmio_device\<close>, the PL011 and the PL031.
  \<^item> \<^verbatim>\<open>Mmio\<close> (\<^verbatim>\<open>virtio/mmio.rs\<close>) and \<^verbatim>\<open>Pci\<close> (\<^verbatim>\<open>virtio/pci.rs\<close>): the transports, as step relations over the
    device core, with invariants of every reachable state.
  \<^item> \<^verbatim>\<open>Its\<close> (\<^verbatim>\<open>virtio/its.rs\<close>): the interrupt translation tables in guest memory, their walk, the command
    queue that edits them, and the injection of translated interrupts.
  \<^item> \<^verbatim>\<open>Softgic\<close> (\<^verbatim>\<open>softgic.rs\<close>): distributor and redistributor registers.
  \<^item> \<^verbatim>\<open>Vcpu_Translate\<close> and \<^verbatim>\<open>Gic_Translate\<close> (\<^verbatim>\<open>translate.rs\<close>): the two representations of a vCPU and of
    the interrupt controller, with their round trips.
  \<^item> \<^verbatim>\<open>Rust_Text\<close>: what the sources use of Rust's strings, as lists of code points, with the round trips of
    decimal numbers, IPv4 addresses and UTF-8.
  \<^item> \<^verbatim>\<open>Egress\<close> (\<^verbatim>\<open>virtio/nat/policy.rs\<close>, \<^verbatim>\<open>reserved.rs\<close>): the rules that judge names and addresses, their
    live amendment and the reserved-address guard; what a decision is, what an amendment changes.
  \<^item> \<^verbatim>\<open>Dns\<close> (\<^verbatim>\<open>virtio/nat/dns.rs\<close>): queries and replies on the wire; parsing returns on every message and
    inverts the encoding.
  \<^item> \<^verbatim>\<open>Nat_Responder\<close> (\<^verbatim>\<open>virtio/nat/mod.rs\<close>, \<^verbatim>\<open>device.rs\<close>): the connection table between the guest's stack
    and host sockets, as a step relation with an invariant; admission, resolution and relaying.

  \<^bold>\<open>Modelling.\<close> Machine integers keep their width and wrap as the release build does. A function that
  may panic returns \<^verbatim>\<open>outcome\<close>; one that may not return is a \<^verbatim>\<open>partial_function\<close> into \<^verbatim>\<open>option\<close>, where
  \<^verbatim>\<open>None\<close> is a run that never ends, so no fuel is chosen. Trait objects are records of operations;
  host files, entropy, time, the network responder, the TCP/IP stack of the NAT and the host's
  resolver are arguments.

  \<^bold>\<open>Not modelled.\<close> Memory fences and concurrent access by the guest while a device runs (the model
  interleaves whole operations); logging; the calls into Hypervisor.framework and the vCPU threads;
  snapshot JSON; the float arithmetic of the NAT's bandwidth bucket; the command line, credential proxy and image tools of \<^verbatim>\<open>src/chm\<close>; the desktop
  application; the upstream monitor for Linux hosts.
\<close>

end
